(* ===== verification/Prelude.thy ===== *)
theory Prelude
  imports Main "HOL-Library.Word" "HOL-Library.Multiset"
begin

unbundle bit_operations_syntax

text \<open>
  Shared vocabulary of the development: the machine types of the program, the faults a C execution
  can run into, the sequencing operator for computations that may fault, the bounded loop, and
  the generic facts about sums, lists and multisets that the component theories share.

  A computation has type \<open>fault + 'a\<close>: \<open>Inl\<close> is an execution that leaves defined C behaviour (a
  read outside an object, a NULL dereference, a free of a dead pointer), \<open>Inr\<close> is a normal return.
  Error codes, NULL results and flags of the program are ordinary values inside \<open>Inr\<close>.
\<close>

section \<open>Machine types\<close>

type_synonym byte = "8 word"
type_synonym size_t = "64 word"
type_synonym ulong = "64 word"

text \<open>A C string argument is the memory from the pointer to the end of its object.\<close>

type_synonym cbuf = "byte list"

lemma unat_size_t_less: "unat (n :: size_t) < 2 ^ 64"
  by (rule order_less_le_trans [OF unsigned_less]) simp

section \<open>Faults and sequencing\<close>

datatype fault =
    BufferOverrun     \<comment> \<open>access outside a character buffer or heap block\<close>
  | NullDeref         \<comment> \<open>access through a NULL pointer\<close>
  | BadFree           \<comment> \<open>free or realloc of something that is not a live block\<close>
  | DanglingAccess    \<comment> \<open>access to a block that is not allocated\<close>
  | LockOverrun       \<comment> \<open>access outside the lock array of the table\<close>
  | BucketOverrun     \<comment> \<open>access outside the bucket array of the table\<close>
  | UnlockNotHeld     \<comment> \<open>unlock of a lock nobody holds\<close>
  | ArgvOverrun       \<comment> \<open>access outside the argument vector\<close>
  | DivByZero         \<comment> \<open>remainder by zero\<close>
  | BadHandle         \<comment> \<open>a libuv handle that was never initialised\<close>
  | Looping           \<comment> \<open>a loop that makes no progress\<close>

fun bindE :: "'e + 'a \<Rightarrow> ('a \<Rightarrow> 'e + 'b) \<Rightarrow> 'e + 'b" where
  "bindE (Inl e) f = Inl e"
| "bindE (Inr x) f = f x"

lemma bindE_eq_Inr: "bindE m f = Inr y \<longleftrightarrow> (\<exists>x. m = Inr x \<and> f x = Inr y)"
  by (cases m) auto

lemma bindE_assoc: "bindE (bindE m f) g = bindE m (\<lambda>x. bindE (f x) g)"
  by (cases m) auto

lemma bindE_cong [fundef_cong]:
  "m = m' \<Longrightarrow> (\<And>x. m' = Inr x \<Longrightarrow> f x = f' x) \<Longrightarrow> bindE m f = bindE m' f'"
  by (cases m') auto

section \<open>Bounded loops\<close>

text \<open>
  \<open>foreach body is s\<close> is a \<open>for\<close> loop whose body always runs to its end: the index takes the
  values of \<open>is\<close> in order and the state is passed from one round to the next.
\<close>

fun foreach :: "('i \<Rightarrow> 's \<Rightarrow> 'e + 's) \<Rightarrow> 'i list \<Rightarrow> 's \<Rightarrow> 'e + 's" where
  "foreach body [] s = Inr s"
| "foreach body (i # is) s = bindE (body i s) (foreach body is)"

lemma foreach_append:
  "foreach body (is @ js) s = bindE (foreach body is s) (foreach body js)"
  by (induction "is" arbitrary: s) (auto simp: bindE_assoc intro!: bindE_cong)

text \<open>The loop rule: an invariant indexed by the number of rounds done.\<close>

lemma foreach_upt_rule:
  assumes "P 0 s"
    and "\<And>i s. i < n \<Longrightarrow> P i s \<Longrightarrow> \<exists>s'. body i s = Inr s' \<and> P (Suc i) s'"
  shows "\<exists>s'. foreach body [0..<n] s = Inr s' \<and> P n s'"
  using assms(2)
proof (induction n)
  case 0
  with assms(1) show ?case by simp
next
  case (Suc n)
  then obtain s' where s': "foreach body [0..<n] s = Inr s'" "P n s'"
    using less_SucI by blast
  with Suc.prems [of n s'] obtain s'' where "body n s' = Inr s''" "P (Suc n) s''"
    by auto
  with s' show ?case by (simp add: foreach_append)
qed

text \<open>A loop whose rounds cannot fault and are known is a fold.\<close>

lemma foreach_pure:
  "(\<And>i s. i \<in> set is \<Longrightarrow> body i s = Inr (f i s)) \<Longrightarrow> foreach body is s = Inr (fold f is s)"
  by (induction "is" arbitrary: s) simp_all

end
