(* ===== verification/Bitwise.thy ===== *)
theory Bitwise
  imports Prelude
begin

text \<open>
  src/src/bitwise_functionality.c: \<open>next_power_of_2\<close> by bit smearing, on the 64-bit \<open>size_t\<close> of the
  target (the shift by 32 is compiled in on x86-64), and the facts about powers of two the table
  uses for its bucket index.
\<close>

definition next_power_of_2 :: "size_t \<Rightarrow> size_t" where
  "next_power_of_2 n =
     (if n = 0 then 1
      else (let n = n - 1;
                n = n OR drop_bit 1 n;
                n = n OR drop_bit 2 n;
                n = n OR drop_bit 4 n;
                n = n OR drop_bit 8 n;
                n = n OR drop_bit 16 n;
                n = n OR drop_bit 32 n
            in n + 1))"

section \<open>Smearing\<close>

text \<open>
  After the step with shift \<open>k\<close> every bit at distance below \<open>2 * k\<close> under a set bit is set.
  \<open>smeared k n m\<close>: \<open>m\<close> has exactly the bits that lie less than \<open>k\<close> places below a bit of \<open>n\<close>.
\<close>

definition smeared :: "nat \<Rightarrow> size_t \<Rightarrow> size_t \<Rightarrow> bool" where
  "smeared k n m \<longleftrightarrow> (\<forall>i. bit m i \<longleftrightarrow> (\<exists>j. i \<le> j \<and> j < i + k \<and> bit n j))"

lemma smeared_start: "smeared 1 n n"
  by (auto simp: smeared_def less_Suc_eq)

lemma smeared_step:
  assumes "smeared k n m" and "k2 = k + k"
  shows "smeared k2 n (m OR drop_bit k m)"
  unfolding smeared_def
proof (intro allI iffI)
  fix i assume "bit (m OR drop_bit k m) i"
  then consider "bit m i" | "bit m (i + k)"
    by (auto simp: bit_or_iff bit_drop_bit_eq ac_simps)
  then obtain j where "i \<le> j" "j < i + k2" "bit n j"
  proof cases
    case 1
    with assms show ?thesis by (auto simp: smeared_def intro: that)
  next
    case 2
    with assms(1) obtain j where "i + k \<le> j" "j < i + k + k" "bit n j"
      by (auto simp: smeared_def)
    with assms(2) show ?thesis by (intro that) auto
  qed
  then show "\<exists>j. i \<le> j \<and> j < i + k2 \<and> bit n j" by blast
next
  fix i assume "\<exists>j. i \<le> j \<and> j < i + k2 \<and> bit n j"
  then obtain j where j: "i \<le> j" "j < i + k2" "bit n j" by blast
  have "bit m i \<or> bit m (i + k)"
  proof (cases "j < i + k")
    case True
    with j assms(1) show ?thesis by (auto simp: smeared_def)
  next
    case False
    with j assms(2) have "i + k \<le> j" "j < i + k + k" by auto
    with j assms(1) show ?thesis unfolding smeared_def by blast
  qed
  then show "bit (m OR drop_bit k m) i"
    by (auto simp: bit_or_iff bit_drop_bit_eq ac_simps)
qed

text \<open>Smearing over the whole width sets all bits up to the highest one.\<close>

lemma smeared_64:
  assumes "smeared 64 n m" and "unat n < 2 ^ k" and "0 < k" and "2 ^ (k - 1) \<le> unat n" and "k \<le> 64"
  shows "m = mask k"
proof (rule bit_word_eqI)
  fix i assume "i < LENGTH(64)"
  have n: "n = take_bit k n"
    using assms(2) by (intro word_unat_eq_iff [THEN iffD2]) (simp add: unsigned_take_bit_eq take_bit_nat_eq_self)
  have top: "bit n (k - 1)"
  proof -
    have "unat n div 2 ^ (k - 1) = 1"
      using assms(2-4) by (intro div_nat_eqI) (cases k; simp)+
    then have "bit (unat n) (k - 1)" by (simp add: bit_iff_odd)
    then show ?thesis by (simp add: bit_unsigned_iff)
  qed
  have "bit m i \<longleftrightarrow> (\<exists>j. i \<le> j \<and> j < i + 64 \<and> bit n j)"
    using assms(1) by (simp add: smeared_def)
  also have "\<dots> \<longleftrightarrow> i < k"
  proof
    assume "\<exists>j. i \<le> j \<and> j < i + 64 \<and> bit n j"
    then obtain j where "i \<le> j" "bit n j" by blast
    moreover from \<open>bit n j\<close> have "j < k" by (subst (asm) n) (simp add: bit_take_bit_iff)
    ultimately show "i < k" by simp
  next
    assume "i < k"
    with top assms(3,5) show "\<exists>j. i \<le> j \<and> j < i + 64 \<and> bit n j"
      by (intro exI [of _ "k - 1"]) auto
  qed
  finally show "bit m i \<longleftrightarrow> bit (mask k :: size_t) i"
    using \<open>i < LENGTH(64)\<close> by (simp add: bit_mask_iff)
qed

lemma next_power_of_2_smear:
  assumes "n \<noteq> 0"
  obtains m where "smeared 64 (n - 1) m" and "next_power_of_2 n = m + 1"
proof -
  note s1 = smeared_step [OF smeared_start [of "n - 1"], of 2]
  note s2 = smeared_step [OF s1, of 4]
  note s3 = smeared_step [OF s2, of 8]
  note s4 = smeared_step [OF s3, of 16]
  note s5 = smeared_step [OF s4, of 32]
  note s6 = smeared_step [OF s5, of 64]
  show thesis
    by (rule that [OF s6]) (use assms in \<open>simp_all add: next_power_of_2_def Let_def\<close>)
qed

text \<open>The exponent the code computes: the least \<open>k\<close> with \<open>n \<le> 2 ^ k\<close>.\<close>

lemma least_exponent:
  assumes "1 < (n :: nat)"
  obtains k where "n \<le> 2 ^ k" and "2 ^ (k - 1) < n" and "0 < k"
proof -
  define k where "k = (LEAST k. n \<le> 2 ^ k)"
  have "n \<le> 2 ^ n" by (simp add: less_imp_le)
  then have le: "n \<le> 2 ^ k" unfolding k_def by (rule LeastI)
  with assms have "0 < k" by (cases k) auto
  moreover from this have "\<not> n \<le> 2 ^ (k - 1)" unfolding k_def by (intro not_less_Least) simp
  ultimately show thesis using le that by auto
qed

lemma next_power_of_2_exponent:
  assumes "2 ^ (k - 1) < unat n" and "unat n \<le> 2 ^ k" and "0 < k" and "k \<le> 64"
  shows "next_power_of_2 n = (2 :: size_t) ^ k"
proof -
  have "1 < unat n" using assms(1) by (rule le_less_trans [rotated]) simp
  then have n: "n \<noteq> 0" "unat (n - 1) = unat n - 1"
    by (auto simp: unat_sub word_le_nat_alt)
  then obtain m where m: "smeared 64 (n - 1) m" "next_power_of_2 n = m + 1"
    using next_power_of_2_smear by blast
  have "m = mask k"
    using m(1) n(2) assms by (intro smeared_64 [of "n - 1"]) auto
  with m(2) show ?thesis by (simp add: mask_eq_exp_minus_1)
qed

section \<open>Masks as remainders\<close>

text \<open>For a power of two the bucket index by mask and the index by remainder agree.\<close>

definition is_pow2 :: "size_t \<Rightarrow> bool" where
  "is_pow2 n \<longleftrightarrow> n \<noteq> 0 \<and> n AND (n - 1) = 0"

lemma pow2_and_dec: "(2 :: size_t) ^ k AND (2 ^ k - 1) = 0"
  by (rule bit_word_eqI) (auto simp: bit_and_iff bit_mask_iff bit_exp_iff simp flip: mask_eq_exp_minus_1)

lemma is_pow2_exp: "k < 64 \<Longrightarrow> is_pow2 (2 ^ k)"
  by (simp add: is_pow2_def pow2_and_dec)

lemma unat_pow2:
  assumes "k < 64"
  shows "unat ((2 :: size_t) ^ k) = 2 ^ k"
proof -
  have "unat ((2 :: size_t) ^ k) = unat (of_nat (2 ^ k) :: size_t)" by simp
  also have "\<dots> = 2 ^ k mod 2 ^ 64" by (simp only: unat_of_nat len_bit0 len_num1) simp
  finally show ?thesis using assms by (simp only: mod_less power_strict_increasing)
qed

lemma highest_bit:
  assumes "(n :: nat) \<noteq> 0"
  obtains k where "2 ^ k \<le> n" and "n < 2 ^ Suc k"
  using ex_power_ivl1 [of 2 n] assms that by auto

lemma bit_between: "2 ^ k \<le> unat n \<Longrightarrow> unat n < 2 ^ Suc k \<Longrightarrow> bit (n :: size_t) k"
proof -
  assume "2 ^ k \<le> unat n" "unat n < 2 ^ Suc k"
  then have "unat n div 2 ^ k = 1" by (intro div_nat_eqI) simp_all
  then have "bit (unat n) k" by (simp add: bit_iff_odd)
  then show ?thesis by (simp add: bit_unsigned_iff)
qed

lemma is_pow2_iff: "is_pow2 n \<longleftrightarrow> (\<exists>k < 64. n = 2 ^ k)"
proof
  assume n: "is_pow2 n"
  then have "unat n \<noteq> 0" by (simp add: is_pow2_def unat_0_iff)
  then obtain k where k: "2 ^ k \<le> unat n" "unat n < 2 ^ Suc k" by (rule highest_bit)
  have "k < 64"
    using le_less_trans [OF k(1) unat_size_t_less] by (rule power_less_imp_less_exp [rotated]) simp
  have "unat n = 2 ^ k"
  proof (rule ccontr)
    assume "unat n \<noteq> 2 ^ k"
    with k(1) have "2 ^ k < unat n" by simp
    then have "n \<noteq> 0" "unat (n - 1) = unat n - 1" by (auto simp: unat_sub word_le_nat_alt)
    with k \<open>2 ^ k < unat n\<close> have "bit (n AND (n - 1)) k"
      by (simp add: bit_and_iff bit_between)
    with n show False by (simp add: is_pow2_def)
  qed
  with \<open>k < 64\<close> show "\<exists>k < 64. n = 2 ^ k"
    by (intro exI [of _ k]) (simp add: word_unat_eq_iff unat_pow2)
qed (auto intro: is_pow2_exp)

lemma mask_eq_mod: "k < 64 \<Longrightarrow> x AND ((2 :: size_t) ^ k - 1) = x mod 2 ^ k"
  by (simp flip: mask_eq_exp_minus_1 take_bit_eq_mask take_bit_eq_mod)

lemma is_pow2_and_eq_mod: "is_pow2 n \<Longrightarrow> x AND (n - 1) = x mod n"
  by (auto simp: is_pow2_iff mask_eq_mod)

lemma is_pow2_nonzero: "is_pow2 n \<Longrightarrow> 0 < unat n"
  by (auto simp: is_pow2_iff unat_pow2)

lemma is_pow2_and_less: "is_pow2 n \<Longrightarrow> unat (x AND (n - 1)) < unat n"
  by (auto simp: is_pow2_and_eq_mod unat_mod is_pow2_nonzero)

section \<open>What next_power_of_2 returns\<close>

lemma next_power_of_2_pow2:
  assumes "n \<noteq> 0" and "unat n \<le> 2 ^ 63"
  obtains k where "k < 64" and "next_power_of_2 n = 2 ^ k" and "unat n \<le> 2 ^ k"
    and "k = 0 \<or> 2 ^ (k - 1) < unat n"
proof (cases "n = 1")
  case True
  then show thesis by (intro that [of 0]) (simp_all add: next_power_of_2_def)
next
  case False
  with assms(1) have "1 < unat n"
    by (metis One_nat_def less_one linorder_neqE_nat unat_1 unat_eq_zero word_unat_eq_iff)
  then obtain k where k: "unat n \<le> 2 ^ k" "2 ^ (k - 1) < unat n" "0 < k" by (rule least_exponent)
  have "2 ^ (k - 1) < (2 :: nat) ^ 63" using k(2) assms(2) by (rule less_le_trans)
  then have "k - 1 < 63" by (rule power_less_imp_less_exp [rotated]) simp
  with k show thesis by (intro that [of k]) (simp_all add: next_power_of_2_exponent)
qed

lemma next_power_of_2_wraps:
  assumes "2 ^ 63 < unat n"
  shows "next_power_of_2 n = 0"
proof -
  have "unat n < 2 ^ 64" by (rule unat_size_t_less)
  with assms have "next_power_of_2 n = (2 :: size_t) ^ 64"
    by (intro next_power_of_2_exponent) simp_all
  then show ?thesis by simp
qed

lemma is_pow2_next_power_of_2: "n \<noteq> 0 \<Longrightarrow> unat n \<le> 2 ^ 63 \<Longrightarrow> is_pow2 (next_power_of_2 n)"
  by (rule next_power_of_2_pow2 [of n]) (auto intro: is_pow2_exp)

section \<open>Properties\<close>

text \<open>C34. For \<open>0 < n \<le> 2 ^ 63\<close>, \<open>next_power_of_2 n\<close> is the least power of two that is at least \<open>n\<close>; it is 1
  for 0, and above \<open>2 ^ 63\<close> it wraps around to 0.\<close>

theorem next_power_of_2_least:
  "if n = 0 then next_power_of_2 n = 1
   else if 2 ^ 63 < unat n then next_power_of_2 n = 0
   else (\<exists>k < 64. next_power_of_2 n = 2 ^ k) \<and> n \<le> next_power_of_2 n \<and>
        (\<forall>j < 64. n \<le> 2 ^ j \<longrightarrow> next_power_of_2 n \<le> 2 ^ j)"
proof -
  have "(\<exists>k < 64. next_power_of_2 n = 2 ^ k) \<and> n \<le> next_power_of_2 n \<and>
      (\<forall>j < 64. n \<le> 2 ^ j \<longrightarrow> next_power_of_2 n \<le> 2 ^ j)" if "n \<noteq> 0" "unat n \<le> 2 ^ 63"
    using that
  proof (rule next_power_of_2_pow2)
    fix k assume k: "k < 64" "next_power_of_2 n = 2 ^ k" "unat n \<le> 2 ^ k" "k = 0 \<or> 2 ^ (k - 1) < unat n"
    have "next_power_of_2 n \<le> 2 ^ j" if "j < 64" "n \<le> 2 ^ j" for j
    proof -
      have "unat n \<le> 2 ^ j" using that by (simp add: word_le_nat_alt unat_pow2)
      with k(4) have "k = 0 \<or> (2 :: nat) ^ (k - 1) < 2 ^ j" by linarith
      then have "k \<le> j" by (cases k) (simp_all add: power_strict_increasing_iff)
      with k(1,2) that(1) show ?thesis by (simp add: word_le_nat_alt unat_pow2)
    qed
    with k show ?thesis by (auto simp: word_le_nat_alt unat_pow2)
  qed
  moreover have "next_power_of_2 0 = 1" by (simp add: next_power_of_2_def)
  ultimately show ?thesis using next_power_of_2_wraps [of n] by (simp add: not_less)
qed

theorem next_power_of_2_least_witness:
  "(\<exists>k < 64. next_power_of_2 5 = 2 ^ k) \<and> 5 \<le> next_power_of_2 5 \<and> next_power_of_2 5 \<le> 2 ^ 3"
proof -
  have "(5 :: size_t) \<noteq> 0" "\<not> 2 ^ 63 < unat (5 :: size_t)" "(5 :: size_t) \<le> 2 ^ 3" by simp_all
  moreover from this have "(\<exists>k < 64. next_power_of_2 5 = 2 ^ k) \<and> 5 \<le> next_power_of_2 5 \<and>
      (\<forall>j < 64. (5 :: size_t) \<le> 2 ^ j \<longrightarrow> next_power_of_2 5 \<le> 2 ^ j)"
    using next_power_of_2_least [of 5] by (simp only: if_False) blast
  moreover have "(3 :: nat) < 64" by simp
  ultimately show ?thesis by blast
qed

end
