(* ===== verification/Memory.thy ===== *)
theory Memory
  imports Prelude
begin

text \<open>
  The dynamic memory of the process, as the sources use it through the C library: blocks of bytes
  named by a number, pointers that are a block and an offset into it (or NULL), allocation that
  may be refused, and the copies \<open>memcpy\<close> and \<open>realloc\<close> make. \<open>memdup\<close> of
  src/src/string_functionality.c is built on them.

  A refusal by the operating system is an input of the model: \<open>sys_fails\<close> lists, for the requests
  to come, whether each is refused, and requests past the end of the list are granted. A theorem
  for an arbitrary list holds for every pattern of allocation failures. The bytes of a
  fresh block are indeterminate in C. They are an input too: \<open>junk\<close> gives the byte at each offset of each
  block before it is written, and all theorems are for an arbitrary \<open>junk\<close>. The parser does read such bytes:
  \<open>strtol\<close> may run on behind the bytes that have arrived. Requests of more than PTRDIFF_MAX bytes are
  refused, and a request for zero bytes returns a pointer to an empty block, as the C library of the target does.
\<close>

section \<open>Pointers and the world\<close>

datatype ptr = NULL | Ptr nat nat

record world =
  heap :: "nat \<Rightarrow> byte list option"
  fresh :: nat
  sys_fails :: "bool list"
  junk :: "nat \<Rightarrow> nat \<Rightarrow> byte"

definition empty_world :: world where
  "empty_world = \<lparr>heap = (\<lambda>_. None), fresh = 0, sys_fails = [], junk = (\<lambda>a k. 0)\<rparr>"

text \<open>Blocks that are not yet handed out are not allocated.\<close>

definition world_ok :: "world \<Rightarrow> bool" where
  "world_ok w \<longleftrightarrow> (\<forall>a. heap w a \<noteq> None \<longrightarrow> a < fresh w)"

text \<open>\<open>live w p\<close>: \<open>p\<close> points to the start of an allocated block.\<close>

definition live :: "world \<Rightarrow> ptr \<Rightarrow> bool" where
  "live w p \<longleftrightarrow> (case p of NULL \<Rightarrow> False | Ptr a off \<Rightarrow> off = 0 \<and> heap w a \<noteq> None)"

definition block :: "world \<Rightarrow> ptr \<Rightarrow> byte list" where
  "block w p = (case p of NULL \<Rightarrow> [] | Ptr a off \<Rightarrow> (case heap w a of None \<Rightarrow> [] | Some bs \<Rightarrow> bs))"

definition ptr_add :: "ptr \<Rightarrow> nat \<Rightarrow> ptr" where
  "ptr_add p n = (case p of NULL \<Rightarrow> NULL | Ptr a off \<Rightarrow> Ptr a (off + n))"

section \<open>Requests to the system\<close>

definition sys_request :: "world \<Rightarrow> bool \<times> world" where
  "sys_request w = (case sys_fails w of [] \<Rightarrow> (False, w) | f # fs \<Rightarrow> (f, w\<lparr>sys_fails := fs\<rparr>))"

definition raw :: "world \<Rightarrow> nat \<Rightarrow> byte list" where
  "raw w n = map (junk w (fresh w)) [0..<n]"

lemma length_raw [simp]: "length (raw w n) = n"
  by (simp add: raw_def)

definition malloc :: "size_t \<Rightarrow> world \<Rightarrow> ptr \<times> world" where
  "malloc n w =
     (let (refused, w') = sys_request w in
      if refused \<or> 2 ^ 63 \<le> unat n then (NULL, w')
      else (Ptr (fresh w') 0,
            w'\<lparr>heap := (heap w')(fresh w' := Some (raw w' (unat n))),
               fresh := Suc (fresh w')\<rparr>))"

definition free :: "ptr \<Rightarrow> world \<Rightarrow> fault + world" where
  "free p w =
     (case p of
        NULL \<Rightarrow> Inr w
      | Ptr a off \<Rightarrow>
          if live w p then Inr (w\<lparr>heap := (heap w)(a := None)\<rparr>) else Inl BadFree)"

text \<open>
  The blocks of the table's own structs (the struct itself, its bucket array, its lock array): the
  contents are kept in the table's record, and the heap only records that the block is allocated.
  Sizes are numbers: \<open>calloc\<close> refuses a product that does not fit, \<open>malloc\<close> gets the wrapped product.
\<close>

definition alloc_struct :: "nat \<Rightarrow> world \<Rightarrow> ptr \<times> world" where
  "alloc_struct n w =
     (let (refused, w') = sys_request w in
      if refused \<or> 2 ^ 63 \<le> n then (NULL, w')
      else (Ptr (fresh w') 0,
            w'\<lparr>heap := (heap w')(fresh w' := Some []), fresh := Suc (fresh w')\<rparr>))"

section \<open>Reading and writing blocks\<close>

definition load :: "ptr \<Rightarrow> nat \<Rightarrow> world \<Rightarrow> fault + byte list" where
  "load p n w =
     (case p of
        NULL \<Rightarrow> Inl NullDeref
      | Ptr a off \<Rightarrow>
          (case heap w a of
             None \<Rightarrow> Inl DanglingAccess
           | Some bs \<Rightarrow>
               if off + n \<le> length bs then Inr (take n (drop off bs)) else Inl BufferOverrun))"

definition store :: "ptr \<Rightarrow> byte list \<Rightarrow> world \<Rightarrow> fault + world" where
  "store p cs w =
     (case p of
        NULL \<Rightarrow> Inl NullDeref
      | Ptr a off \<Rightarrow>
          (case heap w a of
             None \<Rightarrow> Inl DanglingAccess
           | Some bs \<Rightarrow>
               if off + length cs \<le> length bs
               then Inr (w\<lparr>heap := (heap w)(a := Some (take off bs @ cs @ drop (off + length cs) bs))\<rparr>)
               else Inl BufferOverrun))"

definition memcpy :: "ptr \<Rightarrow> ptr \<Rightarrow> nat \<Rightarrow> world \<Rightarrow> fault + world" where
  "memcpy dest src n w = bindE (load src n w) (\<lambda>cs. store dest cs w)"

text \<open>\<open>realloc\<close> with size 0 is undefined in C23, and moves the block otherwise.\<close>

definition realloc :: "ptr \<Rightarrow> size_t \<Rightarrow> world \<Rightarrow> fault + (ptr \<times> world)" where
  "realloc p n w =
     (case p of
        NULL \<Rightarrow> Inr (malloc n w)
      | Ptr a off \<Rightarrow>
          if n = 0 \<or> \<not> live w p then Inl BadFree
          else (let (q, w1) = malloc n w in
                if q = NULL then Inr (NULL, w1)
                else (let bs = block w p; k = min (unat n) (length bs) in
                      bindE (store q (take k bs) w1) (\<lambda>w2.
                      bindE (free p w2) (\<lambda>w3. Inr (q, w3))))))"

section \<open>memdup\<close>

definition memdup :: "ptr \<Rightarrow> size_t \<Rightarrow> world \<Rightarrow> fault + (ptr \<times> world)" where
  "memdup src len w =
     (let (dest, w1) = malloc len w in
      if dest = NULL then Inr (NULL, w1)
      else bindE (memcpy dest src (unat len) w1) (\<lambda>w2. Inr (dest, w2)))"

section \<open>Facts about requests and blocks\<close>

text \<open>What an allocation in a concrete world computes to.\<close>

named_theorems heap_simps

declare alloc_struct_def [heap_simps] sys_request_def [heap_simps]

lemma sys_request_frame [simp]:
  "heap (snd (sys_request w)) = heap w" "fresh (snd (sys_request w)) = fresh w"
  "sys_fails (snd (sys_request w)) = tl (sys_fails w)"
  by (auto simp: sys_request_def split: list.splits)

lemma sys_request_junk [simp]: "junk (snd (sys_request w)) = junk w" "raw (snd (sys_request w)) = raw w"
  by (auto simp: sys_request_def raw_def fun_eq_iff split: list.splits)

lemma world_ok_request [simp]: "world_ok (snd (sys_request w)) = world_ok w"
  by (simp add: world_ok_def)

lemma world_ok_empty [simp]: "world_ok empty_world"
  by (simp add: world_ok_def empty_world_def)

lemma live_Ptr [simp]: "live w (Ptr a off) \<longleftrightarrow> off = 0 \<and> heap w a \<noteq> None"
  by (simp add: live_def)

lemma live_NULL [simp]: "\<not> live w NULL"
  by (simp add: live_def)

text \<open>The two outcomes of \<open>malloc\<close>: refused with the memory unchanged, or one fresh block.\<close>

lemma malloc_cases:
  obtains (refused) w' where "malloc n w = (NULL, w')" "heap w' = heap w" "fresh w' = fresh w"
      "sys_fails w' = tl (sys_fails w)"
  | (granted) w' where "malloc n w = (Ptr (fresh w) 0, w')" "unat n < 2 ^ 63"
      "heap w' = (heap w)(fresh w := Some (raw w (unat n)))" "fresh w' = Suc (fresh w)"
      "sys_fails w' = tl (sys_fails w)"
proof (cases "sys_request w")
  case (Pair r w')
  then have h: "heap w' = heap w" and f: "fresh w' = fresh w" and tl: "sys_fails w' = tl (sys_fails w)"
    and rw: "raw w' = raw w"
    using sys_request_frame [of w] sys_request_junk [of w] by simp_all
  show thesis
  proof (cases "r \<or> 2 ^ 63 \<le> unat n")
    case True
    with Pair have "malloc n w = (NULL, w')" by (simp add: malloc_def)
    with h f tl refused show ?thesis by blast
  next
    case False
    with Pair h f tl rw show ?thesis
      by (intro granted [of "w'\<lparr>heap := (heap w')(fresh w' := Some (raw w' (unat n))),
               fresh := Suc (fresh w')\<rparr>"]) (auto simp: malloc_def)
  qed
qed

lemma alloc_struct_cases:
  obtains (refused) w' where "alloc_struct n w = (NULL, w')" "heap w' = heap w" "fresh w' = fresh w"
  | (granted) w' where "alloc_struct n w = (Ptr (fresh w) 0, w')" "n < 2 ^ 63"
      "heap w' = (heap w)(fresh w := Some [])" "fresh w' = Suc (fresh w)"
proof (cases "sys_request w")
  case (Pair r w')
  then have h: "heap w' = heap w" and f: "fresh w' = fresh w" and tl: "sys_fails w' = tl (sys_fails w)"
    using sys_request_frame [of w] by simp_all
  show thesis
  proof (cases "r \<or> 2 ^ 63 \<le> n")
    case True
    with Pair have "alloc_struct n w = (NULL, w')" by (simp add: alloc_struct_def)
    with h f refused show ?thesis by blast
  next
    case False
    with Pair h f show ?thesis
      by (intro granted [of "w'\<lparr>heap := (heap w')(fresh w' := Some []), fresh := Suc (fresh w')\<rparr>"])
         (auto simp: alloc_struct_def)
  qed
qed

lemma malloc_no_fails:
  "sys_fails w = [] \<Longrightarrow> unat n < 2 ^ 63 \<Longrightarrow>
   malloc n w = (Ptr (fresh w) 0,
     w\<lparr>heap := (heap w)(fresh w := Some (raw w (unat n))), fresh := Suc (fresh w)\<rparr>)"
  by (simp add: malloc_def sys_request_def)

lemma malloc_grants: "sys_fails w = [] \<Longrightarrow> unat n < 2 ^ 63 \<Longrightarrow> fst (malloc n w) \<noteq> NULL"
  by (simp add: malloc_no_fails)

lemma world_ok_malloc: "world_ok w \<Longrightarrow> malloc n w = (p, w') \<Longrightarrow> world_ok w'"
  by (cases rule: malloc_cases [of n w]) (auto simp: world_ok_def less_Suc_eq)

lemma world_ok_fresh: "world_ok w \<Longrightarrow> heap w (fresh w) = None"
  by (auto simp: world_ok_def)

lemma free_live:
  "live w (Ptr a off) \<Longrightarrow> free (Ptr a off) w = Inr (w\<lparr>heap := (heap w)(a := None)\<rparr>)"
  by (simp add: free_def)

text \<open>
  Copying a block: with \<open>len\<close> bytes readable at \<open>src\<close>, \<open>memdup\<close> does not fault; it either returns
  NULL with the memory as it was, or a pointer to a fresh block holding exactly those bytes.
\<close>

lemma memdup_spec:
  assumes "world_ok w" and "load src (unat len) w = Inr cs"
  obtains (refused) w' where "memdup src len w = Inr (NULL, w')" "heap w' = heap w" "fresh w' = fresh w"
      "fst (malloc len w) = NULL" "sys_fails w' = tl (sys_fails w)"
  | (copied) w' where "memdup src len w = Inr (Ptr (fresh w) 0, w')"
      "heap w' = (heap w)(fresh w := Some cs)" "fresh w' = Suc (fresh w)" "sys_fails w' = tl (sys_fails w)"
proof (cases rule: malloc_cases [of len w])
  case (refused w')
  then show thesis by (intro that(1) [of w']) (auto simp: memdup_def)
next
  case (granted w')
  from assms obtain a off bs where src: "src = Ptr a off" "heap w a = Some bs"
      "off + unat len \<le> length bs" and cs: "cs = take (unat len) (drop off bs)"
    by (auto simp: load_def split: ptr.splits option.splits if_splits)
  with assms(1) have "a \<noteq> fresh w" by (auto simp: world_ok_def)
  with src cs granted have "load src (unat len) w' = Inr cs" and "length cs = unat len"
    by (auto simp: load_def)
  with granted show thesis
    by (intro that(2) [of "w'\<lparr>heap := (heap w)(fresh w := Some cs)\<rparr>"])
       (auto simp: memdup_def memcpy_def store_def)
qed

end
