(* ===== verification/CString.thy ===== *)
theory CString
  imports Memory
begin

text \<open>
  The string and conversion helpers of src/src/string_functionality.c. A \<open>const unsigned char*\<close>
  argument is the list of bytes from the pointer to the end of its object; reading past the end
  of the list is a fault. Where the code tests a pointer for NULL the argument is an option.
  \<open>bool*\<close> out-parameters are options as well: \<open>None\<close> is a NULL pointer, \<open>Some b\<close> is the flag.
\<close>

section \<open>C strings\<close>

definition cstr :: "cbuf \<Rightarrow> byte list" where
  "cstr s = takeWhile (\<lambda>b. b \<noteq> 0) s"

definition terminated :: "cbuf \<Rightarrow> bool" where
  "terminated s \<longleftrightarrow> 0 \<in> set s"

text \<open>What reading a number in a concrete string computes to.\<close>

named_theorems cstr_simps

lemma cstr_Nil [simp]: "cstr [] = []"
  by (simp add: cstr_def)

lemma cstr_Cons [simp]: "cstr (b # s) = (if b = 0 then [] else b # cstr s)"
  by (simp add: cstr_def)

lemma terminated_Nil [simp]: "\<not> terminated []"
  by (simp add: terminated_def)

lemma terminated_Cons [simp]: "terminated (b # s) \<longleftrightarrow> b = 0 \<or> terminated s"
  by (auto simp: terminated_def)

lemma cstr_nonzero: "0 \<notin> set (cstr s)"
  by (auto simp: cstr_def dest: set_takeWhileD)

lemma cstr_append_zero [simp]: "0 \<notin> set k \<Longrightarrow> cstr (k @ 0 # s) = k"
  by (induction k) auto

lemma terminated_append [simp]: "terminated (s @ s') \<longleftrightarrow> terminated s \<or> terminated s'"
  by (auto simp: terminated_def)

lemma length_cstr_less: "terminated s \<Longrightarrow> length (cstr s) < length s"
  by (induction s) auto

lemma length_cstr_le: "length (cstr s) \<le> length s"
  by (induction s) auto

lemma nth_cstr_zero: "terminated s \<Longrightarrow> s ! length (cstr s) = 0"
  by (induction s) auto

lemma cstr_take_zero: "terminated s \<Longrightarrow> take (Suc (length (cstr s))) s = cstr s @ [0]"
  by (induction s) auto

section \<open>Decimal numbers\<close>

fun stosizet_loop :: "cbuf \<Rightarrow> size_t \<Rightarrow> fault + size_t" where
  "stosizet_loop [] result = Inl BufferOverrun"
| "stosizet_loop (c # s) result =
     (if c = 0 then Inr result
      else if c < 48 \<or> c > 57 then Inr 0
      else (let digit = ucast (c - 48) :: size_t in
            if result > (- 1 - digit) div 10 then Inr 0
            else stosizet_loop s (result * 10 + digit)))"

definition stosizet :: "cbuf option \<Rightarrow> fault + size_t" where
  "stosizet s =
     (case s of
        None \<Rightarrow> Inr 0
      | Some s \<Rightarrow>
          (case s of
             [] \<Rightarrow> Inl BufferOverrun
           | c # _ \<Rightarrow> if c = 0 then Inr 0 else stosizet_loop s 0))"

text \<open>The reference: the value of a digit string, as an unbounded number.\<close>

definition is_digit :: "byte \<Rightarrow> bool" where
  "is_digit c \<longleftrightarrow> 48 \<le> c \<and> c \<le> 57"

fun digits_value :: "byte list \<Rightarrow> nat \<Rightarrow> nat" where
  "digits_value [] n = n"
| "digits_value (c # cs) n = digits_value cs (10 * n + (unat c - 48))"

lemma digits_value_mono: "n \<le> digits_value cs n"
proof (induction cs arbitrary: n)
  case (Cons c cs)
  have "n \<le> 10 * n + (unat c - 48)" by simp
  also have "\<dots> \<le> digits_value cs (10 * n + (unat c - 48))" by (rule Cons)
  finally show ?case by simp
qed simp

lemma digit_unat:
  assumes "is_digit c"
  shows "unat (ucast (c - 48) :: size_t) = unat c - 48" and "unat c - 48 \<le> 9"
proof -
  from assms have "unat (48 :: byte) \<le> unat c" "unat c \<le> unat (57 :: byte)"
    by (simp_all only: is_digit_def word_le_nat_alt)
  then have "48 \<le> unat c" "unat c \<le> 57" by simp_all
  then show "unat c - 48 \<le> 9" and "unat (ucast (c - 48) :: size_t) = unat c - 48"
    by (simp_all add: unsigned_ucast_eq unat_sub word_le_nat_alt take_bit_nat_eq_self)
qed

text \<open>One digit: the overflow test of the code is exact.\<close>

lemma stosizet_step:
  assumes "is_digit c"
  defines "d \<equiv> ucast (c - 48) :: size_t"
  shows "(r > (- 1 - d) div 10) \<longleftrightarrow> 2 ^ 64 \<le> 10 * unat r + (unat c - 48)"
    and "\<not> r > (- 1 - d) div 10 \<Longrightarrow> unat (r * 10 + d) = 10 * unat r + (unat c - 48)"
proof -
  note d = digit_unat [OF assms(1), folded d_def]
  have m: "unat (- 1 - d) = 2 ^ 64 - 1 - (unat c - 48)"
    using d by (simp add: unat_sub unsigned_minus_1_eq_mask mask_eq_exp_minus_1)
  have "r > (- 1 - d) div 10 \<longleftrightarrow> (2 ^ 64 - 1 - (unat c - 48)) div 10 < unat r"
    by (simp add: word_less_nat_alt unat_div m)
  also have "\<dots> \<longleftrightarrow> 2 ^ 64 \<le> 10 * unat r + (unat c - 48)"
    using d(2) by (simp add: div_less_iff_less_mult) arith
  finally show 1: "r > (- 1 - d) div 10 \<longleftrightarrow> 2 ^ 64 \<le> 10 * unat r + (unat c - 48)" .
  assume "\<not> r > (- 1 - d) div 10"
  with 1 have "10 * unat r + (unat c - 48) < 2 ^ 64" by simp
  with d show "unat (r * 10 + d) = 10 * unat r + (unat c - 48)"
    by (simp add: unat_word_ariths)
qed

lemma stosizet_loop_digits:
  assumes "terminated s" and "\<forall>c \<in> set (cstr s). is_digit c"
  shows "stosizet_loop s r =
    Inr (if digits_value (cstr s) (unat r) < 2 ^ 64
         then of_nat (digits_value (cstr s) (unat r)) else 0)"
  using assms
proof (induction s arbitrary: r)
  case (Cons c s)
  show ?case
  proof (cases "c = 0")
    case False
    with Cons.prems have c: "is_digit c" and s: "terminated s" "\<forall>c \<in> set (cstr s). is_digit c"
      by auto
    note step = stosizet_step [OF c, of r]
    let ?n = "10 * unat r + (unat c - 48)"
    have ge: "?n \<le> digits_value (cstr s) ?n" by (rule digits_value_mono)
    show ?thesis
      using c False Cons.IH [OF s] step ge by (auto simp: is_digit_def Let_def not_less)
  qed (use unsigned_less [of r] in auto)
qed simp

section \<open>Checked conversions between integer types\<close>

text \<open>\<open>UINT_MAX\<close>, \<open>INT_MAX\<close> and \<open>INT_MIN\<close> of the target: \<open>int\<close> has 32 bits, \<open>long\<close> 64.\<close>

definition sizet_to_uint :: "size_t \<Rightarrow> bool option \<Rightarrow> 32 word \<times> bool option" where
  "sizet_to_uint s error_flag =
     (case error_flag of
        None \<Rightarrow> (0, None)
      | Some _ \<Rightarrow> if s > 4294967295 then (0, Some True) else (ucast s, Some False))"

definition ssizet_to_sizet :: "64 word \<Rightarrow> bool option \<Rightarrow> size_t \<times> bool option" where
  "ssizet_to_sizet input_value error_flag =
     (case error_flag of
        None \<Rightarrow> (0, None)
      | Some _ \<Rightarrow> if sint input_value < 0 then (0, Some True) else (input_value, Some False))"

definition long_to_int :: "64 word \<Rightarrow> bool option \<Rightarrow> 32 word \<times> bool option" where
  "long_to_int l error =
     (case error of
        None \<Rightarrow> (0, None)
      | Some _ \<Rightarrow>
          if sint l > 2147483647 then (0, Some True)
          else if sint l < - 2147483648 then (0, Some True)
          else (scast l, Some False))"

definition long_to_sizet :: "64 word \<Rightarrow> bool option \<Rightarrow> size_t \<times> bool option" where
  "long_to_sizet l error =
     (case error of
        None \<Rightarrow> (0, None)
      | Some _ \<Rightarrow>
          if sint l < 0 then (0, Some True)
          else if l > - 1 then (0, Some True)
          else (l, Some False))"

definition int_to_ul :: "32 word \<Rightarrow> bool option \<Rightarrow> ulong \<times> bool option" where
  "int_to_ul i error =
     (case error of
        None \<Rightarrow> (0, None)
      | Some _ \<Rightarrow> if sint i < 0 then (0, Some True) else (scast i, Some False))"

definition sizet_to_int :: "size_t \<Rightarrow> bool option \<Rightarrow> 32 word \<times> bool option" where
  "sizet_to_int s error =
     (case error of
        None \<Rightarrow> (0, None)
      | Some _ \<Rightarrow> if s > 2147483647 then (0, Some True) else (ucast s, Some False))"

section \<open>Comparing strings\<close>

text \<open>
  \<open>ustrncmp\<close> walks both pointers. The counter \<open>n\<close> is a number here: its wrap from 0 to
  SIZE_MAX in the last evaluation of \<open>n-- > 0\<close> is never read. When the counter runs out the code
  still reads and compares the bytes after the first \<open>n\<close>.
\<close>

fun ustrncmp_loop :: "cbuf \<Rightarrow> cbuf \<Rightarrow> nat \<Rightarrow> fault + int" where
  "ustrncmp_loop (a # s1) (b # s2) (Suc n) =
     (if a = b then (if a = 0 then Inr 0 else ustrncmp_loop s1 s2 n)
      else Inr (uint a - uint b))"
| "ustrncmp_loop (a # s1) (b # s2) 0 = Inr (uint a - uint b)"
| "ustrncmp_loop _ _ _ = Inl BufferOverrun"

definition ustrncmp :: "cbuf \<Rightarrow> cbuf \<Rightarrow> nat \<Rightarrow> fault + int" where
  "ustrncmp s1 s2 n = (if n = 0 then Inr 0 else ustrncmp_loop s1 s2 n)"

fun ustrcmp :: "cbuf \<Rightarrow> cbuf \<Rightarrow> fault + int" where
  "ustrcmp (a # s1) (b # s2) =
     (if a \<noteq> 0 \<and> a = b then ustrcmp s1 s2 else Inr (uint a - uint b))"
| "ustrcmp _ _ = Inl BufferOverrun"

lemma uint_byte_eq [simp]:
  "uint (a :: byte) = uint b \<longleftrightarrow> a = b" "uint a = 0 \<longleftrightarrow> a = 0"
  by (simp_all add: word_uint_eq_iff)

text \<open>
  The comparison decides equality of the strings when the first ends within the first \<open>n\<close> bytes of
  its buffer, which is how the table calls it.
\<close>

lemma ustrncmp_loop_terminated:
  assumes "terminated s1" and "terminated s2" and "length (cstr s1) < n"
  shows "\<exists>r. ustrncmp_loop s1 s2 n = Inr r \<and> (r = 0 \<longleftrightarrow> cstr s1 = cstr s2)"
  using assms
  by (induction s1 s2 n rule: ustrncmp_loop.induct) (auto split: if_splits)

lemma ustrncmp_terminated:
  assumes "terminated s1" and "terminated s2" and "length (cstr s1) < n"
  shows "\<exists>r. ustrncmp s1 s2 n = Inr r \<and> (r = 0 \<longleftrightarrow> cstr s1 = cstr s2)"
  using ustrncmp_loop_terminated [OF assms] assms(3) by (auto simp: ustrncmp_def)

lemma ustrcmp_terminated:
  assumes "terminated s1" and "terminated s2"
  shows "\<exists>r. ustrcmp s1 s2 = Inr r \<and> (r = 0 \<longleftrightarrow> cstr s1 = cstr s2)"
  using assms by (induction s1 s2 rule: ustrcmp.induct) (auto split: if_splits)

section \<open>Lengths and copies\<close>

fun ustrlen_walk :: "cbuf \<Rightarrow> size_t \<Rightarrow> fault + size_t" where
  "ustrlen_walk [] n = Inl BufferOverrun"
| "ustrlen_walk (b # s) n = (if b = 0 then Inr n else ustrlen_walk s (n + 1))"

definition ustrlen :: "cbuf option \<Rightarrow> fault + size_t" where
  "ustrlen str = (case str of None \<Rightarrow> Inr 0 | Some s \<Rightarrow> ustrlen_walk s 0)"

lemma ustrlen_walk_terminated:
  "terminated s \<Longrightarrow> ustrlen_walk s n = Inr (n + of_nat (length (cstr s)))"
  by (induction s arbitrary: n) (auto simp: algebra_simps)

lemma ustrlen_terminated:
  "terminated s \<Longrightarrow> ustrlen (Some s) = Inr (of_nat (length (cstr s)))"
  by (simp add: ustrlen_def ustrlen_walk_terminated)

definition is_key_valid :: "cbuf option \<Rightarrow> fault + bool" where
  "is_key_valid key =
     (case key of
        None \<Rightarrow> Inr False
      | Some k \<Rightarrow> (case k of [] \<Rightarrow> Inl BufferOverrun | c # _ \<Rightarrow> Inr (c \<noteq> 0)))"

lemma is_key_valid_terminated:
  "terminated k \<Longrightarrow> is_key_valid (Some k) = Inr (cstr k \<noteq> [])"
  by (cases k) (auto simp: is_key_valid_def)

text \<open>
  \<open>ustrncpy\<close> writes through an index; the loop returns the buffer and the index at which the
  terminator goes. \<open>m\<close> is what is left of the bound \<open>n - 1\<close>.
\<close>

fun ustrncpy_loop :: "cbuf \<Rightarrow> cbuf \<Rightarrow> nat \<Rightarrow> nat \<Rightarrow> fault + (cbuf \<times> nat)" where
  "ustrncpy_loop dest src i 0 = Inr (dest, i)"
| "ustrncpy_loop dest src i (Suc m) =
     (if length src \<le> i then Inl BufferOverrun
      else if src ! i = 0 then Inr (dest, i)
      else if length dest \<le> i then Inl BufferOverrun
      else ustrncpy_loop (dest[i := src ! i]) src (Suc i) m)"

definition ustrncpy :: "cbuf option \<Rightarrow> cbuf option \<Rightarrow> nat \<Rightarrow> fault + cbuf option" where
  "ustrncpy dest src n =
     (case dest of
        None \<Rightarrow> Inr dest
      | Some d \<Rightarrow>
          (case src of
             None \<Rightarrow> Inr dest
           | Some s \<Rightarrow>
               if n = 0 then Inr dest
               else bindE (ustrncpy_loop d s 0 (n - 1)) (\<lambda>(d', i).
                    if length d' \<le> i then Inl BufferOverrun else Inr (Some (d'[i := 0])))))"

lemma cstr_drop_step: "i < length s \<Longrightarrow> s ! i \<noteq> 0 \<Longrightarrow> cstr (drop i s) = s ! i # cstr (drop (Suc i) s)"
  by (subst Cons_nth_drop_Suc [symmetric]) auto

lemma terminated_drop_step: "i < length s \<Longrightarrow> s ! i \<noteq> 0 \<Longrightarrow> terminated (drop (Suc i) s) = terminated (drop i s)"
  by (subst (2) Cons_nth_drop_Suc [symmetric]) auto

lemma terminated_drop_less: "terminated (drop i s) \<Longrightarrow> i < length s"
  by (cases "i < length s") auto

lemma ustrncpy_loop_spec:
  assumes "terminated (drop i s)" and "i + m < length d"
    and "k = min m (length (cstr (drop i s)))"
  shows "ustrncpy_loop d s i m = Inr (take i d @ take k (cstr (drop i s)) @ drop (i + k) d, i + k)"
  using assms
proof (induction m arbitrary: d i k)
  case (Suc m)
  note lt = terminated_drop_less [OF Suc.prems(1)]
  show ?case
  proof (cases "s ! i = 0")
    case True
    with lt have "cstr (drop i s) = []" by (subst Cons_nth_drop_Suc [symmetric]) auto
    with True lt Suc.prems show ?thesis by simp
  next
    case False
    define k' where "k' = min m (length (cstr (drop (Suc i) s)))"
    have k: "k = Suc k'" using False lt Suc.prems(3) by (simp add: k'_def cstr_drop_step)
    have "ustrncpy_loop (d[i := s ! i]) s (Suc i) m =
        Inr (take (Suc i) (d[i := s ! i]) @ take k' (cstr (drop (Suc i) s)) @
             drop (Suc i + k') (d[i := s ! i]), Suc i + k')"
      using False lt Suc.prems(1,2) by (intro Suc.IH) (simp_all add: terminated_drop_step k'_def)
    with False lt k Suc.prems(2) show ?thesis
      by (simp add: cstr_drop_step take_Suc_conv_app_nth)
  qed
qed simp

text \<open>The buffer after a copy: the string cut to \<open>n - 1\<close> bytes, a terminator, the old tail.\<close>

lemma ustrncpy_spec:
  assumes "terminated s" and "0 < n" and "n \<le> length d"
    and k_def: "k = take (n - 1) (cstr s)"
  shows "ustrncpy (Some d) (Some s) n = Inr (Some (k @ 0 # drop (Suc (length k)) d))"
proof -
  have len: "length k < length d" using assms by auto
  have "ustrncpy_loop d s 0 (n - 1) = Inr (k @ drop (length k) d, length k)"
    using assms(1-3) ustrncpy_loop_spec [of 0 s "n - 1" d "length k"]
    by (auto simp: k_def min_def split: if_splits)
  with assms(2) len show ?thesis
    by (simp add: ustrncpy_def list_update_append Cons_nth_drop_Suc [symmetric])
qed

definition ustrdup :: "cbuf option \<Rightarrow> world \<Rightarrow> fault + (ptr \<times> world)" where
  "ustrdup src w =
     (case src of
        None \<Rightarrow> Inr (NULL, w)
      | Some s \<Rightarrow>
          bindE (ustrlen_walk s 0) (\<lambda>len.
          let (dest, w1) = malloc (len + 1) w in
          if dest = NULL then Inr (NULL, w1)
          else bindE (store dest (take (unat (len + 1)) s) w1) (\<lambda>w2. Inr (dest, w2))))"

fun strscpy_loop :: "cbuf \<Rightarrow> cbuf \<Rightarrow> nat \<Rightarrow> nat \<Rightarrow> fault + (cbuf \<times> nat option)" where
  "strscpy_loop d s i 0 = Inr (d, None)"
| "strscpy_loop d s i (Suc m) =
     (if length s \<le> i \<or> length d \<le> i then Inl BufferOverrun
      else if s ! i = 0 then Inr (d[i := s ! i], Some i)
      else strscpy_loop (d[i := s ! i]) s (Suc i) m)"

definition strscpy :: "cbuf \<Rightarrow> cbuf \<Rightarrow> nat \<Rightarrow> fault + (cbuf \<times> int)" where
  "strscpy d s n =
     bindE (strscpy_loop d s 0 n) (\<lambda>(d', r).
     case r of
       Some i \<Rightarrow> Inr (d', if 2 ^ 63 - 1 < i then - 1 else int i)
     | None \<Rightarrow> if n = 0 then Inr (d', 0) else Inr (d'[n - 1 := 0], - 1))"

section \<open>Properties\<close>

lemma stosizet_loop_bad_digit:
  assumes "terminated s" and "\<not> (\<forall>c \<in> set (cstr s). is_digit c)"
  shows "stosizet_loop s r = Inr 0"
  using assms
proof (induction s arbitrary: r)
  case (Cons c s)
  then have "c \<noteq> 0" "terminated s" by (auto split: if_splits)
  with Cons show ?case by (auto simp: is_digit_def Let_def not_less)
qed simp

text \<open>C30. \<open>stosizet\<close> reads a decimal number exactly: it returns the value of the string when every byte is a
  digit and the value fits \<open>size_t\<close>, and 0 otherwise; the overflow test in the loop loses no value that fits.\<close>

theorem stosizet_exact:
  assumes "terminated s"
  shows "stosizet (Some s) =
    Inr (if (\<forall>c \<in> set (cstr s). is_digit c) \<and> digits_value (cstr s) 0 < 2 ^ 64
         then of_nat (digits_value (cstr s) 0) else 0)"
proof -
  have "stosizet (Some s) = stosizet_loop s 0"
    using assms by (cases s) (auto simp: stosizet_def)
  then show ?thesis
    using stosizet_loop_digits [OF assms, of 0] stosizet_loop_bad_digit [OF assms, of 0]
    by (cases "\<forall>c \<in> set (cstr s). is_digit c") auto
qed

theorem stosizet_exact_witness:
  "stosizet (Some [49, 56, 52, 0]) = Inr 184"
  using stosizet_exact [of "[49, 56, 52, 0]"] by (simp add: is_digit_def)

text \<open>
  \<open>converts read lo hi n r\<close>: the result \<open>r\<close> of a conversion is the number \<open>n\<close>, read back from the target type,
  with the flag cleared, if the target type has it, that is if \<open>n\<close> is at least \<open>lo\<close> and below \<open>hi\<close>; and 0 with
  the flag set otherwise.
\<close>

definition converts :: "('a \<Rightarrow> int) \<Rightarrow> int \<Rightarrow> int \<Rightarrow> int \<Rightarrow> 'a \<times> bool option \<Rightarrow> bool" where
  "converts read lo hi n r \<longleftrightarrow>
     (if lo \<le> n \<and> n < hi then read (fst r) = n \<and> snd r = Some False else read (fst r) = 0 \<and> snd r = Some True)"

lemma sint_uint_pos:
  fixes w :: "'a :: len word"
  assumes "0 \<le> sint w"
  shows "uint w = sint w"
proof -
  have "sint w < 2 ^ (LENGTH('a) - 1)" using sint_lt [of w] .
  also have "\<dots> \<le> 2 ^ LENGTH('a)" by (rule power_increasing) simp_all
  finally show ?thesis using assms by (simp add: uint_sint take_bit_int_eq_self)
qed

text \<open>C33. The checked conversions keep the number: read as a number of its type, the result is the number that was
  given whenever the target type has that number, whatever the flag was, and then the flag is cleared; every
  other number gives 0 and sets the flag.\<close>

theorem conversions_exact:
  "converts uint 0 (2 ^ 32) (uint s) (sizet_to_uint s (Some f)) \<and>
   converts sint (- (2 ^ 31)) (2 ^ 31) (uint s) (sizet_to_int s (Some f)) \<and>
   converts sint (- (2 ^ 31)) (2 ^ 31) (sint l) (long_to_int l (Some f)) \<and>
   converts uint 0 (2 ^ 64) (sint l) (long_to_sizet l (Some f)) \<and>
   converts uint 0 (2 ^ 64) (sint l) (ssizet_to_sizet l (Some f)) \<and>
   converts uint 0 (2 ^ 64) (sint i) (int_to_ul i (Some f))"
proof (intro conjI)
  have l: "sint l < 2 ^ 64" "uint l = sint l" if "0 \<le> sint l" using sint_lt [of l] sint_uint_pos [OF that] by simp_all
  have i: "sint i < 2 ^ 64" using sint_lt [of i] by simp
  moreover have "uint (scast i :: ulong) = sint i" if "0 \<le> sint i"
  proof -
    have "uint (scast i :: ulong) = take_bit 64 (sint i)" by (simp only: scast_eq unsigned_of_int) simp
    also have "\<dots> = sint i" using that i by (simp only: take_bit_int_eq_self)
    finally show ?thesis .
  qed
  ultimately have i: "sint i < 2 ^ 64" "0 \<le> sint i \<Longrightarrow> uint (scast i :: ulong) = sint i" by blast+
  have all: "\<not> l > - 1" by (simp add: word_not_simps)
  show "converts uint 0 (2 ^ 32) (uint s) (sizet_to_uint s (Some f))"
    by (simp add: converts_def sizet_to_uint_def word_less_def unsigned_ucast_eq take_bit_int_eq_self)
  show "converts sint (- (2 ^ 31)) (2 ^ 31) (uint s) (sizet_to_int s (Some f))"
    using order_trans [of "- 2147483648" 0 "uint s"] by (simp add: converts_def sizet_to_int_def word_less_def signed_ucast_eq signed_take_bit_int_eq_self)
  show "converts sint (- (2 ^ 31)) (2 ^ 31) (sint l) (long_to_int l (Some f))"
    by (simp add: converts_def long_to_int_def signed_scast_eq signed_take_bit_int_eq_self)
  show "converts uint 0 (2 ^ 64) (sint l) (long_to_sizet l (Some f))"
    using l all by (simp add: converts_def long_to_sizet_def)
  show "converts uint 0 (2 ^ 64) (sint l) (ssizet_to_sizet l (Some f))"
    using l by (simp add: converts_def ssizet_to_sizet_def)
  show "converts uint 0 (2 ^ 64) (sint i) (int_to_ul i (Some f))"
    using i(1) i(2) by (simp add: converts_def int_to_ul_def)
qed

text \<open>C32. \<open>ustrncpy\<close> into a buffer of at least \<open>n > 0\<close> bytes never writes past it and leaves a terminated
  string: the source cut to \<open>n - 1\<close> bytes, with the bytes after the terminator as they were.\<close>

theorem ustrncpy_bounded:
  assumes "terminated s" and "0 < n" and "n \<le> length d"
  shows "\<exists>d'. ustrncpy (Some d) (Some s) n = Inr (Some d') \<and> length d' = length d \<and> terminated d' \<and>
    cstr d' = take (n - 1) (cstr s) \<and> drop n d' = drop n d"
proof -
  define k where "k = take (n - 1) (cstr s)"
  have k: "0 \<notin> set k" "length k < n" using assms(2) cstr_nonzero [of s] by (auto simp: k_def dest: in_set_takeD)
  have "ustrncpy (Some d) (Some s) n = Inr (Some (k @ 0 # drop (Suc (length k)) d))"
    using assms k_def by (rule ustrncpy_spec)
  moreover have "drop n (k @ 0 # drop (Suc (length k)) d) = drop n d"
  proof -
    obtain m where "n = Suc (length k + m)" using k(2) by (auto simp: less_iff_Suc_add)
    then show ?thesis by (simp add: ac_simps)
  qed
  ultimately show ?thesis using k assms(3) by (auto simp: k_def)
qed

theorem ustrncpy_bounded_witness:
  "\<exists>d'. ustrncpy (Some [1, 1, 1, 1]) (Some [97, 98, 99, 0]) 3 = Inr (Some d') \<and> terminated d' \<and>
     cstr d' = [97, 98] \<and> drop 3 d' = [1]"
  using ustrncpy_bounded [of "[97, 98, 99, 0]" 3 "[1, 1, 1, 1]"] by auto

text \<open>\<open>ustrncmp\<close> does not stop after \<open>n\<close> bytes: when the first \<open>n\<close> bytes are equal and hold no
  terminator, the result is the difference of the bytes that follow, where \<open>strncmp\<close> gives 0.\<close>

theorem ustrncmp_reads_on:
  assumes "take n s1 = take n s2" and "0 \<notin> set (take n s1)" and "0 < n"
    and "n < length s1" and "n < length s2"
  shows "ustrncmp s1 s2 n = Inr (uint (s1 ! n) - uint (s2 ! n))"
proof -
  have "ustrncmp_loop s1 s2 n = Inr (uint (s1 ! n) - uint (s2 ! n))"
    using assms(1,2,4,5)
    by (induction s1 s2 n rule: ustrncmp_loop.induct) auto
  with assms(3) show ?thesis by (simp add: ustrncmp_def)
qed

theorem ustrncmp_reads_on_witness:
  "ustrncmp [97, 98, 0] [97, 99, 0] 1 = Inr (- 1)"
  using ustrncmp_reads_on [of 1 "[97, 98, 0]" "[97, 99, 0]"] by simp

end
