(* ===== verification/Hashing.thy ===== *)
theory Hashing
  imports CString
begin

text \<open>
  src/src/hashing_functionality.c: the string hash. The running value is an \<open>unsigned long\<close> and
  wraps at 64 bits; the loop reads bytes until the terminator.
\<close>

fun hash_loop :: "cbuf \<Rightarrow> ulong \<Rightarrow> fault + ulong" where
  "hash_loop [] h = Inl BufferOverrun"
| "hash_loop (c # str) h =
     (if c = 0 then Inr h else hash_loop str ((push_bit 5 h + h) + ucast c))"

definition hash :: "cbuf \<Rightarrow> fault + ulong" where
  "hash str = hash_loop str 5381"

text \<open>The hash of a string, as a function of its bytes alone.\<close>

definition djb2 :: "byte list \<Rightarrow> ulong" where
  "djb2 k = foldl (\<lambda>h c. (push_bit 5 h + h) + ucast c) 5381 k"

lemma hash_loop_terminated:
  "terminated s \<Longrightarrow> hash_loop s h = Inr (foldl (\<lambda>h c. (push_bit 5 h + h) + ucast c) h (cstr s))"
  by (induction s h rule: hash_loop.induct) auto

lemma hash_terminated: "terminated s \<Longrightarrow> hash s = Inr (djb2 (cstr s))"
  by (simp add: hash_def djb2_def hash_loop_terminated)

lemma hash_loop_unterminated: "\<not> terminated s \<Longrightarrow> hash_loop s h = Inl BufferOverrun"
  by (induction s h rule: hash_loop.induct) auto

lemma hash_unterminated: "\<not> terminated s \<Longrightarrow> hash s = Inl BufferOverrun"
  by (simp add: hash_def hash_loop_unterminated)

text \<open>The closed form: a base-33 polynomial in the bytes, modulo 2 to the 64.\<close>

lemma hash_step: "(push_bit 5 h + h) + c = 33 * h + (c :: ulong)"
  by (simp add: push_bit_eq_mult)

fun poly33 :: "nat \<Rightarrow> byte list \<Rightarrow> nat" where
  "poly33 n [] = n"
| "poly33 n (c # cs) = poly33 (33 * n + unat c) cs"

lemma djb2_poly33: "foldl (\<lambda>h c. (push_bit 5 h + h) + ucast c) (of_nat n :: ulong) k = of_nat (poly33 n k)"
proof (induction k arbitrary: n)
  case (Cons c k)
  have "(push_bit 5 (of_nat n) + of_nat n) + ucast c = (of_nat (33 * n + unat c) :: ulong)"
    by (simp add: hash_step)
  then show ?case by (simp add: Cons.IH [symmetric])
qed simp

lemma unat_djb2: "unat (djb2 k) = poly33 5381 k mod 2 ^ 64"
proof -
  have "djb2 k = of_nat (poly33 5381 k)"
    using djb2_poly33 [of 5381 k] by (simp add: djb2_def)
  then show ?thesis by (simp add: unat_of_nat)
qed

section \<open>Properties\<close>

text \<open>\<open>hash\<close> reads exactly up to the terminator: on a terminated string it is the base-33 polynomial of
  the bytes with start value 5381, modulo \<open>2 ^ 64\<close>, and without a terminator it reads past the object.\<close>

theorem hash_polynomial:
  "hash s = (if terminated s then Inr (of_nat (poly33 5381 (cstr s))) else Inl BufferOverrun)"
proof -
  have "djb2 (cstr s) = of_nat (poly33 5381 (cstr s))"
    using djb2_poly33 [of 5381 "cstr s"] by (simp add: djb2_def)
  then show ?thesis by (simp add: hash_terminated hash_unterminated)
qed

end
