(* ===== verification/Rwlock.thy ===== *)
theory Rwlock
  imports Memory
begin

text \<open>
  The reader-writer locks of the table, one per bucket of the table as it was created
  (\<open>pthread_rwlock_t* locks\<close> in src/src/hashtable.h), and the loops of src/src/hashtable.c that
  take or release a range of them. The server runs every command on the event loop's thread, so a lock
  is held by the running operation or by nobody else that could release it: a request for a lock that is
  held in a conflicting way returns EDEADLK, as POSIX provides for the owner's own request.
  Unlocking a lock that is not held, and touching a lock outside the array, are faults.
\<close>

section \<open>One lock\<close>

datatype rwlock = Readers nat | Writer

abbreviation Unlocked :: rwlock where
  "Unlocked \<equiv> Readers 0"

definition EDEADLK :: int where "EDEADLK = 35"
definition EBUSY :: int where "EBUSY = 16"
definition ENOMEM :: int where "ENOMEM = 12"

fun wr_acquire :: "rwlock \<Rightarrow> int \<times> rwlock" where
  "wr_acquire (Readers n) = (if n = 0 then (0, Writer) else (EDEADLK, Readers n))"
| "wr_acquire Writer = (EDEADLK, Writer)"

fun rd_acquire :: "rwlock \<Rightarrow> int \<times> rwlock" where
  "rd_acquire (Readers n) = (0, Readers (Suc n))"
| "rd_acquire Writer = (EDEADLK, Writer)"

fun release :: "rwlock \<Rightarrow> fault + rwlock" where
  "release (Readers 0) = Inl UnlockNotHeld"
| "release (Readers (Suc n)) = Inr (Readers n)"
| "release Writer = Inr Unlocked"

section \<open>The lock array\<close>

definition acquire_at :: "(rwlock \<Rightarrow> int \<times> rwlock) \<Rightarrow> rwlock list \<Rightarrow> nat \<Rightarrow> fault + (int \<times> rwlock list)" where
  "acquire_at acq ls i =
     (if length ls \<le> i then Inl LockOverrun
      else (let (rc, l) = acq (ls ! i) in Inr (rc, ls[i := l])))"

definition pthread_rwlock_wrlock :: "rwlock list \<Rightarrow> nat \<Rightarrow> fault + (int \<times> rwlock list)" where
  "pthread_rwlock_wrlock = acquire_at wr_acquire"

definition pthread_rwlock_rdlock :: "rwlock list \<Rightarrow> nat \<Rightarrow> fault + (int \<times> rwlock list)" where
  "pthread_rwlock_rdlock = acquire_at rd_acquire"

definition pthread_rwlock_unlock :: "nat \<Rightarrow> rwlock list \<Rightarrow> fault + rwlock list" where
  "pthread_rwlock_unlock i ls =
     (if length ls \<le> i then Inl LockOverrun
      else bindE (release (ls ! i)) (\<lambda>l. Inr (ls[i := l])))"

text \<open>Initialising a lock asks the system for resources; destroying a held lock reports EBUSY.\<close>

definition pthread_rwlock_init :: "world \<Rightarrow> int \<times> rwlock \<times> world" where
  "pthread_rwlock_init w =
     (let (refused, w') = sys_request w in (if refused then ENOMEM else 0, Unlocked, w'))"

definition pthread_rwlock_destroy :: "rwlock list \<Rightarrow> nat \<Rightarrow> fault + int" where
  "pthread_rwlock_destroy ls i =
     (if length ls \<le> i then Inl LockOverrun else Inr (if ls ! i = Unlocked then 0 else EBUSY))"

section \<open>Taking and releasing ranges of locks\<close>

text \<open>
  \<open>lock_from\<close> is the acquiring loop: it stops at the first index whose lock call fails and returns
  that index. \<open>lock_all\<close> adds the code's roll-back, which releases the indices before it.
\<close>

fun lock_from :: "(rwlock \<Rightarrow> int \<times> rwlock) \<Rightarrow> nat list \<Rightarrow> rwlock list \<Rightarrow> fault + (nat option \<times> rwlock list)" where
  "lock_from acq [] ls = Inr (None, ls)"
| "lock_from acq (i # is) ls =
     bindE (acquire_at acq ls i) (\<lambda>(rc, ls').
     if rc \<noteq> 0 then Inr (Some i, ls') else lock_from acq is ls')"

definition unlock_all :: "nat \<Rightarrow> rwlock list \<Rightarrow> fault + rwlock list" where
  "unlock_all n ls = foreach pthread_rwlock_unlock [0..<n] ls"

definition lock_all :: "(rwlock \<Rightarrow> int \<times> rwlock) \<Rightarrow> nat \<Rightarrow> rwlock list \<Rightarrow> fault + (int \<times> rwlock list)" where
  "lock_all acq n ls =
     bindE (lock_from acq [0..<n] ls) (\<lambda>(failed, ls').
     case failed of
       None \<Rightarrow> Inr (0, ls')
     | Some i \<Rightarrow> bindE (unlock_all i ls') (\<lambda>ls''. Inr (- 1, ls'')))"

text \<open>A whole array of free locks: what every operation of the table starts from and returns to.\<close>

definition idle :: "nat \<Rightarrow> rwlock list" where
  "idle n = replicate n Unlocked"

lemma idle_simps [simp]: "length (idle n) = n" "i < n \<Longrightarrow> idle n ! i = Unlocked"
  by (simp_all add: idle_def)

section \<open>Undoing: a release restores what an acquisition changed\<close>

lemma unlock_all_restores:
  assumes "length ls' = length ls" and "n \<le> length ls"
    and "\<And>i. i < n \<Longrightarrow> release (ls' ! i) = Inr (ls ! i)"
    and "\<And>i. n \<le> i \<Longrightarrow> i < length ls \<Longrightarrow> ls' ! i = ls ! i"
  shows "unlock_all n ls' = Inr ls"
proof -
  have "\<exists>s. foreach pthread_rwlock_unlock [0..<n] ls' = Inr s \<and> s = take n ls @ drop n ls'"
  proof (rule foreach_upt_rule [where P = "\<lambda>k s. s = take k ls @ drop k ls'"])
    fix i s assume "i < n" and s: "s = take i ls @ drop i ls'"
    with assms have i: "i < length ls" "i < length ls'" by auto
    have "s ! i = ls' ! i" using i s by (simp add: nth_append)
    moreover have "s[i := ls ! i] = take (Suc i) ls @ drop (Suc i) ls'"
      using i s by (simp add: list_update_append take_Suc_conv_app_nth Cons_nth_drop_Suc [symmetric])
    ultimately show "\<exists>s'. pthread_rwlock_unlock i s = Inr s' \<and> s' = take (Suc i) ls @ drop (Suc i) ls'"
      using i s \<open>i < n\<close> assms(3) by (simp add: pthread_rwlock_unlock_def)
  qed simp
  moreover have "drop n ls' = drop n ls"
    using assms(1,4) by (intro nth_equalityI) simp_all
  ultimately show ?thesis by (simp add: unlock_all_def)
qed

text \<open>
  The contract of an acquisition, shared by read and write locks: it succeeds on a free lock, a failed
  one changes nothing, and a release undoes a successful one. The table's lock loops need no more.
\<close>

definition refused_at :: "nat \<Rightarrow> nat option \<Rightarrow> nat" where
  "refused_at n k = (case k of None \<Rightarrow> n | Some k \<Rightarrow> k)"

definition locked_range ::
    "(rwlock \<Rightarrow> int \<times> rwlock) \<Rightarrow> nat \<Rightarrow> nat \<Rightarrow> rwlock list \<Rightarrow> nat option \<Rightarrow> rwlock list \<Rightarrow> bool" where
  "locked_range acq i n ls k ls' \<longleftrightarrow>
     length ls' = length ls \<and>
     (k \<noteq> None \<longrightarrow> i \<le> refused_at n k \<and> refused_at n k < n \<and> fst (acq (ls ! refused_at n k)) \<noteq> 0) \<and>
     (\<forall>j. i \<le> j \<and> j < refused_at n k \<longrightarrow> fst (acq (ls ! j)) = 0 \<and> ls' ! j = snd (acq (ls ! j))) \<and>
     (\<forall>j. j < i \<or> refused_at n k \<le> j \<longrightarrow> ls' ! j = ls ! j)"

lemma refused_at_simps [simp]: "refused_at n None = n" "refused_at n (Some k) = k"
  by (simp_all add: refused_at_def)

lemma locked_range_extend:
  assumes r: "locked_range acq (Suc i) n (ls[i := snd (acq (ls ! i))]) k ls'"
    and "fst (acq (ls ! i)) = 0" and "i < n" and "n \<le> length ls"
  shows "locked_range acq i n ls k ls'"
proof -
  have *: "i < refused_at n k" using r \<open>i < n\<close> by (cases k) (auto simp: locked_range_def)
  have "fst (acq (ls ! j)) = 0 \<and> ls' ! j = snd (acq (ls ! j))" if "i \<le> j" "j < refused_at n k" for j
    using r that assms(2-4) by (cases "j = i") (auto simp: locked_range_def)
  with r * assms(2-4) show ?thesis by (auto simp: locked_range_def)
qed

locale lock_kind =
  fixes acq :: "rwlock \<Rightarrow> int \<times> rwlock"
  assumes acq_idle: "fst (acq Unlocked) = 0"
    and acq_fails: "fst (acq l) \<noteq> 0 \<Longrightarrow> snd (acq l) = l"
    and acq_release: "fst (acq l) = 0 \<Longrightarrow> release (snd (acq l)) = Inr l"
begin

lemma acquire_idle:
  "i < n \<Longrightarrow> acquire_at acq (idle n) i = Inr (0, (idle n)[i := snd (acq Unlocked)])"
  using acq_idle by (simp add: acquire_at_def case_prod_unfold)

lemma acquire_release:
  assumes "i < n"
  shows "pthread_rwlock_unlock i ((idle n)[i := snd (acq Unlocked)]) = Inr (idle n)"
proof -
  have "(idle n)[i := Unlocked] = idle n" using assms by (simp add: list_update_same_conv)
  then show ?thesis using assms acq_release [OF acq_idle] by (simp add: pthread_rwlock_unlock_def)
qed

lemma acquire_overrun: "length ls \<le> i \<Longrightarrow> acquire_at acq ls i = Inl LockOverrun"
  by (simp add: acquire_at_def)

text \<open>The acquiring loop, up to the first refusal.\<close>

lemma lock_from_spec:
  assumes "n \<le> length ls"
  shows "\<exists>k ls'. lock_from acq [i..<n] ls = Inr (k, ls') \<and> locked_range acq i n ls k ls'"
  using assms
proof (induction "n - i" arbitrary: i ls)
  case 0
  then show ?case by (auto simp: locked_range_def)
next
  case (Suc d)
  then have i: "i < n" "[i..<n] = i # [Suc i..<n]" by (simp_all add: upt_conv_Cons)
  let ?ls = "ls[i := snd (acq (ls ! i))]"
  show ?case
  proof (cases "fst (acq (ls ! i)) = 0")
    case False
    with i Suc.prems show ?thesis
      by (auto simp: acquire_at_def case_prod_unfold acq_fails locked_range_def)
  next
    case True
    have "\<exists>k ls'. lock_from acq [Suc i..<n] ?ls = Inr (k, ls') \<and> locked_range acq (Suc i) n ?ls k ls'"
      using Suc.hyps(2) Suc.prems by (intro Suc.hyps(1)) simp_all
    then obtain k ls' where IH: "lock_from acq [Suc i..<n] ?ls = Inr (k, ls')"
      "locked_range acq (Suc i) n ?ls k ls'" by blast
    have "lock_from acq [i..<n] ls = Inr (k, ls')"
      using True i Suc.prems IH(1) by (simp add: acquire_at_def case_prod_unfold)
    moreover have "locked_range acq i n ls k ls'"
      using IH(2) True i(1) Suc.prems by (rule locked_range_extend)
    ultimately show ?thesis by blast
  qed
qed

lemma lock_all_idle:
  assumes "m \<le> n"
  obtains ls' where "lock_all acq m (idle n) = Inr (0, ls')" and "length ls' = n"
    and "unlock_all m ls' = Inr (idle n)"
proof -
  obtain k ls' where k: "lock_from acq [0..<m] (idle n) = Inr (k, ls')"
    "locked_range acq 0 m (idle n) k ls'"
    using lock_from_spec [of m "idle n" 0] assms by auto
  have None: "k = None" using k(2) assms acq_idle by (cases k) (auto simp: locked_range_def)
  have "unlock_all m ls' = Inr (idle n)"
    using k(2) None assms acq_release [OF acq_idle]
    by (intro unlock_all_restores) (auto simp: locked_range_def)
  with k None show thesis by (intro that) (simp_all add: lock_all_def locked_range_def)
qed

text \<open>A refused range leaves the array as it was: the roll-back releases exactly what was taken.\<close>

lemma lock_all_refused:
  assumes "n \<le> length ls" and "lock_all acq n ls = Inr (rc, ls')" and "rc \<noteq> 0"
  shows "ls' = ls \<and> rc = - 1"
proof -
  obtain k ls1 where k: "lock_from acq [0..<n] ls = Inr (k, ls1)" "locked_range acq 0 n ls k ls1"
    using lock_from_spec [of n ls 0] assms(1) by auto
  from k(1) assms(2,3) obtain i where i: "k = Some i" by (cases k) (auto simp: lock_all_def)
  then have "unlock_all i ls1 = Inr ls"
    using k(2) assms(1) by (intro unlock_all_restores) (auto simp: locked_range_def acq_release)
  with i k(1) assms(2) show ?thesis by (simp add: lock_all_def)
qed

lemma lock_all_held:
  assumes "n \<le> length ls" and "i < n" and "fst (acq (ls ! i)) \<noteq> 0"
  shows "lock_all acq n ls = Inr (- 1, ls)"
proof -
  obtain k ls1 where k: "lock_from acq [0..<n] ls = Inr (k, ls1)" "locked_range acq 0 n ls k ls1"
    using lock_from_spec [of n ls 0] assms(1) by auto
  with assms(2,3) obtain j where j: "k = Some j" by (cases k) (auto simp: locked_range_def)
  then have "unlock_all j ls1 = Inr ls"
    using k(2) assms(1) by (intro unlock_all_restores) (auto simp: locked_range_def acq_release)
  with j k(1) show ?thesis by (simp add: lock_all_def)
qed

text \<open>Asking for more locks than the array holds runs off its end.\<close>

lemma lock_from_overrun:
  assumes "length ls < n" and "\<forall>l \<in> set ls. l = Unlocked" and "i \<le> length ls"
    and "length ls' = i"
  shows "lock_from acq [i..<n] (ls' @ drop i ls) = Inl LockOverrun"
  using assms
proof (induction "n - i" arbitrary: i ls')
  case (Suc d)
  then have i: "[i..<n] = i # [Suc i..<n]" by (simp add: upt_conv_Cons)
  show ?case
  proof (cases "i = length ls")
    case True
    with Suc.prems i show ?thesis by (simp add: acquire_at_def)
  next
    case False
    with Suc.prems have lt: "i < length ls" "ls ! i = Unlocked" by auto
    let ?l = "snd (acq Unlocked)"
    have s: "(ls' @ drop i ls) ! i = Unlocked" "i < length (ls' @ drop i ls)"
      "(ls' @ drop i ls)[i := ?l] = (ls' @ [?l]) @ drop (Suc i) ls"
      using lt Suc.prems by (simp_all add: nth_append list_update_append Cons_nth_drop_Suc [symmetric])
    have "lock_from acq [Suc i..<n] ((ls' @ [?l]) @ drop (Suc i) ls) = Inl LockOverrun"
      using Suc lt by (intro Suc.hyps(1)) auto
    with i s acq_idle show ?thesis
      by (simp add: acquire_at_def case_prod_unfold del: append_assoc length_append)
  qed
qed simp

lemma lock_all_overrun:
  assumes "n < m"
  shows "lock_all acq m (idle n) = Inl LockOverrun"
proof -
  have "lock_from acq [0..<m] ([] @ drop 0 (idle n)) = Inl LockOverrun"
    using assms by (intro lock_from_overrun) (simp_all add: idle_def)
  then show ?thesis by (simp add: lock_all_def)
qed

end

interpretation wr: lock_kind wr_acquire
proof
  fix l
  show "fst (wr_acquire l) \<noteq> 0 \<Longrightarrow> snd (wr_acquire l) = l"
    by (cases l) (simp_all split: if_splits)
  show "fst (wr_acquire l) = 0 \<Longrightarrow> release (snd (wr_acquire l)) = Inr l"
    by (cases l) (simp_all add: EDEADLK_def split: if_splits)
qed simp

interpretation rd: lock_kind rd_acquire
proof
  fix l
  show "fst (rd_acquire l) \<noteq> 0 \<Longrightarrow> snd (rd_acquire l) = l"
    by (cases l) (simp_all split: if_splits)
  show "fst (rd_acquire l) = 0 \<Longrightarrow> release (snd (rd_acquire l)) = Inr l"
    by (cases l) (simp_all add: EDEADLK_def split: if_splits)
qed simp

end
