(* ===== verification/Hashtable.thy ===== *)
theory Hashtable
  imports Bitwise Hashing Rwlock
begin

text \<open>
  The hash table of src/src/hashtable.c: its data, and every operation as the code has it. A table is
  an array of buckets of eight slots; a slot is spread over four parallel arrays (use flag, hash, key
  row of KEY_MAX_LEN bytes, value pointer). Operations take the table pointer as an option (None is
  NULL) and return the result code, the table and the world after the call.

  The value callbacks are parameters, as in the code: \<open>value_destroyer\<close> frees a value, \<open>value_sizer\<close>
  reads the size of the block a value occupies.
\<close>

section \<open>Data\<close>

definition BUCKET_CAPACITY :: nat where [simp]: "BUCKET_CAPACITY = 8"
definition KEY_MAX_LEN :: nat where [simp]: "KEY_MAX_LEN = 255"

record bucket =
  in_use :: "byte list"
  hashes :: "ulong list"
  keys :: "cbuf list"
  slot_values :: "ptr list"

record hashtable =
  table_ptr :: ptr
  buckets_ptr :: ptr
  buckets :: "bucket list"
  buckets_count :: size_t
  elem_count :: size_t
  locks_ptr :: ptr
  locks :: "rwlock list"
  lock_count :: size_t

type_synonym destroyer = "ptr \<Rightarrow> world \<Rightarrow> fault + world"
type_synonym sizer = "ptr \<Rightarrow> world \<Rightarrow> fault + size_t"

text \<open>Sizes of the structs on the target: 2176 bytes of arrays in a bucket, already a multiple of 64.\<close>

definition sizeof_hashtable :: nat where "sizeof_hashtable = 40"
definition sizeof_bucket :: nat where "sizeof_bucket = 2176"
definition sizeof_rwlock :: nat where "sizeof_rwlock = 56"

text \<open>A bucket as \<open>calloc\<close> returns it.\<close>

definition zero_bucket :: bucket where
  "zero_bucket =
     \<lparr>in_use = replicate BUCKET_CAPACITY 0, hashes = replicate BUCKET_CAPACITY 0,
      keys = replicate BUCKET_CAPACITY (replicate KEY_MAX_LEN 0),
      slot_values = replicate BUCKET_CAPACITY NULL\<rparr>"

definition slots :: "nat list" where
  "slots = [0..<BUCKET_CAPACITY]"

definition nth_bucket :: "bucket list \<Rightarrow> nat \<Rightarrow> fault + bucket" where
  "nth_bucket bs i = (if length bs \<le> i then Inl BucketOverrun else Inr (bs ! i))"

definition bucket_index :: "size_t \<Rightarrow> ulong \<Rightarrow> nat" where
  "bucket_index nb hash_full = unat (hash_full AND (nb - 1))"

text \<open>The requested capacity, adjusted under ENABLE_ONLY_POWER_2_SIZE.\<close>

definition adjust_capacity :: "size_t \<Rightarrow> size_t" where
  "adjust_capacity capacity =
     (if capacity AND (capacity - 1) \<noteq> 0 then next_power_of_2 capacity else capacity)"

section \<open>Lifecycle\<close>

fun init_locks :: "nat \<Rightarrow> rwlock list \<Rightarrow> world \<Rightarrow> int \<times> rwlock list \<times> world" where
  "init_locks 0 ls w = (0, ls, w)"
| "init_locks (Suc n) ls w =
     (let (rc, l, w') = pthread_rwlock_init w in
      if rc \<noteq> 0 then (rc, ls, w') else init_locks n (ls @ [l]) w')"

definition destroy_ignoring :: "rwlock list \<Rightarrow> fault + unit" where
  "destroy_ignoring ls =
     foreach (\<lambda>j _. bindE (pthread_rwlock_destroy ls j) (\<lambda>_. Inr ())) [0..<length ls] ()"

definition table_create :: "size_t \<Rightarrow> world \<Rightarrow> fault + (hashtable option \<times> world)" where
  "table_create initial_capacity w =
     (if initial_capacity = 0 then Inr (None, w)
      else
        let (p, w1) = alloc_struct sizeof_hashtable w in
        if p = NULL then Inr (None, w1)
        else
          let cap = adjust_capacity initial_capacity;
              (bp, w2) = alloc_struct (unat cap * sizeof_bucket) w1 in
          if bp = NULL then bindE (free p w2) (\<lambda>w3. Inr (None, w3))
          else
            let (lp, w3) = alloc_struct (unat (cap * of_nat sizeof_rwlock)) w2 in
            if lp = NULL
            then bindE (free bp w3) (\<lambda>w4. bindE (free p w4) (\<lambda>w5. Inr (None, w5)))
            else
              let (rc, ls, w4) = init_locks (unat cap) [] w3 in
              if rc \<noteq> 0
              then bindE (destroy_ignoring ls) (\<lambda>_.
                   bindE (free lp w4) (\<lambda>w5.
                   bindE (free bp w5) (\<lambda>w6.
                   bindE (free p w6) (\<lambda>w7. Inr (None, w7)))))
              else
                Inr (Some \<lparr>table_ptr = p, buckets_ptr = bp,
                           buckets = replicate (unat cap) zero_bucket, buckets_count = cap,
                           elem_count = 0, locks_ptr = lp, locks = ls, lock_count = cap\<rparr>, w4))"

fun destroy_locks :: "rwlock list \<Rightarrow> nat list \<Rightarrow> fault + int" where
  "destroy_locks ls [] = Inr 0"
| "destroy_locks ls (i # is) =
     bindE (pthread_rwlock_destroy ls i) (\<lambda>rc. if rc \<noteq> 0 then Inr (- 1) else destroy_locks ls is)"

definition destroy_slot :: "destroyer \<Rightarrow> bucket \<Rightarrow> nat \<Rightarrow> world \<Rightarrow> fault + world" where
  "destroy_slot f b j w = (if in_use b ! j \<noteq> 0 then f (slot_values b ! j) w else Inr w)"

definition table_destroy :: "hashtable option \<Rightarrow> destroyer option \<Rightarrow> world \<Rightarrow> fault + (int \<times> world)" where
  "table_destroy table value_destroyer w =
     (case table of
        None \<Rightarrow> Inr (0, w)
      | Some t \<Rightarrow>
          bindE (case value_destroyer of
                   None \<Rightarrow> Inr w
                 | Some f \<Rightarrow>
                     foreach (\<lambda>i w. bindE (nth_bucket (buckets t) i) (\<lambda>b.
                        foreach (destroy_slot f b) slots w)) [0..<unat (buckets_count t)] w) (\<lambda>w1.
          bindE (destroy_locks (locks t) [0..<unat (lock_count t)]) (\<lambda>rc.
          if rc \<noteq> 0 then Inr (- 1, w1)
          else
            bindE (free (locks_ptr t) w1) (\<lambda>w2.
            bindE (free (buckets_ptr t) w2) (\<lambda>w3.
            bindE (free (table_ptr t) w3) (\<lambda>w4. Inr (0, w4)))))))"

text \<open>Clearing: one slot, one bucket, the table under all its write locks.\<close>

definition clear_slot :: "destroyer option \<Rightarrow> nat \<Rightarrow> bucket \<times> world \<Rightarrow> fault + (bucket \<times> world)" where
  "clear_slot value_destroyer j = (\<lambda>(b, w).
     if in_use b ! j \<noteq> 0
     then bindE (case value_destroyer of None \<Rightarrow> Inr w | Some f \<Rightarrow> f (slot_values b ! j) w) (\<lambda>w'.
          Inr (b\<lparr>in_use := (in_use b)[j := 0], hashes := (hashes b)[j := 0],
                 slot_values := (slot_values b)[j := NULL]\<rparr>, w'))
     else Inr (b, w))"

definition clear_bucket ::
    "destroyer option \<Rightarrow> nat \<Rightarrow> bucket list \<times> world \<Rightarrow> fault + (bucket list \<times> world)" where
  "clear_bucket value_destroyer i = (\<lambda>(bs, w).
     bindE (nth_bucket bs i) (\<lambda>b.
     bindE (foreach (clear_slot value_destroyer) slots (b, w)) (\<lambda>(b', w').
     Inr (bs[i := b'], w'))))"

definition table_clear ::
    "hashtable option \<Rightarrow> destroyer option \<Rightarrow> world \<Rightarrow> fault + (int \<times> hashtable option \<times> world)" where
  "table_clear table value_destroyer w =
     (case table of
        None \<Rightarrow> Inr (- 1, table, w)
      | Some t \<Rightarrow>
          bindE (lock_all wr_acquire (unat (lock_count t)) (locks t)) (\<lambda>(rc, ls).
          if rc \<noteq> 0 then Inr (- 1, Some (t\<lparr>locks := ls\<rparr>), w)
          else
            bindE (foreach (clear_bucket value_destroyer) [0..<unat (buckets_count t)] (buckets t, w))
              (\<lambda>(bs, w').
            bindE (unlock_all (unat (lock_count t)) ls) (\<lambda>ls'.
            Inr (0, Some (t\<lparr>buckets := bs, elem_count := 0, locks := ls'\<rparr>), w')))))"

text \<open>
  Resizing. \<open>place_entry\<close> is the inner search for a free slot of the destination bucket; the result is
  None where the code reports that the bucket is full. \<open>rehash_buckets\<close> is the double loop over the
  old slots.
\<close>

fun place_entry :: "bucket \<Rightarrow> ulong \<Rightarrow> cbuf \<Rightarrow> ptr \<Rightarrow> nat list \<Rightarrow> bucket option" where
  "place_entry b h row v [] = None"
| "place_entry b h row v (k # ks) =
     (if in_use b ! k = 0
      then Some (b\<lparr>in_use := (in_use b)[k := 1], hashes := (hashes b)[k := h],
                   slot_values := (slot_values b)[k := v], keys := (keys b)[k := row]\<rparr>)
      else place_entry b h row v ks)"

fun rehash_slots :: "bucket \<Rightarrow> size_t \<Rightarrow> nat list \<Rightarrow> bucket list \<Rightarrow> fault + bucket list option" where
  "rehash_slots b new_capacity [] nb = Inr (Some nb)"
| "rehash_slots b new_capacity (j # js) nb =
     (if in_use b ! j \<noteq> 0
      then if new_capacity = 0 then Inl DivByZero
      else
        let h = hashes b ! j; idx = unat (h mod new_capacity) in
        bindE (nth_bucket nb idx) (\<lambda>d.
        case place_entry d h (keys b ! j) (slot_values b ! j) slots of
          None \<Rightarrow> Inr None
        | Some d' \<Rightarrow> rehash_slots b new_capacity js (nb[idx := d']))
      else rehash_slots b new_capacity js nb)"

fun rehash_buckets ::
    "bucket list \<Rightarrow> size_t \<Rightarrow> nat list \<Rightarrow> bucket list \<Rightarrow> fault + bucket list option" where
  "rehash_buckets bs new_capacity [] nb = Inr (Some nb)"
| "rehash_buckets bs new_capacity (i # is) nb =
     bindE (nth_bucket bs i) (\<lambda>b.
     bindE (rehash_slots b new_capacity slots nb) (\<lambda>r.
     case r of None \<Rightarrow> Inr None | Some nb' \<Rightarrow> rehash_buckets bs new_capacity is nb'))"

definition table_resize ::
    "hashtable option \<Rightarrow> size_t \<Rightarrow> world \<Rightarrow> fault + (int \<times> hashtable option \<times> world)" where
  "table_resize table requested w =
     (case table of
        None \<Rightarrow> Inr (- 1, table, w)
      | Some t \<Rightarrow>
          if requested = 0 then Inr (- 1, table, w)
          else let new_capacity = adjust_capacity requested in
          if new_capacity = buckets_count t then Inr (0, table, w)
          else
            bindE (lock_all wr_acquire (unat (lock_count t)) (locks t)) (\<lambda>(rc, ls).
            if rc \<noteq> 0 then Inr (- 1, Some (t\<lparr>locks := ls\<rparr>), w)
            else if new_capacity < elem_count t
            then bindE (unlock_all (unat (lock_count t)) ls) (\<lambda>ls'.
                 Inr (- 1, Some (t\<lparr>locks := ls'\<rparr>), w))
            else
              let (np, w1) = alloc_struct (unat new_capacity * sizeof_bucket) w in
              if np = NULL
              then bindE (unlock_all (unat (lock_count t)) ls) (\<lambda>ls'.
                   Inr (- 1, Some (t\<lparr>locks := ls'\<rparr>), w1))
              else
                bindE (rehash_buckets (buckets t) new_capacity [0..<unat (buckets_count t)]
                         (replicate (unat new_capacity) zero_bucket)) (\<lambda>r.
                case r of
                  None \<Rightarrow>
                    bindE (free np w1) (\<lambda>w2.
                    bindE (unlock_all (unat (lock_count t)) ls) (\<lambda>ls'.
                    Inr (- 1, Some (t\<lparr>locks := ls'\<rparr>), w2)))
                | Some nb \<Rightarrow>
                    bindE (free (buckets_ptr t) w1) (\<lambda>w2.
                    bindE (unlock_all (unat (lock_count t)) ls) (\<lambda>ls'.
                    Inr (0, Some (t\<lparr>buckets_ptr := np, buckets := nb, buckets_count := new_capacity,
                                   locks := ls'\<rparr>), w2))))))"

section \<open>Core operations\<close>

text \<open>The test of a slot against a key: use flag, stored hash, then the bytes of the key row.\<close>

definition slot_matches :: "bucket \<Rightarrow> ulong \<Rightarrow> cbuf \<Rightarrow> nat \<Rightarrow> fault + bool" where
  "slot_matches b hash_full key i =
     (if in_use b ! i = 0 then Inr False
      else if hashes b ! i \<noteq> hash_full then Inr False
      else bindE (ustrncmp (keys b ! i) key KEY_MAX_LEN) (\<lambda>r. Inr (r = 0)))"

text \<open>The search loop of get, delete, exist and replace: the first matching slot.\<close>

fun find_slot :: "bucket \<Rightarrow> ulong \<Rightarrow> cbuf \<Rightarrow> nat list \<Rightarrow> fault + nat option" where
  "find_slot b hash_full key [] = Inr None"
| "find_slot b hash_full key (i # is) =
     bindE (slot_matches b hash_full key i) (\<lambda>m.
     if m then Inr (Some i) else find_slot b hash_full key is)"

text \<open>
  The search loop of set and add: the matching slot, or the first unused one seen on the way
  (\<open>first_empty_slot\<close>, None for -1).
\<close>

fun scan_slots ::
    "bucket \<Rightarrow> ulong \<Rightarrow> cbuf \<Rightarrow> nat list \<Rightarrow> nat option \<Rightarrow> fault + (nat option \<times> nat option)" where
  "scan_slots b hash_full key [] first_empty = Inr (None, first_empty)"
| "scan_slots b hash_full key (i # is) first_empty =
     bindE (slot_matches b hash_full key i) (\<lambda>m.
     if m then Inr (Some i, first_empty)
     else scan_slots b hash_full key is
            (if in_use b ! i = 0 \<and> first_empty = None then Some i else first_empty))"

definition call_destroyer :: "destroyer option \<Rightarrow> ptr \<Rightarrow> world \<Rightarrow> fault + world" where
  "call_destroyer value_destroyer v w =
     (case value_destroyer of None \<Rightarrow> Inr w | Some f \<Rightarrow> if v = NULL then Inr w else f v w)"

definition table_set ::
    "hashtable option \<Rightarrow> cbuf option \<Rightarrow> ptr \<Rightarrow> destroyer option \<Rightarrow> world \<Rightarrow>
     fault + (int \<times> hashtable option \<times> world)" where
  "table_set table key value value_destroyer w =
     (case table of None \<Rightarrow> Inr (- 1, table, w) | Some t \<Rightarrow>
     (case key of None \<Rightarrow> Inr (- 1, table, w) | Some k \<Rightarrow>
        bindE (ustrlen key) (\<lambda>len.
        if of_nat KEY_MAX_LEN \<le> len then Inr (- 3, table, w)
        else
          bindE (hash k) (\<lambda>hash_full.
          let i = bucket_index (buckets_count t) hash_full in
          bindE (pthread_rwlock_wrlock (locks t) i) (\<lambda>(rc, ls).
          if rc \<noteq> 0 then Inr (- 1, Some (t\<lparr>locks := ls\<rparr>), w)
          else
            bindE (nth_bucket (buckets t) i) (\<lambda>b.
            bindE (scan_slots b hash_full k slots None) (\<lambda>(found, first_empty).
            case found of
              Some j \<Rightarrow>
                bindE (call_destroyer value_destroyer (slot_values b ! j) w) (\<lambda>w'.
                bindE (pthread_rwlock_unlock i ls) (\<lambda>ls'.
                Inr (0, Some (t\<lparr>buckets := (buckets t)[i :=
                                 b\<lparr>slot_values := (slot_values b)[j := value]\<rparr>],
                                 locks := ls'\<rparr>), w')))
            | None \<Rightarrow>
                (case first_empty of
                   Some j \<Rightarrow>
                     bindE (ustrncpy (Some (keys b ! j)) key KEY_MAX_LEN) (\<lambda>row.
                     bindE (pthread_rwlock_unlock i ls) (\<lambda>ls'.
                     Inr (0, Some (t\<lparr>buckets := (buckets t)[i :=
                                      b\<lparr>in_use := (in_use b)[j := 1],
                                        hashes := (hashes b)[j := hash_full],
                                        slot_values := (slot_values b)[j := value],
                                        keys := (keys b)[j := the row]\<rparr>],
                                      elem_count := elem_count t + 1,
                                      locks := ls'\<rparr>), w)))
                 | None \<Rightarrow>
                     bindE (pthread_rwlock_unlock i ls) (\<lambda>ls'.
                     Inr (- 2, Some (t\<lparr>locks := ls'\<rparr>), w))))))))))"

definition table_get ::
    "hashtable option \<Rightarrow> cbuf option \<Rightarrow> sizer option \<Rightarrow> world \<Rightarrow>
     fault + (ptr \<times> hashtable option \<times> world)" where
  "table_get table key value_sizer w =
     (case table of None \<Rightarrow> Inr (NULL, table, w) | Some t \<Rightarrow>
     (case key of None \<Rightarrow> Inr (NULL, table, w) | Some k \<Rightarrow>
     (case value_sizer of None \<Rightarrow> Inr (NULL, table, w) | Some sizer \<Rightarrow>
        bindE (hash k) (\<lambda>hash_full.
        let i = bucket_index (buckets_count t) hash_full in
        bindE (pthread_rwlock_rdlock (locks t) i) (\<lambda>(rc, ls).
        if rc \<noteq> 0 then Inr (NULL, Some (t\<lparr>locks := ls\<rparr>), w)
        else
          bindE (nth_bucket (buckets t) i) (\<lambda>b.
          bindE (find_slot b hash_full k slots) (\<lambda>found.
          let internal_value = (case found of None \<Rightarrow> NULL | Some j \<Rightarrow> slot_values b ! j) in
          if internal_value = NULL
          then bindE (pthread_rwlock_unlock i ls) (\<lambda>ls'. Inr (NULL, Some (t\<lparr>locks := ls'\<rparr>), w))
          else
            bindE (sizer internal_value w) (\<lambda>total_size.
            if total_size = 0
            then bindE (pthread_rwlock_unlock i ls) (\<lambda>ls'. Inr (NULL, Some (t\<lparr>locks := ls'\<rparr>), w))
            else
              bindE (memdup internal_value total_size w) (\<lambda>(value_copy, w').
              bindE (pthread_rwlock_unlock i ls) (\<lambda>ls'.
              Inr (value_copy, Some (t\<lparr>locks := ls'\<rparr>), w')))))))))))"

definition table_delete ::
    "hashtable option \<Rightarrow> cbuf option \<Rightarrow> destroyer option \<Rightarrow> world \<Rightarrow>
     fault + (int \<times> hashtable option \<times> world)" where
  "table_delete table key value_destroyer w =
     (case table of None \<Rightarrow> Inr (- 3, table, w) | Some t \<Rightarrow>
     (case key of None \<Rightarrow> Inr (- 3, table, w) | Some k \<Rightarrow>
        bindE (hash k) (\<lambda>hash_full.
        let i = bucket_index (buckets_count t) hash_full in
        bindE (pthread_rwlock_wrlock (locks t) i) (\<lambda>(rc, ls).
        if rc \<noteq> 0 then Inr (- 2, Some (t\<lparr>locks := ls\<rparr>), w)
        else
          bindE (nth_bucket (buckets t) i) (\<lambda>b.
          bindE (find_slot b hash_full k slots) (\<lambda>found.
          case found of
            Some j \<Rightarrow>
              bindE (call_destroyer value_destroyer (slot_values b ! j) w) (\<lambda>w'.
              bindE (pthread_rwlock_unlock i ls) (\<lambda>ls'.
              Inr (0, Some (t\<lparr>buckets := (buckets t)[i :=
                               b\<lparr>in_use := (in_use b)[j := 0],
                                 slot_values := (slot_values b)[j := NULL],
                                 hashes := (hashes b)[j := 0]\<rparr>],
                               elem_count := elem_count t - 1,
                               locks := ls'\<rparr>), w')))
          | None \<Rightarrow>
              bindE (pthread_rwlock_unlock i ls) (\<lambda>ls'.
              Inr (- 1, Some (t\<lparr>locks := ls'\<rparr>), w))))))))"

definition table_exist ::
    "hashtable option \<Rightarrow> cbuf option \<Rightarrow> fault + (bool \<times> hashtable option)" where
  "table_exist table key =
     (case table of None \<Rightarrow> Inr (False, table) | Some t \<Rightarrow>
     (case key of None \<Rightarrow> Inr (False, table) | Some k \<Rightarrow>
        bindE (hash k) (\<lambda>hash_full.
        let i = bucket_index (buckets_count t) hash_full in
        bindE (pthread_rwlock_rdlock (locks t) i) (\<lambda>(rc, ls).
        if rc \<noteq> 0 then Inr (False, Some (t\<lparr>locks := ls\<rparr>))
        else
          bindE (nth_bucket (buckets t) i) (\<lambda>b.
          bindE (find_slot b hash_full k slots) (\<lambda>found.
          bindE (pthread_rwlock_unlock i ls) (\<lambda>ls'.
          Inr (found \<noteq> None, Some (t\<lparr>locks := ls'\<rparr>)))))))))"

definition table_add ::
    "hashtable option \<Rightarrow> cbuf option \<Rightarrow> ptr \<Rightarrow> fault + (int \<times> hashtable option)" where
  "table_add table key value =
     (case table of None \<Rightarrow> Inr (- 1, table) | Some t \<Rightarrow>
     (case key of None \<Rightarrow> Inr (- 1, table) | Some k \<Rightarrow>
        bindE (hash k) (\<lambda>hash_full.
        let i = bucket_index (buckets_count t) hash_full in
        bindE (pthread_rwlock_wrlock (locks t) i) (\<lambda>(rc, ls).
        if rc \<noteq> 0 then Inr (- 1, Some (t\<lparr>locks := ls\<rparr>))
        else
          bindE (nth_bucket (buckets t) i) (\<lambda>b.
          bindE (scan_slots b hash_full k slots None) (\<lambda>(found, first_empty).
          case found of
            Some j \<Rightarrow>
              bindE (pthread_rwlock_unlock i ls) (\<lambda>ls'. Inr (- 3, Some (t\<lparr>locks := ls'\<rparr>)))
          | None \<Rightarrow>
              (case first_empty of
                 Some j \<Rightarrow>
                   bindE (ustrncpy (Some (keys b ! j)) key KEY_MAX_LEN) (\<lambda>row.
                   bindE (pthread_rwlock_unlock i ls) (\<lambda>ls'.
                   Inr (0, Some (t\<lparr>buckets := (buckets t)[i :=
                                    b\<lparr>in_use := (in_use b)[j := 1],
                                      hashes := (hashes b)[j := hash_full],
                                      keys := (keys b)[j := the row],
                                      slot_values := (slot_values b)[j := value]\<rparr>],
                                    elem_count := elem_count t + 1,
                                    locks := ls'\<rparr>))))
               | None \<Rightarrow>
                   bindE (pthread_rwlock_unlock i ls) (\<lambda>ls'.
                   Inr (- 2, Some (t\<lparr>locks := ls'\<rparr>))))))))))"

definition table_replace ::
    "hashtable option \<Rightarrow> cbuf option \<Rightarrow> ptr \<Rightarrow> destroyer option \<Rightarrow> world \<Rightarrow>
     fault + (int \<times> hashtable option \<times> world)" where
  "table_replace table key new_value value_destroyer w =
     (case table of None \<Rightarrow> Inr (- 1, table, w) | Some t \<Rightarrow>
     (case key of None \<Rightarrow> Inr (- 1, table, w) | Some k \<Rightarrow>
        bindE (hash k) (\<lambda>hash_full.
        let i = bucket_index (buckets_count t) hash_full in
        bindE (pthread_rwlock_wrlock (locks t) i) (\<lambda>(rc, ls).
        if rc \<noteq> 0 then Inr (- 1, Some (t\<lparr>locks := ls\<rparr>), w)
        else
          bindE (nth_bucket (buckets t) i) (\<lambda>b.
          bindE (find_slot b hash_full k slots) (\<lambda>found.
          case found of
            Some j \<Rightarrow>
              bindE (call_destroyer value_destroyer (slot_values b ! j) w) (\<lambda>w'.
              bindE (pthread_rwlock_unlock i ls) (\<lambda>ls'.
              Inr (0, Some (t\<lparr>buckets := (buckets t)[i :=
                               b\<lparr>slot_values := (slot_values b)[j := new_value]\<rparr>],
                               locks := ls'\<rparr>), w')))
          | None \<Rightarrow>
              bindE (pthread_rwlock_unlock i ls) (\<lambda>ls'.
              Inr (- 2, Some (t\<lparr>locks := ls'\<rparr>), w))))))))"

section \<open>Monitoring\<close>

definition table_capacity :: "hashtable option \<Rightarrow> size_t" where
  "table_capacity table =
     (case table of None \<Rightarrow> 0 | Some t \<Rightarrow> buckets_count t * of_nat BUCKET_CAPACITY)"

definition table_total_elem :: "hashtable option \<Rightarrow> fault + size_t" where
  "table_total_elem table = (case table of None \<Rightarrow> Inl NullDeref | Some t \<Rightarrow> Inr (elem_count t))"

definition usage_slot :: "sizer \<Rightarrow> bucket \<Rightarrow> world \<Rightarrow> nat \<Rightarrow> size_t \<Rightarrow> fault + size_t" where
  "usage_slot sizer b w j total_size =
     (if in_use b ! j \<noteq> 0 \<and> slot_values b ! j \<noteq> NULL
      then bindE (sizer (slot_values b ! j) w) (\<lambda>n. Inr (total_size + n))
      else Inr total_size)"

definition table_memory_usage ::
    "hashtable option \<Rightarrow> sizer option \<Rightarrow> world \<Rightarrow> fault + (size_t \<times> hashtable option)" where
  "table_memory_usage table value_sizer w =
     (case table of
        None \<Rightarrow> Inr (0, table)
      | Some t \<Rightarrow>
          let total_size = of_nat sizeof_hashtable + buckets_count t * of_nat sizeof_bucket
                           + lock_count t * of_nat sizeof_rwlock in
          (case value_sizer of
             None \<Rightarrow> Inr (total_size, table)
           | Some sizer \<Rightarrow>
               bindE (lock_all rd_acquire (unat (buckets_count t)) (locks t)) (\<lambda>(rc, ls).
               if rc \<noteq> 0 then Inr (- 1, Some (t\<lparr>locks := ls\<rparr>))
               else
                 bindE (foreach (\<lambda>i total. bindE (nth_bucket (buckets t) i) (\<lambda>b.
                          foreach (usage_slot sizer b w) slots total))
                          [0..<unat (buckets_count t)] total_size) (\<lambda>total.
                 bindE (unlock_all (unat (buckets_count t)) ls) (\<lambda>ls'.
                 Inr (total, Some (t\<lparr>locks := ls'\<rparr>)))))))"

end
