(* ===== verification/Table_Inv.thy ===== *)
theory Table_Inv
  imports Hashtable
begin

text \<open>
  What a table is: the shape of its arrays, the multiset of entries its used slots hold, the
  well-formedness invariant over that multiset, and the abstraction of a table to a finite map from
  key strings to value pointers. An entry is the stored hash, the key string and the value pointer.
  Every operation is specified by what it does to the entries; the map view follows once.
\<close>

section \<open>Shape\<close>

definition bucket_shape :: "bucket \<Rightarrow> bool" where
  "bucket_shape b \<longleftrightarrow>
     length (in_use b) = 8 \<and> length (hashes b) = 8 \<and> length (keys b) = 8 \<and>
     length (slot_values b) = 8 \<and> (\<forall>row \<in> set (keys b). length row = 255 \<and> terminated row)"

definition table_shape :: "hashtable \<Rightarrow> bool" where
  "table_shape t \<longleftrightarrow>
     length (buckets t) = unat (buckets_count t) \<and> is_pow2 (buckets_count t) \<and>
     (\<forall>b \<in> set (buckets t). bucket_shape b) \<and> locks t = idle (unat (lock_count t))"

text \<open>There is a lock for every bucket. The code creates tables so, but a resize keeps the old locks.\<close>

definition locks_cover :: "hashtable \<Rightarrow> bool" where
  "locks_cover t \<longleftrightarrow> buckets_count t \<le> lock_count t"

lemma bucket_shape_zero [simp]: "bucket_shape zero_bucket"
  by (simp add: bucket_shape_def zero_bucket_def terminated_def)

lemma set_slots [simp]: "set slots = {..<8}"
  by (auto simp: slots_def)

lemma bucket_index_less: "table_shape t \<Longrightarrow> bucket_index (buckets_count t) h < length (buckets t)"
  by (simp add: table_shape_def bucket_index_def is_pow2_and_less)

lemma bucket_index_lock:
  "table_shape t \<Longrightarrow> locks_cover t \<Longrightarrow> bucket_index (buckets_count t) h < unat (lock_count t)"
  using bucket_index_less [of t h] by (simp add: table_shape_def locks_cover_def word_le_nat_alt)

lemma nth_bucket_index [simp]:
  "table_shape t \<Longrightarrow>
   nth_bucket (buckets t) (bucket_index (buckets_count t) h) =
   Inr (buckets t ! bucket_index (buckets_count t) h)"
  using bucket_index_less [of t h] by (simp add: nth_bucket_def)

lemma bucket_shape_nth: "table_shape t \<Longrightarrow> i < length (buckets t) \<Longrightarrow> bucket_shape (buckets t ! i)"
  by (simp add: table_shape_def)

section \<open>Entries\<close>

type_synonym entry = "ulong \<times> byte list \<times> ptr"

definition slot_entry :: "bucket \<Rightarrow> nat \<Rightarrow> entry multiset" where
  "slot_entry b j =
     (if in_use b ! j = 0 then {#} else {#(hashes b ! j, cstr (keys b ! j), slot_values b ! j)#})"

definition bucket_entries :: "bucket \<Rightarrow> entry multiset" where
  "bucket_entries b = (\<Sum>j < 8. slot_entry b j)"

definition entries :: "bucket list \<Rightarrow> entry multiset" where
  "entries bs = (\<Sum>i < length bs. bucket_entries (bs ! i))"

lemma slot_entry_zero [simp]: "j < 8 \<Longrightarrow> slot_entry zero_bucket j = {#}"
  by (simp add: slot_entry_def zero_bucket_def)

lemma bucket_entries_zero [simp]: "bucket_entries zero_bucket = {#}"
  by (simp add: bucket_entries_def)

lemma entries_zero [simp]: "entries (replicate n zero_bucket) = {#}"
  by (simp add: entries_def)

lemma in_bucket_entries: "e \<in># bucket_entries b \<longleftrightarrow> (\<exists>j < 8. e \<in># slot_entry b j)"
  by (auto simp: bucket_entries_def set_mset_sum)

lemma in_entries: "e \<in># entries bs \<longleftrightarrow> (\<exists>i < length bs. e \<in># bucket_entries (bs ! i))"
  by (auto simp: entries_def set_mset_sum)

text \<open>Changing one term of a sum of multisets.\<close>

lemma sum_mset_change:
  fixes f g :: "nat \<Rightarrow> 'a multiset"
  assumes "j < n" and "\<And>i. i < n \<Longrightarrow> i \<noteq> j \<Longrightarrow> g i = f i"
  shows "(\<Sum>i < n. g i) + f j = (\<Sum>i < n. f i) + g j"
proof -
  have "(\<Sum>i \<in> {..<n} - {j}. g i) = (\<Sum>i \<in> {..<n} - {j}. f i)"
    using assms(2) by (intro sum.cong) auto
  then show ?thesis
    using assms(1) by (simp add: sum.remove [of "{..<n}" j] ac_simps)
qed

lemma entries_update:
  assumes "i < length bs" and "j < 8"
    and "\<And>k. k < 8 \<Longrightarrow> k \<noteq> j \<Longrightarrow> slot_entry b' k = slot_entry (bs ! i) k"
  shows "entries (bs[i := b']) + slot_entry (bs ! i) j = entries bs + slot_entry b' j"
proof -
  have 1: "bucket_entries b' + slot_entry (bs ! i) j = bucket_entries (bs ! i) + slot_entry b' j"
    unfolding bucket_entries_def using assms(2,3) by (intro sum_mset_change) auto
  have 2: "entries (bs[i := b']) + bucket_entries (bs ! i) = entries bs + bucket_entries b'"
    using assms(1) sum_mset_change
      [of i "length bs" "\<lambda>k. bucket_entries (bs[i := b'] ! k)" "\<lambda>k. bucket_entries (bs ! k)"]
    by (simp add: entries_def)
  let ?E = "entries (bs[i := b'])" and ?B = "bucket_entries (bs ! i)"
  have "?E + slot_entry (bs ! i) j + ?B = (?E + ?B) + slot_entry (bs ! i) j" by (simp only: ac_simps)
  also have "\<dots> = entries bs + bucket_entries b' + slot_entry (bs ! i) j" by (simp only: 2)
  also have "\<dots> = entries bs + (bucket_entries b' + slot_entry (bs ! i) j)" by (simp only: add.assoc)
  also have "\<dots> = entries bs + slot_entry b' j + ?B" by (simp only: 1) (simp only: ac_simps)
  finally show ?thesis by (rule add_right_imp_eq)
qed

lemma bucket_entries_update_le:
  assumes "j < 8" and "\<And>k. k < 8 \<Longrightarrow> k \<noteq> j \<Longrightarrow> slot_entry b' k = slot_entry b k"
    and "e \<in># bucket_entries b'"
  shows "e \<in># bucket_entries b \<or> e \<in># slot_entry b' j"
  using assms by (metis in_bucket_entries)

section \<open>The invariant\<close>

text \<open>Each entry sits in the bucket its hash selects.\<close>

definition placed :: "bucket list \<Rightarrow> size_t \<Rightarrow> bool" where
  "placed bs n \<longleftrightarrow> (\<forall>i < length bs. \<forall>e \<in># bucket_entries (bs ! i). bucket_index n (fst e) = i)"

definition entry_key :: "entry \<Rightarrow> byte list" where
  "entry_key e = fst (snd e)"

definition entry_value :: "entry \<Rightarrow> ptr" where
  "entry_value e = snd (snd e)"

text \<open>Every stored hash is the hash of the stored key, and no key is stored twice.\<close>

definition keyed :: "entry multiset \<Rightarrow> bool" where
  "keyed E \<longleftrightarrow> (\<forall>e \<in># E. fst e = djb2 (entry_key e))"

definition unique_keys :: "entry multiset \<Rightarrow> bool" where
  "unique_keys E \<longleftrightarrow> (\<forall>k. count (image_mset entry_key E) k \<le> 1)"

definition table_wf :: "hashtable \<Rightarrow> bool" where
  "table_wf t \<longleftrightarrow>
     table_shape t \<and> placed (buckets t) (buckets_count t) \<and>
     keyed (entries (buckets t)) \<and> unique_keys (entries (buckets t)) \<and>
     elem_count t = of_nat (size (entries (buckets t)))"

lemma table_wf_shape: "table_wf t \<Longrightarrow> table_shape t"
  by (simp add: table_wf_def)

lemma entry_simps [simp]: "entry_key (h, k, v) = k" "entry_value (h, k, v) = v"
  by (simp_all add: entry_key_def entry_value_def)

lemma count_image_add_le:
  "(\<forall>v. count (image_mset f (add_mset e E)) v \<le> 1) \<longleftrightarrow>
   (\<forall>v. count (image_mset f E) v \<le> 1) \<and> f e \<notin> f ` set_mset E" (is "?l \<longleftrightarrow> ?r")
proof -
  have 0: "f e \<notin> f ` set_mset E \<longleftrightarrow> count (image_mset f E) (f e) = 0"
    by (simp add: count_eq_zero_iff)
  show ?thesis
  proof
    assume l: ?l
    have "count (image_mset f E) v \<le> 1" for v using spec [OF l, of v] by (simp split: if_splits)
    with spec [OF l, of "f e"] show ?r by (simp add: 0)
  next
    assume ?r
    with 0 show ?l by auto
  qed
qed

lemma unique_keys_add:
  "unique_keys (add_mset e E) \<longleftrightarrow> unique_keys E \<and> entry_key e \<notin> entry_key ` set_mset E"
  unfolding unique_keys_def by (rule count_image_add_le)

lemma unique_keysD:
  assumes "unique_keys E" and "e \<in># E" and "e' \<in># E" and "entry_key e = entry_key e'"
  shows "e = e'"
proof (rule ccontr)
  assume "e \<noteq> e'"
  obtain E' where "E = add_mset e E'" using assms(2) by (rule mset_add)
  with assms \<open>e \<noteq> e'\<close> show False by (auto simp: unique_keys_add)
qed

lemma keyed_add [simp]: "keyed (add_mset e E) \<longleftrightarrow> fst e = djb2 (entry_key e) \<and> keyed E"
  by (auto simp: keyed_def)

lemma keyed_empty [simp]: "keyed {#}" and unique_keys_empty [simp]: "unique_keys {#}"
  by (simp_all add: keyed_def unique_keys_def)

lemma placedD:
  "placed bs n \<Longrightarrow> i < length bs \<Longrightarrow> (h, k, v) \<in># bucket_entries (bs ! i) \<Longrightarrow> bucket_index n h = i"
  by (fastforce simp: placed_def)

lemma placed_update:
  assumes "placed bs n" and "i < length bs" and "j < 8"
    and same: "\<And>k. k < 8 \<Longrightarrow> k \<noteq> j \<Longrightarrow> slot_entry b k = slot_entry (bs ! i) k"
    and new: "\<And>e. e \<in># slot_entry b j \<Longrightarrow> bucket_index n (fst e) = i"
  shows "placed (bs[i := b]) n"
  unfolding placed_def
proof (intro allI impI ballI)
  fix m e
  assume m: "m < length (bs[i := b])" and e: "e \<in># bucket_entries (bs[i := b] ! m)"
  show "bucket_index n (fst e) = m"
  proof (cases "m = i")
    case True
    with m e have "e \<in># bucket_entries b" by simp
    then have "e \<in># bucket_entries (bs ! i) \<or> e \<in># slot_entry b j"
      using assms(3) same by (rule bucket_entries_update_le [rotated 2])
    then show ?thesis
    proof
      assume "e \<in># bucket_entries (bs ! i)"
      with True assms(1,2) show ?thesis by (simp add: placed_def)
    next
      assume "e \<in># slot_entry b j"
      with True new show ?thesis by simp
    qed
  next
    case False
    with m e assms(1) show ?thesis by (simp add: placed_def)
  qed
qed

section \<open>The map a table stands for\<close>

definition slot_has :: "bucket \<Rightarrow> ulong \<Rightarrow> byte list \<Rightarrow> nat \<Rightarrow> bool" where
  "slot_has b h k j \<longleftrightarrow> in_use b ! j \<noteq> 0 \<and> hashes b ! j = h \<and> cstr (keys b ! j) = k"

definition key_bucket :: "hashtable \<Rightarrow> byte list \<Rightarrow> bucket" where
  "key_bucket t k = buckets t ! bucket_index (buckets_count t) (djb2 k)"

definition table_lookup :: "hashtable \<Rightarrow> byte list \<Rightarrow> ptr option" where
  "table_lookup t k =
     map_option (\<lambda>j. slot_values (key_bucket t k) ! j)
       (find (slot_has (key_bucket t k) (djb2 k) k) slots)"

lemma find_slots_Some:
  "find P slots = Some j \<Longrightarrow> j < 8 \<and> P j"
  by (auto simp: find_Some_iff slots_def)

lemma find_slots_None: "find P slots = None \<longleftrightarrow> (\<forall>j < 8. \<not> P j)"
  by (auto simp: find_None_iff)

lemma slot_has_entry: "slot_has b h k j \<Longrightarrow> slot_entry b j = {#(h, k, slot_values b ! j)#}"
  by (auto simp: slot_has_def slot_entry_def)

lemma entry_slot_has: "(h, k, v) \<in># slot_entry b j \<Longrightarrow> slot_has b h k j \<and> slot_values b ! j = v"
  by (auto simp: slot_has_def slot_entry_def split: if_splits)

lemma table_lookup_Some_entry:
  assumes "table_shape t" and "table_lookup t k = Some v"
  shows "(djb2 k, k, v) \<in># entries (buckets t)"
proof -
  from assms(2) obtain j where "find (slot_has (key_bucket t k) (djb2 k) k) slots = Some j"
    and v: "v = slot_values (key_bucket t k) ! j" by (auto simp: table_lookup_def)
  then have "j < 8" "slot_has (key_bucket t k) (djb2 k) k j" by (auto dest: find_slots_Some)
  with v have "(djb2 k, k, v) \<in># bucket_entries (key_bucket t k)"
    by (auto simp: in_bucket_entries slot_has_entry)
  with bucket_index_less [OF assms(1)] show ?thesis by (auto simp: in_entries key_bucket_def)
qed

lemma table_lookup_None_entry:
  assumes "placed (buckets t) (buckets_count t)" and "table_lookup t k = None"
  shows "(djb2 k, k, v) \<notin># entries (buckets t)"
proof
  assume "(djb2 k, k, v) \<in># entries (buckets t)"
  then obtain i where i: "i < length (buckets t)" "(djb2 k, k, v) \<in># bucket_entries (buckets t ! i)"
    by (auto simp: in_entries)
  with placedD [OF assms(1)] have "buckets t ! i = key_bucket t k" by (simp add: key_bucket_def)
  with i obtain j where "j < 8" "slot_has (key_bucket t k) (djb2 k) k j"
    by (auto simp: in_bucket_entries dest: entry_slot_has)
  with assms(2) show False by (auto simp: table_lookup_def find_slots_None)
qed

text \<open>In a well-formed table the map and the entries say the same.\<close>

lemma table_lookup_iff:
  assumes "table_wf t"
  shows "table_lookup t k = Some v \<longleftrightarrow> (djb2 k, k, v) \<in># entries (buckets t)"
proof
  assume "(djb2 k, k, v) \<in># entries (buckets t)"
  with assms obtain v' where v': "table_lookup t k = Some v'"
    using table_lookup_None_entry [of t k v] by (cases "table_lookup t k") (auto simp: table_wf_def)
  then have "(djb2 k, k, v') \<in># entries (buckets t)"
    using assms by (intro table_lookup_Some_entry) (auto simp: table_wf_def)
  with \<open>(djb2 k, k, v) \<in># entries (buckets t)\<close> assms have "v' = v"
    using unique_keysD [of "entries (buckets t)" "(djb2 k, k, v)" "(djb2 k, k, v')"]
    by (simp add: table_wf_def)
  with v' show "table_lookup t k = Some v" by simp
qed (use assms in \<open>auto simp: table_wf_def intro: table_lookup_Some_entry\<close>)

lemma table_lookup_ext:
  assumes "table_wf t" and "\<And>k v. m k = Some v \<longleftrightarrow> (djb2 k, k, v) \<in># entries (buckets t)"
  shows "table_lookup t = m"
proof
  fix k
  have "table_lookup t k = Some v \<longleftrightarrow> m k = Some v" for v
    by (simp only: table_lookup_iff [OF assms(1)] assms(2))
  then show "table_lookup t k = m k" by (metis option.exhaust)
qed

end
