(* ===== verification/Table_Ops.thy ===== *)
theory Table_Ops
  imports Table_Inv
begin

text \<open>
  The core operations of the table, each branch: what a search returns, how the three kinds of slot
  update (fill a free slot, overwrite the value of a used one, erase one) change the entries and keep
  the invariant, and from these the result of get, set, add, replace, delete and exist.
\<close>

section \<open>Searching a bucket\<close>

lemma slot_matches_spec:
  assumes "bucket_shape b" and "j < 8" and "terminated key"
  shows "slot_matches b h key j = Inr (slot_has b h (cstr key) j)"
proof -
  have "keys b ! j \<in> set (keys b)" using assms by (simp add: bucket_shape_def)
  with assms(1) have row: "terminated (keys b ! j)" "length (keys b ! j) = 255"
    by (simp_all add: bucket_shape_def)
  then have "length (cstr (keys b ! j)) < KEY_MAX_LEN" using length_cstr_less [of "keys b ! j"] by simp
  with ustrncmp_terminated [OF row(1) assms(3)]
  obtain r where "ustrncmp (keys b ! j) key KEY_MAX_LEN = Inr r"
    "r = 0 \<longleftrightarrow> cstr (keys b ! j) = cstr key" by blast
  then show ?thesis by (simp add: slot_matches_def slot_has_def)
qed

lemma find_slot_spec:
  assumes "bucket_shape b" and "terminated key" and "set is \<subseteq> {..<8}"
  shows "find_slot b h key is = Inr (find (slot_has b h (cstr key)) is)"
  using assms(3) by (induction "is") (simp_all add: slot_matches_spec assms(1,2))

lemma scan_slots_spec:
  assumes "bucket_shape b" and "terminated key" and "set is \<subseteq> {..<8}"
  shows "\<exists>e'. scan_slots b h key is e = Inr (find (slot_has b h (cstr key)) is, e') \<and>
    (find (slot_has b h (cstr key)) is = None \<longrightarrow>
     e' = (case e of None \<Rightarrow> find (\<lambda>j. in_use b ! j = 0) is | Some _ \<Rightarrow> e))"
  using assms(3)
proof (induction "is" arbitrary: e)
  case (Cons i "is")
  let ?e = "if in_use b ! i = 0 \<and> e = None then Some i else e"
  from Cons obtain e' where "scan_slots b h key is ?e = Inr (find (slot_has b h (cstr key)) is, e')"
    "find (slot_has b h (cstr key)) is = None \<longrightarrow>
     e' = (case ?e of None \<Rightarrow> find (\<lambda>j. in_use b ! j = 0) is | Some _ \<Rightarrow> ?e)" by fastforce
  with Cons.prems show ?case
    by (cases "slot_has b h (cstr key) i") (auto simp: slot_matches_spec assms(1,2) split: option.splits)
qed (auto split: option.splits)

lemma scan_slots_None:
  assumes "bucket_shape b" and "terminated key" and "find (slot_has b h (cstr key)) slots = None"
  shows "scan_slots b h key slots None = Inr (None, find (\<lambda>j. in_use b ! j = 0) slots)"
  using scan_slots_spec [OF assms(1,2), of slots h None] assms(3) by auto

lemma scan_slots_Some:
  assumes "bucket_shape b" and "terminated key" and "find (slot_has b h (cstr key)) slots = Some j"
  obtains e where "scan_slots b h key slots None = Inr (Some j, e)"
  using scan_slots_spec [OF assms(1,2), of slots h None] assms(3) by auto

section \<open>Slot updates\<close>

definition fill_slot :: "bucket \<Rightarrow> nat \<Rightarrow> ulong \<Rightarrow> cbuf \<Rightarrow> ptr \<Rightarrow> bucket" where
  "fill_slot b j h row v =
     b\<lparr>in_use := (in_use b)[j := 1], hashes := (hashes b)[j := h],
       keys := (keys b)[j := row], slot_values := (slot_values b)[j := v]\<rparr>"

definition overwrite_slot :: "bucket \<Rightarrow> nat \<Rightarrow> ptr \<Rightarrow> bucket" where
  "overwrite_slot b j v = b\<lparr>slot_values := (slot_values b)[j := v]\<rparr>"

definition erase_slot :: "bucket \<Rightarrow> nat \<Rightarrow> bucket" where
  "erase_slot b j =
     b\<lparr>in_use := (in_use b)[j := 0], slot_values := (slot_values b)[j := NULL],
       hashes := (hashes b)[j := 0]\<rparr>"

text \<open>The key row after \<open>ustrncpy\<close>: the key cut to 254 bytes over the old row.\<close>

definition copied_row :: "cbuf \<Rightarrow> byte list \<Rightarrow> cbuf" where
  "copied_row row k = (let k' = take 254 k in k' @ 0 # drop (Suc (length k')) row)"

lemma copied_row_simps:
  assumes "0 \<notin> set k" and "length row = 255"
  shows "cstr (copied_row row k) = take 254 k" "length (copied_row row k) = 255"
    "terminated (copied_row row k)"
proof -
  have "0 \<notin> set (take 254 k)" using assms(1) by (auto dest: in_set_takeD)
  then show "cstr (copied_row row k) = take 254 k" by (simp add: copied_row_def Let_def)
qed (use assms(2) in \<open>auto simp: copied_row_def Let_def min_def\<close>)

lemma ustrncpy_key:
  assumes "terminated k" and "length row = 255"
  shows "ustrncpy (Some row) (Some k) 255 = Inr (Some (copied_row row (cstr k)))"
  using ustrncpy_spec [of k 255 row, OF assms(1) _ _ refl] assms(2)
  by (simp add: copied_row_def Let_def)

lemma fill_slot_shape:
  assumes "bucket_shape b" and "length row = 255" and "terminated row"
  shows "bucket_shape (fill_slot b j h row v)"
  using assms by (auto simp: bucket_shape_def fill_slot_def dest!: set_update_subset_insert [THEN subsetD])

lemma overwrite_slot_shape [simp]: "bucket_shape (overwrite_slot b j v) = bucket_shape b"
  by (simp add: bucket_shape_def overwrite_slot_def)

lemma erase_slot_shape [simp]: "bucket_shape (erase_slot b j) = bucket_shape b"
  by (simp add: bucket_shape_def erase_slot_def)

lemma slot_entry_fill:
  assumes "bucket_shape b" and "j < 8"
  shows "slot_entry (fill_slot b j h row v) k =
    (if k = j then {#(h, cstr row, v)#} else slot_entry b k)"
  using assms by (simp add: slot_entry_def fill_slot_def bucket_shape_def)

lemma slot_entry_overwrite:
  assumes "bucket_shape b" and "j < 8" and "slot_has b h s j"
  shows "slot_entry (overwrite_slot b j v) k =
    (if k = j then {#(h, s, v)#} else slot_entry b k)"
  using assms by (auto simp: slot_entry_def overwrite_slot_def bucket_shape_def slot_has_def)

lemma slot_entry_erase:
  assumes "bucket_shape b" and "j < 8"
  shows "slot_entry (erase_slot b j) k = (if k = j then {#} else slot_entry b k)"
  using assms by (simp add: slot_entry_def erase_slot_def bucket_shape_def)

section \<open>Changing one bucket of a table\<close>

definition key_index :: "hashtable \<Rightarrow> byte list \<Rightarrow> nat" where
  "key_index t k = bucket_index (buckets_count t) (djb2 k)"

definition with_bucket :: "hashtable \<Rightarrow> byte list \<Rightarrow> bucket \<Rightarrow> hashtable" where
  "with_bucket t k b = t\<lparr>buckets := (buckets t)[key_index t k := b]\<rparr>"

text \<open>Nothing but the buckets and the element count differs.\<close>

definition same_frame :: "hashtable \<Rightarrow> hashtable \<Rightarrow> bool" where
  "same_frame t t' \<longleftrightarrow>
     table_ptr t' = table_ptr t \<and> buckets_ptr t' = buckets_ptr t \<and> locks_ptr t' = locks_ptr t \<and>
     buckets_count t' = buckets_count t \<and> locks t' = locks t \<and> lock_count t' = lock_count t"

lemma same_frame_simps:
  assumes "same_frame t t'"
  shows "table_ptr t' = table_ptr t" "buckets_ptr t' = buckets_ptr t" "locks_ptr t' = locks_ptr t"
    "buckets_count t' = buckets_count t" "locks t' = locks t" "lock_count t' = lock_count t"
  using assms by (simp_all add: same_frame_def)

lemma same_frame_cover: "same_frame t t' \<Longrightarrow> locks_cover t' = locks_cover t"
  by (simp add: locks_cover_def same_frame_simps)

lemma key_index_less: "table_shape t \<Longrightarrow> key_index t k < length (buckets t)"
  by (simp add: key_index_def bucket_index_less)

lemma key_bucket_index: "key_bucket t k = buckets t ! key_index t k"
  by (simp add: key_bucket_def key_index_def)

lemma key_bucket_shape: "table_shape t \<Longrightarrow> bucket_shape (key_bucket t k)"
  by (simp add: key_bucket_index bucket_shape_nth key_index_less)

text \<open>
  The common step of every operation that changes slot \<open>j\<close> of the bucket of \<open>k\<close>: shape, placement and
  frame are kept, and the entries change by the old and the new content of that slot.
\<close>

lemma with_bucket_entries:
  assumes "table_shape t" and "j < 8"
    and "\<And>i. i < 8 \<Longrightarrow> i \<noteq> j \<Longrightarrow> slot_entry b i = slot_entry (key_bucket t k) i"
  shows "entries (buckets (with_bucket t k b)) + slot_entry (key_bucket t k) j =
    entries (buckets t) + slot_entry b j"
  using entries_update [of "key_index t k" "buckets t" j b] assms
  by (simp add: with_bucket_def key_bucket_index key_index_less)

lemma with_bucket_shape:
  assumes "table_shape t" and "bucket_shape b"
  shows "table_shape (with_bucket t k b\<lparr>elem_count := n\<rparr>)"
  using assms by (auto simp: table_shape_def with_bucket_def dest!: set_update_subset_insert [THEN subsetD])

lemma with_bucket_placed:
  assumes "table_shape t" and "placed (buckets t) (buckets_count t)" and "j < 8"
    and same: "\<And>i. i < 8 \<Longrightarrow> i \<noteq> j \<Longrightarrow> slot_entry b i = slot_entry (key_bucket t k) i"
    and new: "\<And>e. e \<in># slot_entry b j \<Longrightarrow> bucket_index (buckets_count t) (fst e) = key_index t k"
  shows "placed (buckets (with_bucket t k b)) (buckets_count t)"
  using placed_update [OF assms(2) key_index_less [OF assms(1)] assms(3)] same new
  by (simp add: with_bucket_def key_bucket_index)

lemma with_bucket_wf:
  fixes t k b
  defines "t' \<equiv> with_bucket t k b\<lparr>elem_count := of_nat (size (entries (buckets (with_bucket t k b))))\<rparr>"
  assumes wf: "table_wf t" and j: "j < 8" and b: "bucket_shape b"
    and same: "\<And>i. i < 8 \<Longrightarrow> i \<noteq> j \<Longrightarrow> slot_entry b i = slot_entry (key_bucket t k) i"
    and new: "slot_entry b j = {#} \<or> (\<exists>v. slot_entry b j = {#(djb2 k, k, v)#})"
    and uniq: "unique_keys (entries (buckets (with_bucket t k b)))"
  shows "table_wf t'"
proof -
  note shape = table_wf_shape [OF wf]
  have "entries (buckets (with_bucket t k b)) \<subseteq># entries (buckets t) + slot_entry b j"
    using with_bucket_entries [OF shape j same] by (metis mset_subset_eq_add_left)
  then have "keyed (entries (buckets (with_bucket t k b)))"
    using wf new by (auto simp: keyed_def table_wf_def dest!: mset_subset_eqD)
  moreover have "placed (buckets (with_bucket t k b)) (buckets_count t)"
    using wf new by (intro with_bucket_placed [OF shape _ j same]) (auto simp: table_wf_def key_index_def)
  ultimately show ?thesis
    using uniq with_bucket_shape [OF shape b] by (simp add: table_wf_def t'_def with_bucket_def)
qed

lemma unique_keys_remove: "unique_keys (add_mset e E) \<Longrightarrow> unique_keys E"
  by (simp add: unique_keys_add)

section \<open>The locks around an operation\<close>

lemma write_guard:
  assumes "table_shape t" and "locks_cover t"
  obtains L where "pthread_rwlock_wrlock (locks t) (bucket_index (buckets_count t) h) = Inr (0, L)"
    and "pthread_rwlock_unlock (bucket_index (buckets_count t) h) L = Inr (locks t)"
proof -
  have idle: "locks t = idle (unat (lock_count t))" using assms(1) by (simp add: table_shape_def)
  show thesis
    using wr.acquire_idle [OF bucket_index_lock [OF assms, of h]]
      wr.acquire_release [OF bucket_index_lock [OF assms, of h]]
    by (intro that) (simp_all only: pthread_rwlock_wrlock_def idle)
qed

lemma read_guard:
  assumes "table_shape t" and "locks_cover t"
  obtains L where "pthread_rwlock_rdlock (locks t) (bucket_index (buckets_count t) h) = Inr (0, L)"
    and "pthread_rwlock_unlock (bucket_index (buckets_count t) h) L = Inr (locks t)"
proof -
  have idle: "locks t = idle (unat (lock_count t))" using assms(1) by (simp add: table_shape_def)
  show thesis
    using rd.acquire_idle [OF bucket_index_lock [OF assms, of h]]
      rd.acquire_release [OF bucket_index_lock [OF assms, of h]]
    by (intro that) (simp_all only: pthread_rwlock_rdlock_def idle)
qed

section \<open>Each operation, each branch\<close>

text \<open>The slot the search for a key ends at, and the first free slot of the key's bucket.\<close>

definition key_slot :: "hashtable \<Rightarrow> byte list \<Rightarrow> nat option" where
  "key_slot t k = find (slot_has (key_bucket t k) (djb2 k) k) slots"

definition free_slot :: "hashtable \<Rightarrow> byte list \<Rightarrow> nat option" where
  "free_slot t k = find (\<lambda>j. in_use (key_bucket t k) ! j = 0) slots"

lemma table_lookup_slot:
  "table_lookup t k = map_option (\<lambda>j. slot_values (key_bucket t k) ! j) (key_slot t k)"
  by (simp add: table_lookup_def key_slot_def)

lemma key_slot_Some: "key_slot t k = Some j \<Longrightarrow> j < 8 \<and> slot_has (key_bucket t k) (djb2 k) k j"
  by (auto simp: key_slot_def dest: find_slots_Some)

lemma free_slot_Some: "free_slot t k = Some j \<Longrightarrow> j < 8 \<and> in_use (key_bucket t k) ! j = 0"
  by (auto simp: free_slot_def dest: find_slots_Some)

lemma nth_key_bucket:
  "table_shape t \<Longrightarrow>
   nth_bucket (buckets t) (bucket_index (buckets_count t) (djb2 k)) = Inr (key_bucket t k)"
  by (simp add: key_bucket_def)

lemma key_len_ok: "length k < 255 \<Longrightarrow> \<not> (255 :: size_t) \<le> of_nat (length k)"
  by (simp add: word_le_nat_alt unat_of_nat)

text \<open>A key of 255 bytes or more; its length must fit \<open>size_t\<close>, as the length of any C object does.\<close>

lemma key_len_long:
  "255 \<le> length k \<Longrightarrow> length k < 2 ^ 64 \<Longrightarrow> (255 :: size_t) \<le> of_nat (length k)"
  by (simp add: word_le_nat_alt unat_of_nat)

text \<open>\<open>ready t key k\<close>: the table can serve a call for the key string \<open>k\<close> at \<open>key\<close>.\<close>

definition ready :: "hashtable \<Rightarrow> cbuf \<Rightarrow> byte list \<Rightarrow> bool" where
  "ready t key k \<longleftrightarrow> table_shape t \<and> locks_cover t \<and> terminated key \<and> k = cstr key"

lemma ready_shape: "ready t key k \<Longrightarrow> table_shape t" "ready t key k \<Longrightarrow> locks_cover t"
  by (simp_all add: ready_def)

lemma ready_key: "ready t key k \<Longrightarrow> terminated key \<and> cstr key = k \<and> 0 \<notin> set k"
  by (auto simp: ready_def dest: subsetD intro: cstr_nonzero [THEN notE])

lemma ready_hash: "ready t key k \<Longrightarrow> hash key = Inr (djb2 k)"
  by (simp add: ready_def hash_terminated)

lemma ready_ustrlen: "ready t key k \<Longrightarrow> ustrlen (Some key) = Inr (of_nat (length k))"
  by (simp add: ready_def ustrlen_terminated)

lemma ready_bucket:
  "ready t key k \<Longrightarrow> nth_bucket (buckets t) (bucket_index (buckets_count t) (djb2 k)) = Inr (key_bucket t k)"
  unfolding ready_def by (blast intro: nth_key_bucket)

lemma ready_find: "ready t key k \<Longrightarrow> find_slot (key_bucket t k) (djb2 k) key slots = Inr (key_slot t k)"
  by (simp add: ready_def find_slot_spec key_bucket_shape key_slot_def)

lemma ready_scan_Some:
  assumes "ready t key k" and "key_slot t k = Some j"
  obtains e where "scan_slots (key_bucket t k) (djb2 k) key slots None = Inr (Some j, e)"
  using assms scan_slots_Some [OF key_bucket_shape, of t key k "djb2 k" j]
  by (auto simp: ready_def key_slot_def)

lemma ready_scan_None:
  "ready t key k \<Longrightarrow> key_slot t k = None \<Longrightarrow>
   scan_slots (key_bucket t k) (djb2 k) key slots None = Inr (None, free_slot t k)"
  by (simp add: ready_def key_slot_def free_slot_def scan_slots_None key_bucket_shape)

lemma ready_copy:
  assumes "ready t key k" and "j < 8"
  shows "ustrncpy (Some (keys (key_bucket t k) ! j)) (Some key) 255 =
    Inr (Some (copied_row (keys (key_bucket t k) ! j) k))"
proof -
  have "keys (key_bucket t k) ! j \<in> set (keys (key_bucket t k))"
    "\<forall>row \<in> set (keys (key_bucket t k)). length row = 255"
    using key_bucket_shape [OF ready_shape(1) [OF assms(1)], of k] assms(2)
    by (simp_all add: bucket_shape_def)
  with ready_key [OF assms(1)] show ?thesis by (simp add: ustrncpy_key)
qed

lemmas ready_simps = ready_hash ready_ustrlen ready_bucket ready_find ready_scan_None ready_copy
  with_bucket_def key_index_def Let_def key_len_ok

lemma set_found:
  assumes "ready t key k" and "key_slot t k = Some j" and "length k < 255"
    and "call_destroyer d (slot_values (key_bucket t k) ! j) w = Inr w'"
  shows "table_set (Some t) (Some key) v d w =
    Inr (0, Some (with_bucket t k (overwrite_slot (key_bucket t k) j v)), w')"
proof (rule write_guard [OF ready_shape [OF assms(1)], of "djb2 k"])
  obtain e where e: "scan_slots (key_bucket t k) (djb2 k) key slots None = Inr (Some j, e)"
    using assms(1,2) by (rule ready_scan_Some)
  fix L assume "pthread_rwlock_wrlock (locks t) (bucket_index (buckets_count t) (djb2 k)) = Inr (0, L)"
    "pthread_rwlock_unlock (bucket_index (buckets_count t) (djb2 k)) L = Inr (locks t)"
  with assms e show ?thesis by (simp add: table_set_def ready_simps overwrite_slot_def)
qed

text \<open>The table after a key is stored in the free slot \<open>j\<close>.\<close>

definition inserted :: "hashtable \<Rightarrow> byte list \<Rightarrow> nat \<Rightarrow> ptr \<Rightarrow> hashtable" where
  "inserted t k j v =
     with_bucket t k (fill_slot (key_bucket t k) j (djb2 k)
       (copied_row (keys (key_bucket t k) ! j) k) v)\<lparr>elem_count := elem_count t + 1\<rparr>"

lemma keys_values_order:
  "b\<lparr>slot_values := vs, keys := ks\<rparr> = b\<lparr>keys := ks, slot_values := vs\<rparr>"
  by simp

lemma set_fresh:
  assumes "ready t key k" and "key_slot t k = None" and "length k < 255"
    and "free_slot t k = Some j"
  shows "table_set (Some t) (Some key) v d w = Inr (0, Some (inserted t k j v), w)"
proof (rule write_guard [OF ready_shape [OF assms(1)], of "djb2 k"])
  fix L assume "pthread_rwlock_wrlock (locks t) (bucket_index (buckets_count t) (djb2 k)) = Inr (0, L)"
    "pthread_rwlock_unlock (bucket_index (buckets_count t) (djb2 k)) L = Inr (locks t)"
  with assms free_slot_Some [OF assms(4)] show ?thesis
    by (simp add: table_set_def ready_simps fill_slot_def inserted_def keys_values_order)
qed

lemma set_full:
  assumes "ready t key k" and "key_slot t k = None" and "length k < 255" and "free_slot t k = None"
  shows "table_set (Some t) (Some key) v d w = Inr (- 2, Some t, w)"
proof (rule write_guard [OF ready_shape [OF assms(1)], of "djb2 k"])
  fix L assume "pthread_rwlock_wrlock (locks t) (bucket_index (buckets_count t) (djb2 k)) = Inr (0, L)"
    "pthread_rwlock_unlock (bucket_index (buckets_count t) (djb2 k)) L = Inr (locks t)"
  with assms show ?thesis by (simp add: table_set_def ready_simps)
qed

lemma set_long:
  assumes "terminated key" and "255 \<le> length (cstr key)" and "length (cstr key) < 2 ^ 64"
  shows "table_set (Some t) (Some key) v d w = Inr (- 3, Some t, w)"
  using assms key_len_long [OF assms(2,3)] by (simp add: table_set_def ustrlen_terminated)

lemma add_found:
  assumes "ready t key k" and "key_slot t k = Some j"
  shows "table_add (Some t) (Some key) v = Inr (- 3, Some t)"
proof (rule write_guard [OF ready_shape [OF assms(1)], of "djb2 k"])
  obtain e where e: "scan_slots (key_bucket t k) (djb2 k) key slots None = Inr (Some j, e)"
    using assms by (rule ready_scan_Some)
  fix L assume "pthread_rwlock_wrlock (locks t) (bucket_index (buckets_count t) (djb2 k)) = Inr (0, L)"
    "pthread_rwlock_unlock (bucket_index (buckets_count t) (djb2 k)) L = Inr (locks t)"
  with assms e show ?thesis by (simp add: table_add_def ready_simps)
qed

lemma add_fresh:
  assumes "ready t key k" and "key_slot t k = None" and "free_slot t k = Some j"
  shows "table_add (Some t) (Some key) v = Inr (0, Some (inserted t k j v))"
proof (rule write_guard [OF ready_shape [OF assms(1)], of "djb2 k"])
  fix L assume "pthread_rwlock_wrlock (locks t) (bucket_index (buckets_count t) (djb2 k)) = Inr (0, L)"
    "pthread_rwlock_unlock (bucket_index (buckets_count t) (djb2 k)) L = Inr (locks t)"
  with assms free_slot_Some [OF assms(3)] show ?thesis
    by (simp add: table_add_def ready_simps fill_slot_def inserted_def)
qed

lemma add_full:
  assumes "ready t key k" and "key_slot t k = None" and "free_slot t k = None"
  shows "table_add (Some t) (Some key) v = Inr (- 2, Some t)"
proof (rule write_guard [OF ready_shape [OF assms(1)], of "djb2 k"])
  fix L assume "pthread_rwlock_wrlock (locks t) (bucket_index (buckets_count t) (djb2 k)) = Inr (0, L)"
    "pthread_rwlock_unlock (bucket_index (buckets_count t) (djb2 k)) L = Inr (locks t)"
  with assms show ?thesis by (simp add: table_add_def ready_simps)
qed

lemma replace_found:
  assumes "ready t key k" and "key_slot t k = Some j"
    and "call_destroyer d (slot_values (key_bucket t k) ! j) w = Inr w'"
  shows "table_replace (Some t) (Some key) v d w =
    Inr (0, Some (with_bucket t k (overwrite_slot (key_bucket t k) j v)), w')"
proof (rule write_guard [OF ready_shape [OF assms(1)], of "djb2 k"])
  fix L assume "pthread_rwlock_wrlock (locks t) (bucket_index (buckets_count t) (djb2 k)) = Inr (0, L)"
    "pthread_rwlock_unlock (bucket_index (buckets_count t) (djb2 k)) L = Inr (locks t)"
  with assms show ?thesis by (simp add: table_replace_def ready_simps overwrite_slot_def)
qed

lemma replace_missing:
  assumes "ready t key k" and "key_slot t k = None"
  shows "table_replace (Some t) (Some key) v d w = Inr (- 2, Some t, w)"
proof (rule write_guard [OF ready_shape [OF assms(1)], of "djb2 k"])
  fix L assume "pthread_rwlock_wrlock (locks t) (bucket_index (buckets_count t) (djb2 k)) = Inr (0, L)"
    "pthread_rwlock_unlock (bucket_index (buckets_count t) (djb2 k)) L = Inr (locks t)"
  with assms show ?thesis by (simp add: table_replace_def ready_simps)
qed

text \<open>The table after the key's slot \<open>j\<close> is released.\<close>

definition erased :: "hashtable \<Rightarrow> byte list \<Rightarrow> nat \<Rightarrow> hashtable" where
  "erased t k j =
     with_bucket t k (erase_slot (key_bucket t k) j)\<lparr>elem_count := elem_count t - 1\<rparr>"

lemma delete_found:
  assumes "ready t key k" and "key_slot t k = Some j"
    and "call_destroyer d (slot_values (key_bucket t k) ! j) w = Inr w'"
  shows "table_delete (Some t) (Some key) d w = Inr (0, Some (erased t k j), w')"
proof (rule write_guard [OF ready_shape [OF assms(1)], of "djb2 k"])
  fix L assume "pthread_rwlock_wrlock (locks t) (bucket_index (buckets_count t) (djb2 k)) = Inr (0, L)"
    "pthread_rwlock_unlock (bucket_index (buckets_count t) (djb2 k)) L = Inr (locks t)"
  with assms show ?thesis by (simp add: table_delete_def ready_simps erase_slot_def erased_def)
qed

lemma delete_missing:
  assumes "ready t key k" and "key_slot t k = None"
  shows "table_delete (Some t) (Some key) d w = Inr (- 1, Some t, w)"
proof (rule write_guard [OF ready_shape [OF assms(1)], of "djb2 k"])
  fix L assume "pthread_rwlock_wrlock (locks t) (bucket_index (buckets_count t) (djb2 k)) = Inr (0, L)"
    "pthread_rwlock_unlock (bucket_index (buckets_count t) (djb2 k)) L = Inr (locks t)"
  with assms show ?thesis by (simp add: table_delete_def ready_simps)
qed

lemma exist_result:
  assumes "ready t key k"
  shows "table_exist (Some t) (Some key) = Inr (table_lookup t k \<noteq> None, Some t)"
proof (rule read_guard [OF ready_shape [OF assms(1)], of "djb2 k"])
  fix L assume "pthread_rwlock_rdlock (locks t) (bucket_index (buckets_count t) (djb2 k)) = Inr (0, L)"
    "pthread_rwlock_unlock (bucket_index (buckets_count t) (djb2 k)) L = Inr (locks t)"
  with assms show ?thesis by (simp add: table_exist_def ready_simps table_lookup_slot)
qed

lemma get_missing:
  assumes "ready t key k" and "table_lookup t k = None \<or> table_lookup t k = Some NULL"
  shows "table_get (Some t) (Some key) (Some sz) w = Inr (NULL, Some t, w)"
proof (rule read_guard [OF ready_shape [OF assms(1)], of "djb2 k"])
  fix L assume "pthread_rwlock_rdlock (locks t) (bucket_index (buckets_count t) (djb2 k)) = Inr (0, L)"
    "pthread_rwlock_unlock (bucket_index (buckets_count t) (djb2 k)) L = Inr (locks t)"
  with assms show ?thesis
    by (auto simp: table_get_def ready_simps table_lookup_slot split: option.splits)
qed

lemma get_found:
  assumes "ready t key k" and "table_lookup t k = Some v" and "v \<noteq> NULL"
    and "sz v w = Inr n" and "n \<noteq> 0" and "memdup v n w = Inr (q, w')"
  shows "table_get (Some t) (Some key) (Some sz) w = Inr (q, Some t, w')"
proof (rule read_guard [OF ready_shape [OF assms(1)], of "djb2 k"])
  fix L assume "pthread_rwlock_rdlock (locks t) (bucket_index (buckets_count t) (djb2 k)) = Inr (0, L)"
    "pthread_rwlock_unlock (bucket_index (buckets_count t) (djb2 k)) L = Inr (locks t)"
  with assms show ?thesis
    by (auto simp: table_get_def ready_simps table_lookup_slot split: option.splits)
qed

section \<open>What the updates do to the map\<close>

lemma lookup_add:
  assumes "table_wf t" and "table_wf t'"
    and E: "entries (buckets t') = add_mset (djb2 k, k, v) (entries (buckets t))"
  shows "table_lookup t' = (table_lookup t)(k \<mapsto> v)"
proof (rule table_lookup_ext [OF assms(2)])
  have "k \<notin> entry_key ` set_mset (entries (buckets t))"
    using assms(2) by (simp add: table_wf_def E unique_keys_add)
  then have "(djb2 k, k, v') \<notin># entries (buckets t)" for v' by (force simp: image_iff)
  then show "((table_lookup t)(k \<mapsto> v)) x = Some y \<longleftrightarrow> (djb2 x, x, y) \<in># entries (buckets t')" for x y
    by (auto simp: E table_lookup_iff [OF assms(1)])
qed

lemma lookup_remove:
  assumes "table_wf t" and "table_wf t'"
    and E: "entries (buckets t) = add_mset (djb2 k, k, v) (entries (buckets t'))"
  shows "table_lookup t' = (table_lookup t)(k := None)"
proof
  fix x
  have "k \<notin> entry_key ` set_mset (entries (buckets t'))"
    using assms(1) by (simp add: table_wf_def E unique_keys_add)
  then have "(djb2 k, k, v') \<notin># entries (buckets t')" for v' by (force simp: image_iff)
  then have "table_lookup t' k = None"
    using table_lookup_iff [OF assms(2), of k] by (cases "table_lookup t' k") auto
  then show "table_lookup t' x = ((table_lookup t)(k := None)) x"
    by (simp add: lookup_add [OF assms(2,1) E])
qed

lemma lookup_replace:
  assumes "table_wf t" and "table_wf t'"
    and E: "add_mset (djb2 k, k, v0) (entries (buckets t')) = add_mset (djb2 k, k, v) (entries (buckets t))"
    and "table_lookup t k = Some v0"
  shows "table_lookup t' = (table_lookup t)(k \<mapsto> v)"
proof (rule table_lookup_ext [OF assms(2)])
  from assms(1,4) obtain R where R: "entries (buckets t) = add_mset (djb2 k, k, v0) R"
    by (auto simp: table_lookup_iff dest: mset_add)
  with E have E': "entries (buckets t') = add_mset (djb2 k, k, v) R" by simp
  have "k \<notin> entry_key ` set_mset R"
    using assms(1) by (simp add: table_wf_def R unique_keys_add)
  then have "(djb2 k, k, v') \<notin># R" for v' by (force simp: image_iff)
  then show "((table_lookup t)(k \<mapsto> v)) x = Some y \<longleftrightarrow> (djb2 x, x, y) \<in># entries (buckets t')" for x y
    by (auto simp: E' table_lookup_iff [OF assms(1)] R)
qed

section \<open>The updates keep the invariant\<close>

lemma key_slot_None_entries:
  assumes "table_wf t" and "key_slot t k = None"
  shows "k \<notin> entry_key ` set_mset (entries (buckets t))"
proof
  assume "k \<in> entry_key ` set_mset (entries (buckets t))"
  then obtain h v where e: "(h, k, v) \<in># entries (buckets t)" by (force simp: image_iff)
  with assms(1) have "h = djb2 k" by (fastforce simp: table_wf_def keyed_def)
  with e assms table_lookup_iff [OF assms(1), of k v] show False by (simp add: table_lookup_slot)
qed

lemma inserted_entries:
  assumes "ready t key k" and "free_slot t k = Some j"
  shows "entries (buckets (inserted t k j v)) = add_mset (djb2 k, take 254 k, v) (entries (buckets t))"
    and "bucket_shape (fill_slot (key_bucket t k) j (djb2 k) (copied_row (keys (key_bucket t k) ! j) k) v)"
    and "same_frame t (inserted t k j v)"
proof -
  let ?b = "key_bucket t k" and ?row = "copied_row (keys (key_bucket t k) ! j) k"
  have shape: "bucket_shape ?b" using assms(1) by (simp add: ready_def key_bucket_shape)
  have j: "j < 8" "in_use ?b ! j = 0" using free_slot_Some [OF assms(2)] by simp_all
  have row: "length (keys ?b ! j) = 255" using shape j by (simp add: bucket_shape_def)
  note row = copied_row_simps [OF conjunct2 [OF conjunct2 [OF ready_key [OF assms(1)]]] row]
  have new: "slot_entry (fill_slot ?b j (djb2 k) ?row v) i =
      (if i = j then {#(djb2 k, take 254 k, v)#} else slot_entry ?b i)" for i
    using shape j row by (simp add: slot_entry_fill)
  have old: "slot_entry ?b j = {#}" using j by (simp add: slot_entry_def)
  have "entries (buckets (with_bucket t k (fill_slot ?b j (djb2 k) ?row v))) + slot_entry ?b j =
      entries (buckets t) + slot_entry (fill_slot ?b j (djb2 k) ?row v) j"
    using assms(1) j(1) new by (intro with_bucket_entries) (auto simp: ready_def)
  then show "entries (buckets (inserted t k j v)) = add_mset (djb2 k, take 254 k, v) (entries (buckets t))"
    using old new by (simp add: inserted_def)
  show "bucket_shape (fill_slot ?b j (djb2 k) ?row v)" using shape row by (simp add: fill_slot_shape)
  show "same_frame t (inserted t k j v)" by (simp add: same_frame_def inserted_def with_bucket_def)
qed

lemma inserted_wf:
  assumes "table_wf t" and "ready t key k" and "key_slot t k = None" and "free_slot t k = Some j"
    and "length k < 255"
  shows "table_wf (inserted t k j v)"
    and "entries (buckets (inserted t k j v)) = add_mset (djb2 k, k, v) (entries (buckets t))"
proof -
  let ?b = "fill_slot (key_bucket t k) j (djb2 k) (copied_row (keys (key_bucket t k) ! j) k) v"
  note ins = inserted_entries [OF assms(2,4), of v]
  from ins(1) assms(5)
  show E: "entries (buckets (inserted t k j v)) = add_mset (djb2 k, k, v) (entries (buckets t))"
    by simp
  have j: "j < 8" using free_slot_Some [OF assms(4)] by simp
  have shape: "bucket_shape (key_bucket t k)" using assms(2) by (simp add: ready_def key_bucket_shape)
  have row: "length (keys (key_bucket t k) ! j) = 255" using shape j by (simp add: bucket_shape_def)
  note row = copied_row_simps [OF conjunct2 [OF conjunct2 [OF ready_key [OF assms(2)]]] row]
  have new: "slot_entry ?b i = (if i = j then {#(djb2 k, k, v)#} else slot_entry (key_bucket t k) i)" for i
    using shape j row assms(5) by (simp add: slot_entry_fill)
  have "unique_keys (entries (buckets (with_bucket t k ?b)))"
    using E assms(1) key_slot_None_entries [OF assms(1,3)]
    by (simp add: inserted_def unique_keys_add table_wf_def)
  then have "table_wf (with_bucket t k ?b\<lparr>elem_count := of_nat (size (entries (buckets (with_bucket t k ?b))))\<rparr>)"
    using new by (intro with_bucket_wf [OF assms(1) j ins(2)]) auto
  moreover have "elem_count t + 1 = of_nat (size (entries (buckets (with_bucket t k ?b))))"
    using E assms(1) by (simp add: inserted_def table_wf_def)
  ultimately show "table_wf (inserted t k j v)" by (simp add: inserted_def)
qed

lemma overwritten_wf:
  fixes v
  assumes "table_wf t" and "key_slot t k = Some j"
  defines "t' \<equiv> with_bucket t k (overwrite_slot (key_bucket t k) j v)"
    and "v0 \<equiv> slot_values (key_bucket t k) ! j"
  shows "table_wf t'" and "same_frame t t'"
    and "add_mset (djb2 k, k, v0) (entries (buckets t')) = add_mset (djb2 k, k, v) (entries (buckets t))"
proof -
  let ?b = "overwrite_slot (key_bucket t k) j v"
  note shape = table_wf_shape [OF assms(1)]
  have j: "j < 8" and has: "slot_has (key_bucket t k) (djb2 k) k j" using key_slot_Some [OF assms(2)] by auto
  have b: "bucket_shape (key_bucket t k)" using shape by (rule key_bucket_shape)
  have new: "slot_entry ?b i = (if i = j then {#(djb2 k, k, v)#} else slot_entry (key_bucket t k) i)" for i
    using b j has by (simp add: slot_entry_overwrite)
  have old: "slot_entry (key_bucket t k) j = {#(djb2 k, k, v0)#}"
    using has by (simp add: slot_has_entry v0_def)
  have "entries (buckets (with_bucket t k ?b)) + slot_entry (key_bucket t k) j =
      entries (buckets t) + slot_entry ?b j"
    using new by (intro with_bucket_entries [OF shape j]) auto
  then show E: "add_mset (djb2 k, k, v0) (entries (buckets t')) = add_mset (djb2 k, k, v) (entries (buckets t))"
    using new old by (simp add: t'_def)
  have keys: "image_mset entry_key (entries (buckets t')) = image_mset entry_key (entries (buckets t))"
    using arg_cong [OF E, of "image_mset entry_key"] by simp
  have size: "size (entries (buckets t')) = size (entries (buckets t))"
    using arg_cong [OF keys, of size] by simp
  have "unique_keys (entries (buckets t'))"
    using assms(1) by (simp add: table_wf_def unique_keys_def keys)
  then have "table_wf (with_bucket t k ?b\<lparr>elem_count := of_nat (size (entries (buckets (with_bucket t k ?b))))\<rparr>)"
    using new b by (intro with_bucket_wf [OF assms(1) j]) (auto simp: t'_def)
  moreover have "t'\<lparr>elem_count := of_nat (size (entries (buckets t')))\<rparr> = t'"
    using assms(1) size by (simp add: t'_def table_wf_def with_bucket_def)
  ultimately show "table_wf t'" by (simp add: t'_def)
  show "same_frame t t'" by (simp add: same_frame_def t'_def with_bucket_def)
qed

lemma erased_wf:
  assumes "table_wf t" and "key_slot t k = Some j"
  shows "table_wf (erased t k j)" and "same_frame t (erased t k j)"
    and "entries (buckets t) =
      add_mset (djb2 k, k, slot_values (key_bucket t k) ! j) (entries (buckets (erased t k j)))"
proof -
  let ?b = "erase_slot (key_bucket t k) j" and ?v = "slot_values (key_bucket t k) ! j"
  note shape = table_wf_shape [OF assms(1)]
  have j: "j < 8" and has: "slot_has (key_bucket t k) (djb2 k) k j" using key_slot_Some [OF assms(2)] by auto
  have b: "bucket_shape (key_bucket t k)" using shape by (rule key_bucket_shape)
  have new: "slot_entry ?b i = (if i = j then {#} else slot_entry (key_bucket t k) i)" for i
    using b j by (simp add: slot_entry_erase)
  have "entries (buckets (with_bucket t k ?b)) + slot_entry (key_bucket t k) j =
      entries (buckets t) + slot_entry ?b j"
    using new by (intro with_bucket_entries [OF shape j]) auto
  then show E: "entries (buckets t) = add_mset (djb2 k, k, ?v) (entries (buckets (erased t k j)))"
    using new slot_has_entry [OF has] by (simp add: erased_def)
  have "unique_keys (entries (buckets (with_bucket t k ?b)))"
    using assms(1) E by (simp add: table_wf_def unique_keys_add erased_def)
  then have "table_wf (with_bucket t k ?b\<lparr>elem_count := of_nat (size (entries (buckets (with_bucket t k ?b))))\<rparr>)"
    using new b by (intro with_bucket_wf [OF assms(1) j]) auto
  moreover have "elem_count t - 1 = of_nat (size (entries (buckets (with_bucket t k ?b))))"
    using E assms(1) by (simp add: table_wf_def erased_def)
  ultimately show "table_wf (erased t k j)" by (simp add: erased_def)
  show "same_frame t (erased t k j)" by (simp add: same_frame_def erased_def with_bucket_def)
qed

end
