(* ===== verification/Table_Resize.thy ===== *)
theory Table_Resize
  imports Table_Ops
begin

text \<open>
  Resizing: the rehash loops move every entry to the bucket its hash selects in the new array and lose
  none; a resize either succeeds with the same entries or leaves the table as it was. The lock array is
  not resized, so a table that grows past the size it was created with has buckets without a lock, and
  an operation on a key of such a bucket runs off the end of the lock array.
\<close>

section \<open>Placing one entry\<close>

lemma place_entry_fill:
  "place_entry b h row v is =
   map_option (\<lambda>k. fill_slot b k h row v) (find (\<lambda>k. in_use b ! k = 0) is)"
  by (induction "is") (simp_all add: fill_slot_def keys_values_order)

text \<open>An array of buckets under construction for a capacity.\<close>

definition array_ok :: "bucket list \<Rightarrow> size_t \<Rightarrow> bool" where
  "array_ok nb cap \<longleftrightarrow>
     length nb = unat cap \<and> is_pow2 cap \<and> (\<forall>b \<in> set nb. bucket_shape b) \<and> placed nb cap"

lemma array_ok_zero: "is_pow2 cap \<Longrightarrow> array_ok (replicate (unat cap) zero_bucket) cap"
  by (simp add: array_ok_def placed_def)

lemma mod_bucket_index: "is_pow2 cap \<Longrightarrow> unat (h mod cap) = bucket_index cap h"
  by (simp add: bucket_index_def is_pow2_and_eq_mod)

lemma array_index_less: "array_ok nb cap \<Longrightarrow> bucket_index cap h < length nb"
  by (simp add: array_ok_def bucket_index_def is_pow2_and_less)

lemma place_entry_array:
  assumes nb: "array_ok nb cap" and row: "length row = 255" "terminated row"
    and d: "place_entry (nb ! bucket_index cap h) h row v slots = Some d"
  shows "array_ok (nb[bucket_index cap h := d]) cap"
    and "entries (nb[bucket_index cap h := d]) = add_mset (h, cstr row, v) (entries nb)"
proof -
  let ?i = "bucket_index cap h"
  note i = array_index_less [OF nb, of h]
  from nb i have shape: "bucket_shape (nb ! ?i)" by (simp add: array_ok_def)
  from d obtain k where k: "k < 8" "in_use (nb ! ?i) ! k = 0" and d: "d = fill_slot (nb ! ?i) k h row v"
    by (auto simp: place_entry_fill dest: find_slots_Some)
  have new: "slot_entry d j = (if j = k then {#(h, cstr row, v)#} else slot_entry (nb ! ?i) j)" for j
    unfolding d using shape k(1) by (rule slot_entry_fill)
  have old: "slot_entry (nb ! ?i) k = {#}" using k by (simp add: slot_entry_def)
  show "entries (nb[?i := d]) = add_mset (h, cstr row, v) (entries nb)"
    using entries_update [OF i k(1), of d] new old by simp
  have "placed (nb[?i := d]) cap"
    using nb new by (intro placed_update [OF _ i k(1)]) (auto simp: array_ok_def)
  moreover have "bucket_shape d" unfolding d using shape row by (rule fill_slot_shape)
  ultimately show "array_ok (nb[?i := d]) cap"
    using nb by (auto simp: array_ok_def dest!: set_update_subset_insert [THEN subsetD])
qed

section \<open>The rehash loops\<close>

text \<open>The outcome of a rehash: the destination is full, or every entry of \<open>E\<close> was added.\<close>

definition rehashed :: "size_t \<Rightarrow> entry multiset \<Rightarrow> fault + bucket list option \<Rightarrow> bool" where
  "rehashed cap E r \<longleftrightarrow>
     r = Inr None \<or> (\<exists>nb. r = Inr (Some nb) \<and> array_ok nb cap \<and> entries nb = E)"

lemma rehashed_None [simp]: "rehashed cap E (Inr None)"
  by (simp add: rehashed_def)

lemma rehash_slots_spec:
  assumes b: "bucket_shape b" and "set js \<subseteq> {..<8}" and "array_ok nb cap"
  shows "rehashed cap (entries nb + sum_list (map (slot_entry b) js)) (rehash_slots b cap js nb)"
  using assms(2,3)
proof (induction js arbitrary: nb)
  case Nil
  then show ?case by (simp add: rehashed_def)
next
  case (Cons j js)
  show ?case
  proof (cases "in_use b ! j = 0")
    case True
    with Cons show ?thesis by (simp add: slot_entry_def)
  next
    case False
    let ?h = "hashes b ! j" and ?row = "keys b ! j" and ?v = "slot_values b ! j"
    have cap: "is_pow2 cap" using Cons.prems(2) by (simp add: array_ok_def)
    have row: "length ?row = 255" "terminated ?row"
      using b Cons.prems(1) nth_mem [of j "keys b"] by (auto simp: bucket_shape_def)
    have j: "slot_entry b j = {#(?h, cstr ?row, ?v)#}" using False by (simp add: slot_entry_def)
    let ?i = "bucket_index cap ?h"
    have cap0: "cap \<noteq> 0" using cap by (simp add: is_pow2_def)
    have step: "rehash_slots b cap (j # js) nb =
        (case place_entry (nb ! ?i) ?h ?row ?v slots of
           None \<Rightarrow> Inr None | Some d \<Rightarrow> rehash_slots b cap js (nb[?i := d]))"
      using False cap0 array_index_less [OF Cons.prems(2), of ?h]
      by (simp add: Let_def mod_bucket_index [OF cap] nth_bucket_def)
    show ?thesis
    proof (cases "place_entry (nb ! ?i) ?h ?row ?v slots")
      case None
      with step show ?thesis by simp
    next
      case (Some d)
      note placed = place_entry_array [OF Cons.prems(2) row Some]
      have "rehashed cap (entries (nb[?i := d]) + sum_list (map (slot_entry b) js))
          (rehash_slots b cap js (nb[?i := d]))"
        using Cons.prems(1) placed(1) by (intro Cons.IH) auto
      with placed(2) j show ?thesis by (simp only: step Some option.case list.map sum_list.Cons) simp
    qed
  qed
qed

lemma rehash_buckets_spec:
  assumes bs: "\<forall>b \<in> set bs. bucket_shape b" and "set is \<subseteq> {..<length bs}" and "array_ok nb cap"
  shows "rehashed cap (entries nb + sum_list (map (\<lambda>i. bucket_entries (bs ! i)) is))
    (rehash_buckets bs cap is nb)"
  using assms(2,3)
proof (induction "is" arbitrary: nb)
  case Nil
  then show ?case by (simp add: rehashed_def)
next
  case (Cons i "is")
  then have i: "i < length bs" "bucket_shape (bs ! i)" using bs by auto
  have "sum_list (map (slot_entry (bs ! i)) slots) = bucket_entries (bs ! i)"
    by (simp add: slots_def bucket_entries_def interv_sum_list_conv_sum_set_nat lessThan_atLeast0)
  then consider "rehash_slots (bs ! i) cap slots nb = Inr None"
    | nb' where "rehash_slots (bs ! i) cap slots nb = Inr (Some nb')" "array_ok nb' cap"
      "entries nb' = entries nb + bucket_entries (bs ! i)"
    using rehash_slots_spec [OF i(2) _ Cons.prems(2), of slots] by (auto simp: rehashed_def)
  then show ?case
  proof cases
    case 1
    with i show ?thesis by (simp add: nth_bucket_def)
  next
    case (2 nb')
    with Cons.IH [OF _ 2(2)] Cons.prems(1) i(1) show ?thesis
      by (simp add: nth_bucket_def add.assoc)
  qed
qed

lemma rehash_all:
  assumes "table_shape t" and "is_pow2 cap"
  shows "rehashed cap (entries (buckets t))
    (rehash_buckets (buckets t) cap [0..<unat (buckets_count t)] (replicate (unat cap) zero_bucket))"
proof -
  have "sum_list (map (\<lambda>i. bucket_entries (buckets t ! i)) [0..<unat (buckets_count t)]) = entries (buckets t)"
    using assms(1)
    by (simp add: entries_def table_shape_def interv_sum_list_conv_sum_set_nat lessThan_atLeast0)
  with rehash_buckets_spec [OF _ _ array_ok_zero [OF assms(2)], of "buckets t" "[0..<unat (buckets_count t)]"]
    assms(1) show ?thesis by (simp add: table_shape_def atLeast0LessThan)
qed

section \<open>The result of a resize\<close>

lemma adjust_capacity_pow2:
  "c \<noteq> 0 \<Longrightarrow> unat c \<le> 2 ^ 63 \<Longrightarrow> is_pow2 (adjust_capacity c)"
  using is_pow2_next_power_of_2 [of c] by (simp add: adjust_capacity_def is_pow2_def)

lemma adjust_capacity_id: "is_pow2 c \<Longrightarrow> adjust_capacity c = c"
  by (simp add: adjust_capacity_def is_pow2_def)

lemma adjust_capacity_wraps:
  assumes "2 ^ 63 < unat c"
  shows "adjust_capacity c = 0"
proof -
  have "\<not> is_pow2 c"
  proof
    assume "is_pow2 c"
    then obtain k where "k < 64" "unat c = 2 ^ k" by (auto simp: is_pow2_iff unat_pow2)
    moreover have "(2 :: nat) ^ k \<le> 2 ^ 63" using \<open>k < 64\<close> by (intro power_increasing) simp_all
    ultimately show False using assms by simp
  qed
  moreover have "c \<noteq> 0" using assms by auto
  ultimately show ?thesis
    using next_power_of_2_wraps [OF assms] by (simp add: adjust_capacity_def is_pow2_def)
qed

lemma write_all_guard:
  assumes "table_shape t"
  obtains L where "lock_all wr_acquire (unat (lock_count t)) (locks t) = Inr (0, L)"
    and "unlock_all (unat (lock_count t)) L = Inr (locks t)"
proof -
  have "locks t = idle (unat (lock_count t))" using assms by (simp add: table_shape_def)
  with wr.lock_all_idle [OF order_refl, of "unat (lock_count t)"] that show thesis by metis
qed

text \<open>The table with its entries in a new array.\<close>

definition resized_table :: "hashtable \<Rightarrow> ptr \<Rightarrow> bucket list \<Rightarrow> size_t \<Rightarrow> hashtable" where
  "resized_table t np nb cap = t\<lparr>buckets_ptr := np, buckets := nb, buckets_count := cap\<rparr>"

lemma resized_table_wf:
  assumes "table_wf t" and "array_ok nb cap" and "entries nb = entries (buckets t)"
  shows "table_wf (resized_table t np nb cap)"
  using assms by (simp add: table_wf_def table_shape_def array_ok_def resized_table_def)

text \<open>
  Every call with a request that can be rounded returns: either the table is as it was and the
  request failed (or asked for the present size), or it has the new size and the same entries; the old
  array is freed then, and a new array that is not used is freed too.
\<close>

lemma table_resize_cases:
  assumes wf: "table_wf t" and w: "world_ok w"
    and bp: "buckets_ptr t = Ptr a 0" "heap w a = Some []"
    and r: "requested \<noteq> 0" "unat requested \<le> 2 ^ 63"
  obtains (kept) rc w' where "table_resize (Some t) requested w = Inr (rc, Some t, w')"
      "rc = - 1 \<or> rc = 0 \<and> adjust_capacity requested = buckets_count t"
      "heap w' = heap w" "world_ok w'"
  | (resized) nb w' where
      "table_resize (Some t) requested w =
       Inr (0, Some (resized_table t (Ptr (fresh w) 0) nb (adjust_capacity requested)), w')"
      "array_ok nb (adjust_capacity requested)" "entries nb = entries (buckets t)"
      "heap w' = (heap w)(fresh w := Some [], a := None)" "world_ok w'"
proof -
  let ?cap = "adjust_capacity requested"
  have pow2: "is_pow2 ?cap" using r by (rule adjust_capacity_pow2)
  obtain L where L: "lock_all wr_acquire (unat (lock_count t)) (locks t) = Inr (0, L)"
    "unlock_all (unat (lock_count t)) L = Inr (locks t)"
    using table_wf_shape [OF wf] by (rule write_all_guard)
  consider "?cap = buckets_count t \<or> ?cap < elem_count t"
    | "?cap \<noteq> buckets_count t" "\<not> ?cap < elem_count t" by blast
  then show thesis
  proof cases
    case 1
    then show thesis
      using L r w by (intro kept [of "if ?cap = buckets_count t then 0 else - 1" w])
        (auto simp: table_resize_def Let_def)
  next
    case 2
    let ?r = "rehash_buckets (buckets t) ?cap [0..<unat (buckets_count t)]
      (replicate (unat ?cap) zero_bucket)"
    have r: "rehashed ?cap (entries (buckets t)) ?r"
      using table_wf_shape [OF wf] pow2 by (rule rehash_all)
    have fr: "heap w (fresh w) = None" using w by (rule world_ok_fresh)
    show thesis
    proof (cases rule: alloc_struct_cases [of "unat ?cap * sizeof_bucket" w])
      case (refused w')
      with 2 L assms(5) w show thesis
        by (intro kept [of "- 1" w']) (auto simp: table_resize_def Let_def world_ok_def)
    next
      case (granted w1)
      from r consider "?r = Inr None"
        | nb where "?r = Inr (Some nb)" "array_ok nb ?cap" "entries nb = entries (buckets t)"
        by (auto simp: rehashed_def)
      then show thesis
      proof cases
        case 1
        define w2 where "w2 = w1\<lparr>heap := heap w\<rparr>"
        have "free (Ptr (fresh w) 0) w1 = Inr w2"
          using granted fr by (simp add: free_def w2_def fun_upd_idem)
        with 1 2 L assms(5) granted w show thesis
          by (intro kept [of "- 1" w2])
             (auto simp: table_resize_def Let_def w2_def world_ok_def less_Suc_eq)
      next
        case (2 nb)
        define w2 where "w2 = w1\<lparr>heap := (heap w)(fresh w := Some [], a := None)\<rparr>"
        have "a \<noteq> fresh w" using bp(2) fr by auto
        then have "free (buckets_ptr t) w1 = Inr w2"
          using granted bp by (simp add: free_def w2_def)
        with 2 \<open>?cap \<noteq> buckets_count t\<close> \<open>\<not> ?cap < elem_count t\<close> L assms(5) granted w show thesis
          by (intro resized [of nb w2])
             (auto simp: table_resize_def resized_table_def Let_def w2_def world_ok_def less_Suc_eq)
      qed
    qed
  qed
qed

section \<open>Buckets without locks\<close>

text \<open>
  Every keyed operation takes the lock of the key's bucket first. Where that bucket has no lock, the
  call leaves the lock array, whatever the table holds.
\<close>

definition lockless :: "hashtable \<Rightarrow> cbuf \<Rightarrow> bool" where
  "lockless t key \<longleftrightarrow> terminated key \<and> length (locks t) \<le> bucket_index (buckets_count t) (djb2 (cstr key))"

lemma lockless_get: "lockless t key \<Longrightarrow> table_get (Some t) (Some key) (Some sz) w = Inl LockOverrun"
  by (simp add: lockless_def table_get_def hash_terminated pthread_rwlock_rdlock_def rd.acquire_overrun Let_def)

lemma lockless_exist: "lockless t key \<Longrightarrow> table_exist (Some t) (Some key) = Inl LockOverrun"
  by (simp add: lockless_def table_exist_def hash_terminated pthread_rwlock_rdlock_def rd.acquire_overrun Let_def)

lemma lockless_delete: "lockless t key \<Longrightarrow> table_delete (Some t) (Some key) d w = Inl LockOverrun"
  by (simp add: lockless_def table_delete_def hash_terminated pthread_rwlock_wrlock_def wr.acquire_overrun Let_def)

lemma lockless_replace: "lockless t key \<Longrightarrow> table_replace (Some t) (Some key) v d w = Inl LockOverrun"
  by (simp add: lockless_def table_replace_def hash_terminated pthread_rwlock_wrlock_def wr.acquire_overrun Let_def)

lemma lockless_add: "lockless t key \<Longrightarrow> table_add (Some t) (Some key) v = Inl LockOverrun"
  by (simp add: lockless_def table_add_def hash_terminated pthread_rwlock_wrlock_def wr.acquire_overrun Let_def)

lemma lockless_set:
  "lockless t key \<Longrightarrow> length (cstr key) < 255 \<Longrightarrow> table_set (Some t) (Some key) v d w = Inl LockOverrun"
  by (simp add: lockless_def table_set_def hash_terminated ustrlen_terminated key_len_ok
      pthread_rwlock_wrlock_def wr.acquire_overrun Let_def)

end
