(* ===== verification/Table_Values.thy ===== *)
theory Table_Values
  imports Table_Resize
begin

text \<open>
  The table together with the values it owns. The table calls back into its client to free a value and
  to size one; the locale \<open>value_callbacks\<close> states what it relies on, and inside it each operation is
  specified on the contents of the database: the bytes each key maps to, which blocks are freed, and the
  ownership invariant (every stored value is a live block of its own).
\<close>

section \<open>Ownership\<close>

definition owns :: "(byte list \<Rightarrow> bool) \<Rightarrow> world \<Rightarrow> entry multiset \<Rightarrow> bool" where
  "owns valid w E \<longleftrightarrow>
     (\<forall>e \<in># E. \<exists>a bs. entry_value e = Ptr a 0 \<and> heap w a = Some bs \<and> valid bs) \<and>
     (\<forall>v. count (image_mset entry_value E) v \<le> 1)"

definition structs_ok :: "world \<Rightarrow> hashtable \<Rightarrow> bool" where
  "structs_ok w t \<longleftrightarrow>
     (\<exists>a b c. table_ptr t = Ptr a 0 \<and> buckets_ptr t = Ptr b 0 \<and> locks_ptr t = Ptr c 0 \<and>
        heap w a = Some [] \<and> heap w b = Some [] \<and> heap w c = Some [] \<and> a \<noteq> b \<and> a \<noteq> c \<and> b \<noteq> c)"

definition db_ok :: "(byte list \<Rightarrow> bool) \<Rightarrow> world \<Rightarrow> hashtable \<Rightarrow> bool" where
  "db_ok valid w t \<longleftrightarrow>
     world_ok w \<and> table_wf t \<and> structs_ok w t \<and> owns valid w (entries (buckets t))"

text \<open>The database as a map from key strings to the bytes of the stored block.\<close>

definition contents :: "world \<Rightarrow> hashtable \<Rightarrow> byte list \<Rightarrow> byte list option" where
  "contents w t k = map_option (block w) (table_lookup t k)"

text \<open>The heap with the values of some entries freed.\<close>

definition heap_without ::
    "(nat \<Rightarrow> byte list option) \<Rightarrow> entry multiset \<Rightarrow> (nat \<Rightarrow> byte list option)" where
  "heap_without h F = (\<lambda>a. if Ptr a 0 \<in> entry_value ` set_mset F then None else h a)"

lemma heap_without_empty [simp]: "heap_without h {#} = h"
  by (simp add: heap_without_def)

lemma heap_without_add:
  "entry_value e = Ptr a 0 \<Longrightarrow> heap_without h (add_mset e F) = (heap_without h F)(a := None)"
  by (auto simp: heap_without_def fun_eq_iff)

lemma db_ok_simps:
  assumes "db_ok valid w t"
  shows "world_ok w" "table_wf t" "structs_ok w t" "owns valid w (entries (buckets t))" "table_shape t"
  using assms by (simp_all add: db_ok_def table_wf_def)

lemma owns_add:
  "owns valid w (add_mset e E) \<longleftrightarrow>
   owns valid w E \<and> (\<exists>a bs. entry_value e = Ptr a 0 \<and> heap w a = Some bs \<and> valid bs) \<and>
   entry_value e \<notin> entry_value ` set_mset E"
  unfolding owns_def count_image_add_le by auto

lemma owns_mono: "owns valid w E \<Longrightarrow> F \<subseteq># E \<Longrightarrow> owns valid w F"
  unfolding owns_def
  by (meson image_mset_subseteq_mono le_trans mset_subset_eq_count mset_subset_eqD)

lemma owns_heap:
  "owns valid w E \<Longrightarrow> (\<And>a bs. heap w a = Some bs \<Longrightarrow> Ptr a 0 \<in> entry_value ` set_mset E \<Longrightarrow> heap w' a = Some bs) \<Longrightarrow>
   owns valid w' E"
  unfolding owns_def by (metis image_eqI)

text \<open>A value not yet freed is still live.\<close>

lemma owns_remaining:
  assumes "owns valid w E" and "add_mset e F \<subseteq># E" and "heap w' = heap_without (heap w) F"
  obtains a bs where "entry_value e = Ptr a 0" and "heap w' a = Some bs" and "valid bs"
  using owns_mono [OF assms(1,2)] assms(3) by (auto simp: owns_add heap_without_def)

lemma sum_mset_prefix: "i \<le> n \<Longrightarrow> (\<Sum>m < i. f m) \<subseteq># (\<Sum>m < n. f (m :: nat) :: 'a multiset)"
proof (induction n)
  case (Suc n)
  then show ?case
    by (cases "i = Suc n") (auto intro: subset_mset.order_trans)
qed simp

lemma sum_mset_prefix_next: "i < n \<Longrightarrow> (\<Sum>m < i. f m) + f i \<subseteq># (\<Sum>m < n. f (m :: nat) :: 'a multiset)"
  using sum_mset_prefix [of "Suc i" n f] by simp

section \<open>How the world may change around a table\<close>

lemma structs_ok_heap:
  assumes "structs_ok w t" and "same_frame t t'"
    and "\<And>a. heap w a = Some [] \<Longrightarrow> heap w' a = Some []"
  shows "structs_ok w' t'"
  using assms unfolding structs_ok_def same_frame_def by metis

lemma contents_update:
  assumes "table_lookup t' = (table_lookup t)(k := x)"
    and "\<And>k' v. k' \<noteq> k \<Longrightarrow> table_lookup t k' = Some v \<Longrightarrow> block w' v = block w v"
  shows "contents w' t' = (contents w t)(k := map_option (block w') x)"
  using assms by (auto simp: contents_def fun_eq_iff map_option_case split: option.splits)

lemma contents_None: "contents w t k = None \<longleftrightarrow> table_lookup t k = None"
  by (simp add: contents_def)

lemma contents_slot: "contents w t k = None \<longleftrightarrow> key_slot t k = None"
  by (simp add: contents_None table_lookup_slot)

lemma same_frame_refl [simp]: "same_frame t t"
  by (simp add: same_frame_def)

text \<open>An entry of an owned table, taken out of the multiset: its block, and the rest.\<close>

lemma owns_take:
  assumes "owns valid w (add_mset e R)"
  obtains a bs where "entry_value e = Ptr a 0" and "heap w a = Some bs" and "valid bs"
    and "owns valid (w\<lparr>heap := (heap w)(a := None)\<rparr>) R" and "Ptr a 0 \<notin> entry_value ` set_mset R"
proof -
  from assms obtain a bs where a: "entry_value e = Ptr a 0" "heap w a = Some bs" "valid bs"
    and R: "owns valid w R" "Ptr a 0 \<notin> entry_value ` set_mset R" by (auto simp: owns_add)
  have "owns valid (w\<lparr>heap := (heap w)(a := None)\<rparr>) R"
    using R(1) by (rule owns_heap) (use R(2) in auto)
  with a R that show thesis by blast
qed

lemma world_ok_free: "world_ok w \<Longrightarrow> world_ok (w\<lparr>heap := (heap w)(a := None)\<rparr>)"
  by (auto simp: world_ok_def)

lemma owned_block:
  assumes "db_ok valid w t" and "table_lookup t k = Some v"
  obtains a bs where "v = Ptr a 0" and "heap w a = Some bs" and "valid bs" and "contents w t k = Some bs"
proof -
  have "(djb2 k, k, v) \<in># entries (buckets t)"
    using assms(2) by (simp add: table_lookup_iff [OF db_ok_simps(2) [OF assms(1)]])
  with db_ok_simps(4) [OF assms(1)] obtain a bs where a: "v = Ptr a 0" "heap w a = Some bs" "valid bs"
    unfolding owns_def by fastforce
  with assms(2) have "contents w t k = Some bs" by (simp add: contents_def block_def)
  with a that show thesis by blast
qed

lemma contents_valid:
  assumes "db_ok valid w t" and "contents w t k = Some bs"
  shows "valid bs"
proof -
  from assms(2) obtain v where v: "table_lookup t k = Some v" by (auto simp: contents_def)
  obtain a bs' where "valid bs'" "contents w t k = Some bs'" by (rule owned_block [OF assms(1) v])
  with assms(2) show ?thesis by simp
qed

lemma distinct_values:
  assumes "db_ok valid w t" and "table_lookup t k = Some v" and "table_lookup t k' = Some v"
  shows "k' = k"
proof (rule ccontr)
  assume "k' \<noteq> k"
  have "(djb2 k, k, v) \<in># entries (buckets t)" and k': "(djb2 k', k', v) \<in># entries (buckets t)"
    using assms(2,3) by (simp_all add: table_lookup_iff [OF db_ok_simps(2) [OF assms(1)]])
  from this(1) obtain R where R: "entries (buckets t) = add_mset (djb2 k, k, v) R" by (rule mset_add)
  with k' \<open>k' \<noteq> k\<close> have "(djb2 k', k', v) \<in># R" by simp
  then have "v \<in> entry_value ` set_mset R" by (rule rev_image_eqI) simp
  moreover have "v \<notin> entry_value ` set_mset R"
    using db_ok_simps(4) [OF assms(1)] by (simp add: R owns_add)
  ultimately show False by simp
qed

text \<open>
  The blocks of the table (its three structs and its values), and the memory outside of it: what the
  rest of the program sees, and what must be left when the table is gone.
\<close>

definition struct_ptrs :: "hashtable \<Rightarrow> ptr set" where
  "struct_ptrs t = {table_ptr t, buckets_ptr t, locks_ptr t}"

definition footprint :: "hashtable \<Rightarrow> ptr set" where
  "footprint t = struct_ptrs t \<union> entry_value ` set_mset (entries (buckets t))"

definition outside :: "world \<Rightarrow> hashtable \<Rightarrow> nat \<Rightarrow> byte list option" where
  "outside w t a = (if Ptr a 0 \<in> footprint t then None else heap w a)"

lemma struct_frame: "same_frame t t' \<Longrightarrow> struct_ptrs t' = struct_ptrs t"
  by (simp add: struct_ptrs_def same_frame_simps)

lemma struct_ptrs_update [simp]:
  "struct_ptrs (t\<lparr>buckets := bs, elem_count := n\<rparr>) = struct_ptrs t"
  by (simp add: struct_ptrs_def)

text \<open>Replacing the value of one entry, in the table and in the heap.\<close>

lemma outside_replace:
  assumes "same_frame t t'" and "entries (buckets t) = add_mset e R" and "entries (buckets t') = add_mset e' R"
    and "entry_value e = Ptr a0 0" and "entry_value e' = Ptr a 0"
  shows "outside (w\<lparr>heap := (heap w)(a0 := None)\<rparr>) t' = (outside w t)(a := None)"
  by (rule ext) (auto simp: outside_def footprint_def struct_frame [OF assms(1)] assms(2-5))

lemma outside_insert:
  assumes "same_frame t t'" and "entries (buckets t') = add_mset e (entries (buckets t))"
    and "entry_value e = Ptr a 0"
  shows "outside w t' = (outside w t)(a := None)"
  by (rule ext) (auto simp: outside_def footprint_def struct_frame [OF assms(1)] assms(2-3))

lemma outside_remove:
  assumes "same_frame t t'" and "entries (buckets t) = add_mset e (entries (buckets t'))"
    and "entry_value e = Ptr a 0"
  shows "outside (w\<lparr>heap := (heap w)(a := None)\<rparr>) t' = outside w t"
  by (rule ext) (auto simp: outside_def footprint_def struct_frame [OF assms(1)] assms(2-3))

lemma fresh_footprint:
  assumes "db_ok valid w t"
  shows "Ptr (fresh w) 0 \<notin> footprint t"
proof
  assume "Ptr (fresh w) 0 \<in> footprint t"
  then have "heap w (fresh w) \<noteq> None"
    using db_ok_simps(3,4) [OF assms] unfolding footprint_def struct_ptrs_def structs_ok_def owns_def by fastforce
  with world_ok_fresh [OF db_ok_simps(1) [OF assms]] show False by simp
qed

lemma outside_grows: "(\<And>a. heap w a \<noteq> None \<Longrightarrow> heap w' a = heap w a) \<Longrightarrow> outside w t \<subseteq>\<^sub>m outside w' t"
  by (simp add: map_le_def outside_def dom_def)

text \<open>Allocating a block elsewhere, or an allocation refused, leaves the database as it is.\<close>

lemma db_ok_alloc:
  assumes db: "db_ok valid w t" and h: "heap w' = (heap w)(fresh w := Some bs)" and f: "fresh w' = Suc (fresh w)"
  shows "db_ok valid w' t" and "contents w' t = contents w t"
    and "outside w' t = (outside w t)(fresh w := Some bs)"
proof -
  have fr: "heap w (fresh w) = None" using db_ok_simps(1) [OF db] by (rule world_ok_fresh)
  have keep: "heap w' a = Some cs" if "heap w a = Some cs" for a cs using that fr h by auto
  have "structs_ok w' t" using db_ok_simps(3) [OF db] same_frame_refl keep by (rule structs_ok_heap)
  moreover have "owns valid w' (entries (buckets t))" using db_ok_simps(4) [OF db] keep by (rule owns_heap)
  moreover have "world_ok w'" using db_ok_simps(1) [OF db] h f by (auto simp: world_ok_def less_Suc_eq)
  ultimately show "db_ok valid w' t" using db_ok_simps(2) [OF db] by (simp add: db_ok_def)
  show "contents w' t = contents w t"
  proof
    fix k
    show "contents w' t k = contents w t k"
    proof (cases "table_lookup t k")
      case (Some v)
      obtain a cs where "v = Ptr a 0" "heap w a = Some cs" by (rule owned_block [OF db Some])
      with keep Some show ?thesis by (simp add: contents_def block_def)
    qed (simp add: contents_def)
  qed
  show "outside w' t = (outside w t)(fresh w := Some bs)" using fresh_footprint [OF db] by (auto simp: outside_def h fun_eq_iff)
qed

lemma db_ok_same_heap:
  assumes "db_ok valid w t" and "heap w' = heap w" and "fresh w' = fresh w"
  shows "db_ok valid w' t" and "contents w' t = contents w t" and "outside w' t = outside w t"
proof -
  have b: "block w' = block w" by (simp add: block_def assms(2) fun_eq_iff split: ptr.splits)
  show "db_ok valid w' t" using assms by (simp add: db_ok_def world_ok_def structs_ok_def owns_def)
  show "contents w' t = contents w t" by (rule ext) (simp only: contents_def b)
  show "outside w' t = outside w t" by (simp add: outside_def assms(2) fun_eq_iff)
qed

text \<open>A new value: a live block the table does not hold yet.\<close>

definition new_value :: "(byte list \<Rightarrow> bool) \<Rightarrow> world \<Rightarrow> hashtable \<Rightarrow> nat \<Rightarrow> byte list \<Rightarrow> bool" where
  "new_value valid w t a bs \<longleftrightarrow>
     heap w a = Some bs \<and> valid bs \<and> Ptr a 0 \<notin> entry_value ` set_mset (entries (buckets t))"

text \<open>Freeing the block of one key leaves the blocks of the others.\<close>

lemma other_block:
  assumes "db_ok valid w t" and "table_lookup t k = Some (Ptr a 0)"
    and "k' \<noteq> k" and "table_lookup t k' = Some v"
  shows "block (w\<lparr>heap := (heap w)(a := None)\<rparr>) v = block w v"
proof -
  obtain b where "v = Ptr b 0" using owned_block [OF assms(1,4)] by auto
  with distinct_values [OF assms(1,2), of k'] assms(3,4) show ?thesis by (auto simp: block_def)
qed

section \<open>The contract of the value callbacks\<close>

locale value_callbacks =
  fixes destroy :: destroyer and sizer :: sizer and valid :: "byte list \<Rightarrow> bool"
  assumes valid_nonempty: "valid bs \<Longrightarrow> bs \<noteq> []"
    and destroy_ok: "heap w a = Some bs \<Longrightarrow> valid bs \<Longrightarrow>
      destroy (Ptr a 0) w = Inr (w\<lparr>heap := (heap w)(a := None)\<rparr>)"
    and sizer_ok: "heap w a = Some bs \<Longrightarrow> valid bs \<Longrightarrow>
      \<exists>n. sizer (Ptr a 0) w = Inr n \<and> unat n = length bs"
begin

lemma structs_ok_destroy:
  assumes "structs_ok w t" and "same_frame t t'" and "heap w a = Some bs" and "valid bs"
  shows "structs_ok (w\<lparr>heap := (heap w)(a := None)\<rparr>) t'"
  using assms(1,2) by (rule structs_ok_heap) (use assms(3,4) valid_nonempty in auto)

text \<open>Exist and get report the contents and leave the table as it was.\<close>

lemma exist_ok:
  "ready t key k \<Longrightarrow> table_exist (Some t) (Some key) = Inr (contents w t k \<noteq> None, Some t)"
  by (simp add: exist_result contents_None)

lemma get_absent:
  "ready t key k \<Longrightarrow> contents w t k = None \<Longrightarrow>
   table_get (Some t) (Some key) (Some sizer) w = Inr (NULL, Some t, w)"
  by (simp add: get_missing contents_None)

lemma get_present:
  assumes db: "db_ok valid w t" and r: "ready t key k" and bs: "contents w t k = Some bs"
  obtains (refused) w' where "table_get (Some t) (Some key) (Some sizer) w = Inr (NULL, Some t, w')"
      "heap w' = heap w" "fresh w' = fresh w" "fst (malloc (of_nat (length bs)) w) = NULL"
      "sys_fails w' = tl (sys_fails w)"
  | (copied) w' where "table_get (Some t) (Some key) (Some sizer) w = Inr (Ptr (fresh w) 0, Some t, w')"
      "heap w' = (heap w)(fresh w := Some bs)" "fresh w' = Suc (fresh w)" "sys_fails w' = tl (sys_fails w)"
proof -
  from bs obtain v where v: "table_lookup t k = Some v" by (auto simp: contents_def)
  obtain a where a: "v = Ptr a 0" "heap w a = Some bs" "valid bs"
    using owned_block [OF db v] bs by auto
  obtain n where n: "sizer v w = Inr n" "unat n = length bs"
    using sizer_ok [OF a(2,3)] a(1) by auto
  have n': "of_nat (length bs) = n" by (simp flip: n(2))
  have "n \<noteq> 0" using n(2) valid_nonempty [OF a(3)] by auto
  have ld: "load v (unat n) w = Inr bs" using a n(2) by (simp add: load_def)
  show thesis
  proof (rule memdup_spec [OF db_ok_simps(1) [OF db] ld])
    fix w' assume "memdup v n w = Inr (NULL, w')" "heap w' = heap w" "fresh w' = fresh w"
      "fst (malloc n w) = NULL" "sys_fails w' = tl (sys_fails w)"
    with get_found [where t = t and key = key and sz = sizer and w = w and n = n] r v a(1) n(1) \<open>n \<noteq> 0\<close>
      refused n' show thesis by simp
  next
    fix w' assume "memdup v n w = Inr (Ptr (fresh w) 0, w')"
      "heap w' = (heap w)(fresh w := Some bs)" "fresh w' = Suc (fresh w)" "sys_fails w' = tl (sys_fails w)"
    with get_found [where t = t and key = key and sz = sizer and w = w and n = n] r v a(1) n(1) \<open>n \<noteq> 0\<close>
      copied show thesis by simp
  qed
qed

text \<open>Overwriting the value of a present key frees the old block; both set and replace do this.\<close>

lemma overwrite_ok:
  assumes db: "db_ok valid w t" and j: "key_slot t k = Some j" and new: "new_value valid w t a bs"
  defines "t' \<equiv> with_bucket t k (overwrite_slot (key_bucket t k) j (Ptr a 0))"
  obtains w' where "call_destroyer (Some destroy) (slot_values (key_bucket t k) ! j) w = Inr w'"
    and "db_ok valid w' t'" and "same_frame t t'" and "contents w' t' = (contents w t)(k \<mapsto> bs)"
    and "outside w' t' = (outside w t)(a := None)"
    and "sys_fails w' = sys_fails w"
proof -
  note ow = overwritten_wf [OF db_ok_simps(2) [OF db] j, of "Ptr a 0", folded t'_def]
  define v0 where "v0 = slot_values (key_bucket t k) ! j"
  have lk: "table_lookup t k = Some v0" by (simp add: table_lookup_slot j v0_def)
  then have "(djb2 k, k, v0) \<in># entries (buckets t)"
    by (simp add: table_lookup_iff [OF db_ok_simps(2) [OF db]])
  then obtain R where R: "entries (buckets t) = add_mset (djb2 k, k, v0) R" by (rule mset_add)
  with ow(3) have E': "entries (buckets t') = add_mset (djb2 k, k, Ptr a 0) R"
    by (simp add: v0_def)
  have "owns valid w (add_mset (djb2 k, k, v0) R)" using db_ok_simps(4) [OF db] R by simp
  then obtain a0 bs0 where a0: "v0 = Ptr a0 0" "heap w a0 = Some bs0" "valid bs0"
    and R': "owns valid (w\<lparr>heap := (heap w)(a0 := None)\<rparr>) R" "Ptr a0 0 \<notin> entry_value ` set_mset R"
    by (rule owns_take) auto
  let ?w = "w\<lparr>heap := (heap w)(a0 := None)\<rparr>"
  have neq: "a \<noteq> a0" "Ptr a 0 \<notin> entry_value ` set_mset R" using new a0(1) R by (auto simp: new_value_def)
  have "owns valid ?w (entries (buckets t'))"
    using R' neq new by (auto simp: E' owns_add new_value_def)
  moreover have "structs_ok ?w t'"
    using structs_ok_destroy [OF db_ok_simps(3) [OF db] ow(2) a0(2,3)] .
  ultimately have "db_ok valid ?w t'"
    using ow(1) db_ok_simps(1) [OF db] by (simp add: db_ok_def world_ok_free)
  moreover have "table_lookup t' = (table_lookup t)(k \<mapsto> Ptr a 0)"
    using db_ok_simps(2) [OF db] ow(1) ow(3) lk unfolding v0_def by (rule lookup_replace)
  then have "contents ?w t' = (contents w t)(k := map_option (block ?w) (Some (Ptr a 0)))"
    by (rule contents_update) (use other_block [OF db lk [unfolded a0(1)]] in auto)
  then have "contents ?w t' = (contents w t)(k \<mapsto> bs)"
    using new neq by (simp add: block_def new_value_def)
  moreover have "call_destroyer (Some destroy) (slot_values (key_bucket t k) ! j) w = Inr ?w"
    using destroy_ok [OF a0(2,3)] a0(1) by (simp add: call_destroyer_def flip: v0_def)
  moreover have "outside ?w t' = (outside w t)(a := None)"
    using ow(2) R E' by (rule outside_replace) (simp_all add: a0(1))
  ultimately show thesis using ow(2) by (intro that [of ?w]) simp_all
qed

text \<open>Storing under a key that is absent.\<close>

lemma insert_ok:
  assumes db: "db_ok valid w t" and r: "ready t key k" and len: "length k < 255"
    and absent: "key_slot t k = None" and j: "free_slot t k = Some j" and new: "new_value valid w t a bs"
  shows "db_ok valid w (inserted t k j (Ptr a 0))" and "same_frame t (inserted t k j (Ptr a 0))"
    and "contents w (inserted t k j (Ptr a 0)) = (contents w t)(k \<mapsto> bs)"
    and "outside w (inserted t k j (Ptr a 0)) = (outside w t)(a := None)"
proof -
  let ?t = "inserted t k j (Ptr a 0)"
  note wf = inserted_wf [OF db_ok_simps(2) [OF db] r absent j len, of "Ptr a 0"]
  show frame: "same_frame t ?t" by (rule inserted_entries(3) [OF r j])
  show "outside w ?t = (outside w t)(a := None)"
    using frame wf(2) by (rule outside_insert) simp
  have "owns valid w (entries (buckets ?t))"
    using db_ok_simps(4) [OF db] new by (auto simp: wf(2) owns_add new_value_def)
  moreover have "structs_ok w ?t" using db_ok_simps(3) [OF db] frame by (rule structs_ok_heap)
  ultimately show "db_ok valid w ?t" using wf(1) db_ok_simps(1) [OF db] by (simp add: db_ok_def)
  have "table_lookup ?t = (table_lookup t)(k \<mapsto> Ptr a 0)"
    using db_ok_simps(2) [OF db] wf by (rule lookup_add)
  then have "contents w ?t = (contents w t)(k := map_option (block w) (Some (Ptr a 0)))"
    by (rule contents_update) simp
  then show "contents w ?t = (contents w t)(k \<mapsto> bs)" using new by (simp add: block_def new_value_def)
qed

lemma set_ok:
  assumes db: "db_ok valid w t" and r: "ready t key k" and len: "length k < 255"
    and new: "new_value valid w t a bs"
  obtains (stored) t' w' where "table_set (Some t) (Some key) (Ptr a 0) (Some destroy) w = Inr (0, Some t', w')"
      "db_ok valid w' t'" "same_frame t t'" "contents w' t' = (contents w t)(k \<mapsto> bs)"
      "outside w' t' = (outside w t)(a := None)" "sys_fails w' = sys_fails w"
      "contents w t k \<noteq> None \<or> free_slot t k \<noteq> None"
  | (full) "table_set (Some t) (Some key) (Ptr a 0) (Some destroy) w = Inr (- 2, Some t, w)"
      "contents w t k = None" "free_slot t k = None"
proof (cases "key_slot t k")
  case (Some j)
  obtain w' where "call_destroyer (Some destroy) (slot_values (key_bucket t k) ! j) w = Inr w'"
    "db_ok valid w' (with_bucket t k (overwrite_slot (key_bucket t k) j (Ptr a 0)))"
    "same_frame t (with_bucket t k (overwrite_slot (key_bucket t k) j (Ptr a 0)))"
    "contents w' (with_bucket t k (overwrite_slot (key_bucket t k) j (Ptr a 0))) = (contents w t)(k \<mapsto> bs)"
    "outside w' (with_bucket t k (overwrite_slot (key_bucket t k) j (Ptr a 0))) = (outside w t)(a := None)"
    "sys_fails w' = sys_fails w"
    using db Some new by (rule overwrite_ok)
  moreover have "contents w t k \<noteq> None" using Some by (simp add: contents_slot)
  ultimately show thesis using set_found [OF r Some len] stored by blast
next
  case None
  show thesis
  proof (cases "free_slot t k")
    case (Some j)
    then have "free_slot t k \<noteq> None" by simp
    with set_fresh [OF r None len Some] insert_ok [OF db r len None Some new] stored show thesis by blast
  next
    case None': None
    with set_full [OF r None len None'] None full show thesis by (simp add: contents_slot)
  qed
qed

lemma add_ok:
  assumes db: "db_ok valid w t" and r: "ready t key k" and len: "length k < 255"
    and new: "new_value valid w t a bs"
  obtains (stored) t' where "table_add (Some t) (Some key) (Ptr a 0) = Inr (0, Some t')"
      "contents w t k = None" "db_ok valid w t'" "same_frame t t'" "contents w t' = (contents w t)(k \<mapsto> bs)"
      "outside w t' = (outside w t)(a := None)" "free_slot t k \<noteq> None"
  | (present) "table_add (Some t) (Some key) (Ptr a 0) = Inr (- 3, Some t)" "contents w t k \<noteq> None"
  | (full) "table_add (Some t) (Some key) (Ptr a 0) = Inr (- 2, Some t)"
      "contents w t k = None" "free_slot t k = None"
proof (cases "key_slot t k")
  case (Some j)
  with add_found [OF r Some] present show thesis by (simp add: contents_slot)
next
  case None
  show thesis
  proof (cases "free_slot t k")
    case (Some j)
    with add_fresh [OF r None Some] insert_ok [OF db r len None Some new] stored None show thesis
      by (simp add: contents_slot)
  next
    case None': None
    with add_full [OF r None None'] None full show thesis by (simp add: contents_slot)
  qed
qed

lemma replace_ok:
  assumes db: "db_ok valid w t" and r: "ready t key k" and new: "new_value valid w t a bs"
  obtains (stored) t' w' where "table_replace (Some t) (Some key) (Ptr a 0) (Some destroy) w = Inr (0, Some t', w')"
      "contents w t k \<noteq> None" "db_ok valid w' t'" "same_frame t t'" "contents w' t' = (contents w t)(k \<mapsto> bs)"
      "outside w' t' = (outside w t)(a := None)" "sys_fails w' = sys_fails w"
  | (absent) "table_replace (Some t) (Some key) (Ptr a 0) (Some destroy) w = Inr (- 2, Some t, w)"
      "contents w t k = None"
proof (cases "key_slot t k")
  case (Some j)
  obtain w' where "call_destroyer (Some destroy) (slot_values (key_bucket t k) ! j) w = Inr w'"
    "db_ok valid w' (with_bucket t k (overwrite_slot (key_bucket t k) j (Ptr a 0)))"
    "same_frame t (with_bucket t k (overwrite_slot (key_bucket t k) j (Ptr a 0)))"
    "contents w' (with_bucket t k (overwrite_slot (key_bucket t k) j (Ptr a 0))) = (contents w t)(k \<mapsto> bs)"
    "outside w' (with_bucket t k (overwrite_slot (key_bucket t k) j (Ptr a 0))) = (outside w t)(a := None)"
    "sys_fails w' = sys_fails w"
    using db Some new by (rule overwrite_ok)
  with replace_found [OF r Some] stored Some show thesis by (simp add: contents_slot)
next
  case None
  with replace_missing [OF r None] absent show thesis by (simp add: contents_slot)
qed

lemma delete_ok:
  assumes db: "db_ok valid w t" and r: "ready t key k"
  obtains (deleted) t' w' where "table_delete (Some t) (Some key) (Some destroy) w = Inr (0, Some t', w')"
      "contents w t k \<noteq> None" "db_ok valid w' t'" "same_frame t t'"
      "contents w' t' = (contents w t)(k := None)" "outside w' t' = outside w t" "sys_fails w' = sys_fails w"
  | (absent) "table_delete (Some t) (Some key) (Some destroy) w = Inr (- 1, Some t, w)"
      "contents w t k = None"
proof (cases "key_slot t k")
  case (Some j)
  note er = erased_wf [OF db_ok_simps(2) [OF db] Some]
  define v0 where "v0 = slot_values (key_bucket t k) ! j"
  have lk: "table_lookup t k = Some v0" by (simp add: table_lookup_slot Some v0_def)
  have "owns valid w (add_mset (djb2 k, k, v0) (entries (buckets (erased t k j))))"
    using db_ok_simps(4) [OF db] er(3) by (simp add: v0_def)
  then obtain a bs where a: "v0 = Ptr a 0" "heap w a = Some bs" "valid bs"
    and R: "owns valid (w\<lparr>heap := (heap w)(a := None)\<rparr>) (entries (buckets (erased t k j)))"
    by (rule owns_take) auto
  let ?w = "w\<lparr>heap := (heap w)(a := None)\<rparr>"
  have "structs_ok ?w (erased t k j)"
    using structs_ok_destroy [OF db_ok_simps(3) [OF db] er(2) a(2,3)] .
  with R er(1) have ok: "db_ok valid ?w (erased t k j)"
    using db_ok_simps(1) [OF db] by (simp add: db_ok_def world_ok_free)
  have "table_lookup (erased t k j) = (table_lookup t)(k := None)"
    using db_ok_simps(2) [OF db] er(1,3) by (rule lookup_remove)
  then have "contents ?w (erased t k j) = (contents w t)(k := map_option (block ?w) None)"
    by (rule contents_update) (use other_block [OF db lk [unfolded a(1)]] in auto)
  moreover have "call_destroyer (Some destroy) (slot_values (key_bucket t k) ! j) w = Inr ?w"
    using destroy_ok [OF a(2,3)] a(1) by (simp add: call_destroyer_def flip: v0_def)
  moreover have "outside ?w (erased t k j) = outside w t"
    using er(2,3) by (rule outside_remove) (simp add: a(1) flip: v0_def)
  ultimately show thesis
    using delete_found [OF r Some] ok er(2) Some
    by (intro deleted [of "erased t k j" ?w]) (simp_all add: contents_slot)
next
  case None
  with delete_missing [OF r None] absent show thesis by (simp add: contents_slot)
qed

end

end
