(* ===== verification/Table_Bulk.thy ===== *)
theory Table_Bulk
  imports Table_Values
begin

text \<open>
  The operations that touch the whole table, with its values: creating and destroying it, clearing it,
  resizing it, and the memory report. Their loops carry one invariant: the values of the entries already
  visited are freed (or counted), the others are untouched.
\<close>

section \<open>Freeing the values of some entries\<close>

text \<open>The world after the values of the entries \<open>F\<close> are freed.\<close>

definition freed :: "world \<Rightarrow> entry multiset \<Rightarrow> world" where
  "freed w F = w\<lparr>heap := heap_without (heap w) F\<rparr>"

lemma freed_simps [simp]:
  "freed w {#} = w" "heap (freed w F) = heap_without (heap w) F" "fresh (freed w F) = fresh w"
  by (simp_all add: freed_def)

lemma freed_world_ok: "world_ok w \<Longrightarrow> world_ok (freed w F)"
  by (simp add: world_ok_def heap_without_def)

text \<open>The bytes of the values of some entries.\<close>

definition total_bytes :: "world \<Rightarrow> entry multiset \<Rightarrow> nat" where
  "total_bytes w E = (\<Sum>e \<in># E. length (block w (entry_value e)))"

lemma total_bytes_simps [simp]:
  "total_bytes w {#} = 0" "total_bytes w (E + F) = total_bytes w E + total_bytes w F"
  by (simp_all add: total_bytes_def)

lemma sum_mset_term:
  assumes "i < n"
  shows "f i \<subseteq># (\<Sum>m < n. f (m :: nat) :: 'a multiset)"
  using mset_subset_eq_add_right sum_mset_prefix_next [OF assms] by (rule subset_mset.order_trans)

context value_callbacks
begin

lemma free_next:
  assumes "owns valid w E" and "add_mset e F \<subseteq># E"
  shows "destroy (entry_value e) (freed w F) = Inr (freed w (add_mset e F))" and "entry_value e \<noteq> NULL"
proof -
  obtain a bs where a: "entry_value e = Ptr a 0" "heap (freed w F) a = Some bs" "valid bs"
    using assms freed_simps(2) by (rule owns_remaining)
  then show "destroy (entry_value e) (freed w F) = Inr (freed w (add_mset e F))"
    using destroy_ok [OF a(2,3)] by (simp add: freed_def heap_without_add)
  from a(1) show "entry_value e \<noteq> NULL" by simp
qed

text \<open>The structs of the table are not values.\<close>

lemma freed_struct:
  assumes "owns valid w E" and "heap w a = Some []"
  shows "heap (freed w E) a = Some []"
proof -
  have "Ptr a 0 \<notin> entry_value ` set_mset E"
    using assms valid_nonempty unfolding owns_def by fastforce
  with assms(2) show ?thesis by (simp add: heap_without_def)
qed

lemma freed_structs_ok:
  "owns valid w E \<Longrightarrow> structs_ok w t \<Longrightarrow> same_frame t t' \<Longrightarrow> structs_ok (freed w E) t'"
  by (erule (1) structs_ok_heap) (rule freed_struct)

section \<open>Clearing\<close>

lemma clear_slot_step:
  assumes "owns valid w E" and "F + slot_entry b j \<subseteq># E"
  shows "clear_slot (Some destroy) j (b, freed w F) =
    Inr (if in_use b ! j = 0 then b else erase_slot b j, freed w (F + slot_entry b j))"
proof (cases "in_use b ! j = 0")
  case False
  let ?e = "(hashes b ! j, cstr (keys b ! j), slot_values b ! j)"
  have "slot_entry b j = {#?e#}" using False by (simp add: slot_entry_def)
  with False free_next(1) [OF assms(1), of ?e F] assms(2) show ?thesis
    by (simp add: clear_slot_def erase_slot_def)
qed (simp add: clear_slot_def slot_entry_def)

lemma clear_bucket_loop:
  assumes b: "bucket_shape b" and E: "owns valid w E" and F: "F + bucket_entries b \<subseteq># E"
  obtains b' where "foreach (clear_slot (Some destroy)) slots (b, freed w F) =
      Inr (b', freed w (F + bucket_entries b))"
    and "bucket_shape b'" and "bucket_entries b' = {#}"
proof -
  define P where "P = (\<lambda>i (b', w'). w' = freed w (F + (\<Sum>m < i. slot_entry b m)) \<and> bucket_shape b' \<and>
    (\<forall>m < i. slot_entry b' m = {#}) \<and> (\<forall>m. i \<le> m \<longrightarrow> m < 8 \<longrightarrow> slot_entry b' m = slot_entry b m))"
  have "\<exists>s'. foreach (clear_slot (Some destroy)) [0..<8] (b, freed w F) = Inr s' \<and> P 8 s'"
  proof (rule foreach_upt_rule [where P = P])
    show "P 0 (b, freed w F)" using b by (simp add: P_def)
    fix i s assume i: "i < (8 :: nat)" and "P i s"
    then obtain b' where s: "s = (b', freed w (F + (\<Sum>m < i. slot_entry b m)))" "bucket_shape b'"
      and clr: "\<forall>m < i. slot_entry b' m = {#}"
      and rest: "\<forall>m. i \<le> m \<longrightarrow> m < 8 \<longrightarrow> slot_entry b' m = slot_entry b m"
      by (auto simp: P_def)
    let ?b = "if in_use b' ! i = 0 then b' else erase_slot b' i"
    have "F + (\<Sum>m < i. slot_entry b m) + slot_entry b' i \<subseteq># E"
      using sum_mset_prefix_next [OF i, of "slot_entry b"] F i rest
      by (auto simp: bucket_entries_def add.assoc intro: subset_mset.order_trans subset_mset.add_left_mono)
    from clear_slot_step [OF E this] i rest
    have "clear_slot (Some destroy) i s = Inr (?b, freed w (F + (\<Sum>m < Suc i. slot_entry b m)))"
      by (simp add: s(1) add.assoc)
    moreover have "slot_entry ?b m = (if m = i then {#} else slot_entry b' m)" for m
      using s(2) i by (simp add: slot_entry_erase) (simp add: slot_entry_def)
    ultimately show "\<exists>s'. clear_slot (Some destroy) i s = Inr s' \<and> P (Suc i) s'"
      using s(2) clr rest by (auto simp: P_def less_Suc_eq)
  qed
  then obtain b' where "foreach (clear_slot (Some destroy)) slots (b, freed w F) = Inr (b', freed w (F + bucket_entries b))"
    "bucket_shape b'" "\<forall>m < 8. slot_entry b' m = {#}"
    by (auto simp: P_def slots_def bucket_entries_def)
  then show thesis by (intro that) (auto simp: bucket_entries_def)
qed

lemma clear_loop:
  assumes shape: "\<forall>b \<in> set bs. bucket_shape b" and E: "owns valid w (entries bs)"
  obtains bs' where "foreach (clear_bucket (Some destroy)) [0..<length bs] (bs, w) = Inr (bs', freed w (entries bs))"
    and "length bs' = length bs" and "\<forall>b \<in> set bs'. bucket_shape b \<and> bucket_entries b = {#}"
proof -
  define P where "P = (\<lambda>i (bs', w'). w' = freed w (\<Sum>m < i. bucket_entries (bs ! m)) \<and>
    length bs' = length bs \<and> (\<forall>m < i. bucket_shape (bs' ! m) \<and> bucket_entries (bs' ! m) = {#}) \<and>
    drop i bs' = drop i bs)"
  have "\<exists>s'. foreach (clear_bucket (Some destroy)) [0..<length bs] (bs, w) = Inr s' \<and> P (length bs) s'"
  proof (rule foreach_upt_rule [where P = P])
    show "P 0 (bs, w)" by (simp add: P_def)
    fix i s assume i: "i < length bs" and "P i s"
    then obtain bs' where s: "s = (bs', freed w (\<Sum>m < i. bucket_entries (bs ! m)))" "length bs' = length bs"
      and clr: "\<forall>m < i. bucket_shape (bs' ! m) \<and> bucket_entries (bs' ! m) = {#}"
      and rest: "drop i bs' = drop i bs" by (auto simp: P_def)
    have nth: "bs' ! i = bs ! i" using rest i s(2) by (metis append_take_drop_id nth_via_drop Cons_nth_drop_Suc)
    have "(\<Sum>m < i. bucket_entries (bs ! m)) + bucket_entries (bs ! i) \<subseteq># entries bs"
      unfolding entries_def using i by (rule sum_mset_prefix_next)
    moreover have "bucket_shape (bs ! i)" using shape i by simp
    ultimately obtain b' where "foreach (clear_slot (Some destroy)) slots (bs ! i, snd s) =
        Inr (b', freed w (\<Sum>m < Suc i. bucket_entries (bs ! m)))" "bucket_shape b'" "bucket_entries b' = {#}"
      using clear_bucket_loop [OF _ E] s(1) by (metis snd_conv sum.lessThan_Suc)
    moreover have "drop (Suc i) bs' = drop (Suc i) bs"
      using arg_cong [OF rest, of tl] by (simp add: drop_Suc tl_drop)
    ultimately show "\<exists>s'. clear_bucket (Some destroy) i s = Inr s' \<and> P (Suc i) s'"
      using s nth i clr by (auto simp: clear_bucket_def nth_bucket_def P_def less_Suc_eq)
  qed
  then obtain bs' where "foreach (clear_bucket (Some destroy)) [0..<length bs] (bs, w) = Inr (bs', freed w (entries bs))"
    "length bs' = length bs" "\<forall>m < length bs. bucket_shape (bs' ! m) \<and> bucket_entries (bs' ! m) = {#}"
    by (auto simp: P_def entries_def)
  then show thesis by (intro that [of bs']) (auto simp: in_set_conv_nth)
qed

text \<open>A cleared table is the same table without entries; every value it held is freed, nothing else is.\<close>

lemma clear_ok:
  assumes db: "db_ok valid w t"
  obtains t' where "table_clear (Some t) (Some destroy) w = Inr (0, Some t', freed w (entries (buckets t)))"
    and "db_ok valid (freed w (entries (buckets t))) t'" and "same_frame t t'"
    and "elem_count t' = 0" and "entries (buckets t') = {#}"
    and "contents (freed w (entries (buckets t))) t' = Map.empty"
    and "outside (freed w (entries (buckets t))) t' = outside w t"
proof -
  note shape = db_ok_simps(5) [OF db]
  let ?w = "freed w (entries (buckets t))"
  have len: "unat (buckets_count t) = length (buckets t)" using shape by (simp add: table_shape_def)
  obtain bs' where bs': "foreach (clear_bucket (Some destroy)) [0..<length (buckets t)] (buckets t, w) = Inr (bs', ?w)"
    "length bs' = length (buckets t)" "\<forall>b \<in> set bs'. bucket_shape b \<and> bucket_entries b = {#}"
    using clear_loop [OF _ db_ok_simps(4) [OF db]] shape by (auto simp: table_shape_def)
  obtain L where L: "lock_all wr_acquire (unat (lock_count t)) (locks t) = Inr (0, L)"
    "unlock_all (unat (lock_count t)) L = Inr (locks t)" using shape by (rule write_all_guard)
  let ?t = "t\<lparr>buckets := bs', elem_count := 0, locks := locks t\<rparr>"
  have none: "entries bs' = {#}" using bs'(3) by (simp add: entries_def)
  have "placed bs' (buckets_count t)" using bs'(3) by (simp add: placed_def)
  then have wf: "table_wf ?t"
    using shape bs' none by (simp add: table_wf_def table_shape_def)
  have fr: "same_frame t ?t" by (simp add: same_frame_def)
  have "table_lookup ?t = Map.empty" using none by (intro table_lookup_ext [OF wf]) simp
  then have "contents ?w ?t = Map.empty" by (simp add: contents_def fun_eq_iff)
  moreover have "table_clear (Some t) (Some destroy) w = Inr (0, Some ?t, ?w)"
    using L bs'(1) len by (simp add: table_clear_def)
  moreover have "db_ok valid ?w ?t"
    using wf fr db freed_structs_ok none by (auto simp: db_ok_def freed_world_ok owns_def)
  moreover have "outside ?w ?t = outside w t"
    by (rule ext) (auto simp: outside_def footprint_def heap_without_def none)
  ultimately show thesis using fr none by (intro that) simp_all
qed

section \<open>Destroying\<close>

lemma destroy_slot_step:
  assumes "owns valid w E" and "F + slot_entry b j \<subseteq># E"
  shows "destroy_slot destroy b j (freed w F) = Inr (freed w (F + slot_entry b j))"
  using free_next(1) [OF assms(1), of "(hashes b ! j, cstr (keys b ! j), slot_values b ! j)" F] assms(2)
  by (simp add: destroy_slot_def slot_entry_def split: if_splits)

lemma destroy_bucket_loop:
  assumes "owns valid w E" and "F + bucket_entries b \<subseteq># E"
  shows "foreach (destroy_slot destroy b) slots (freed w F) = Inr (freed w (F + bucket_entries b))"
proof -
  have "\<exists>s'. foreach (destroy_slot destroy b) [0..<8] (freed w F) = Inr s' \<and>
      s' = freed w (F + (\<Sum>m < 8. slot_entry b m))"
  proof (rule foreach_upt_rule [where P = "\<lambda>i s. s = freed w (F + (\<Sum>m < i. slot_entry b m))"])
    fix i s assume i: "i < (8 :: nat)" and s: "s = freed w (F + (\<Sum>m < i. slot_entry b m))"
    have "F + (\<Sum>m < i. slot_entry b m) + slot_entry b i \<subseteq># E"
      using sum_mset_prefix_next [OF i, of "slot_entry b"] assms(2)
      by (auto simp: bucket_entries_def add.assoc intro: subset_mset.order_trans subset_mset.add_left_mono)
    from destroy_slot_step [OF assms(1) this]
    show "\<exists>s'. destroy_slot destroy b i s = Inr s' \<and> s' = freed w (F + (\<Sum>m < Suc i. slot_entry b m))"
      by (simp add: s add.assoc)
  qed simp
  then show ?thesis by (simp add: slots_def bucket_entries_def)
qed

lemma destroy_loop:
  assumes "owns valid w (entries bs)"
  shows "foreach (\<lambda>i w. bindE (nth_bucket bs i) (\<lambda>b. foreach (destroy_slot destroy b) slots w))
    [0..<length bs] w = Inr (freed w (entries bs))"
proof -
  have "\<exists>s'. foreach (\<lambda>i w. bindE (nth_bucket bs i) (\<lambda>b. foreach (destroy_slot destroy b) slots w))
      [0..<length bs] w = Inr s' \<and> s' = freed w (\<Sum>m < length bs. bucket_entries (bs ! m))"
  proof (rule foreach_upt_rule [where P = "\<lambda>i s. s = freed w (\<Sum>m < i. bucket_entries (bs ! m))"])
    fix i s assume i: "i < length bs" and s: "s = freed w (\<Sum>m < i. bucket_entries (bs ! m))"
    have "(\<Sum>m < i. bucket_entries (bs ! m)) + bucket_entries (bs ! i) \<subseteq># entries bs"
      unfolding entries_def using i by (rule sum_mset_prefix_next)
    from destroy_bucket_loop [OF assms this] i
    show "\<exists>s'. bindE (nth_bucket bs i) (\<lambda>b. foreach (destroy_slot destroy b) slots s) = Inr s' \<and>
        s' = freed w (\<Sum>m < Suc i. bucket_entries (bs ! m))"
      by (simp add: s nth_bucket_def)
  qed simp
  then show ?thesis by (simp add: entries_def)
qed

lemma destroy_locks_idle: "set is \<subseteq> {..<n} \<Longrightarrow> destroy_locks (idle n) is = Inr 0"
  by (induction "is") (simp_all add: pthread_rwlock_destroy_def)

lemma table_destroy_ok:
  assumes db: "db_ok valid w t"
  shows "table_destroy (Some t) (Some destroy) w = Inr (0, w\<lparr>heap := outside w t\<rparr>)"
proof -
  note own = db_ok_simps(4) [OF db] and shape = db_ok_simps(5) [OF db]
  obtain a b c where p: "table_ptr t = Ptr a 0" "buckets_ptr t = Ptr b 0" "locks_ptr t = Ptr c 0"
    and n: "a \<noteq> b" "a \<noteq> c" "b \<noteq> c" and h: "heap w a = Some []" "heap w b = Some []" "heap w c = Some []"
    using db_ok_simps(3) [OF db] unfolding structs_ok_def by blast
  have h': "heap_without (heap w) (entries (buckets t)) x = Some []" if "heap w x = Some []" for x
    using freed_struct [OF own that] by simp
  have "unat (buckets_count t) = length (buckets t)" using shape by (simp add: table_shape_def)
  moreover have "destroy_locks (locks t) [0..<unat (lock_count t)] = Inr 0"
    using shape destroy_locks_idle by (simp add: table_shape_def lessThan_atLeast0)
  moreover have "(heap_without (heap w) (entries (buckets t)))(c := None, b := None, a := None) = outside w t"
    by (rule ext) (simp add: outside_def footprint_def struct_ptrs_def heap_without_def p)
  ultimately show ?thesis
    using destroy_loop [OF own] p n h h' by (simp add: table_destroy_def free_def freed_def)
qed

section \<open>Resizing\<close>

text \<open>A resize keeps the contents and the invariant, whether it succeeds or not.\<close>

lemma resize_ok:
  assumes db: "db_ok valid w t" and r: "requested \<noteq> 0" "unat requested \<le> 2 ^ 63"
  obtains rc t' w' where "table_resize (Some t) requested w = Inr (rc, Some t', w')"
    and "db_ok valid w' t'" and "contents w' t' = contents w t"
    and "rc = - 1 \<and> t' = t \<and> heap w' = heap w \<or> rc = 0 \<and> buckets_count t' = adjust_capacity requested"
    and "elem_count t' = elem_count t" and "lock_count t' = lock_count t"
    and "entries (buckets t') = entries (buckets t)" and "outside w' t' = outside w t"
proof -
  obtain a b c where p: "table_ptr t = Ptr a 0" "buckets_ptr t = Ptr b 0" "locks_ptr t = Ptr c 0"
    and n: "a \<noteq> b" "a \<noteq> c" "b \<noteq> c" and h: "heap w a = Some []" "heap w b = Some []" "heap w c = Some []"
    using db_ok_simps(3) [OF db] unfolding structs_ok_def by blast
  note wf = db_ok_simps(2) [OF db] and own = db_ok_simps(4) [OF db]
  show thesis
  proof (cases rule: table_resize_cases [OF wf db_ok_simps(1) [OF db] p(2) h(2) r])
    case (1 rc w')
    have "owns valid w' (entries (buckets t))" using own by (rule owns_heap) (simp add: 1)
    then have "db_ok valid w' t" using db 1 by (simp add: db_ok_def structs_ok_def)
    moreover have "block w' = block w" by (simp add: block_def 1(3) fun_eq_iff split: ptr.splits)
    then have "contents w' t = contents w t" by (intro ext) (simp only: contents_def)
    moreover have "outside w' t = outside w t" by (simp add: outside_def 1(3) fun_eq_iff)
    ultimately show thesis using 1 by (intro that [of rc t w']) auto
  next
    case (2 nb w')
    let ?t = "resized_table t (Ptr (fresh w) 0) nb (adjust_capacity requested)"
    have E: "entries (buckets ?t) = entries (buckets t)" by (simp add: resized_table_def 2)
    have fr: "heap w (fresh w) = None" using db_ok_simps(1) [OF db] by (rule world_ok_fresh)
    have wf': "table_wf ?t" using wf 2(2,3) by (rule resized_table_wf)
    have lk: "table_lookup ?t = table_lookup t"
      by (rule table_lookup_ext [OF wf']) (simp add: table_lookup_iff [OF wf] E)
    have keep: "heap w' x = Some bs" if "heap w x = Some bs" "valid bs" for x bs
      using that 2(4) fr h(2) valid_nonempty [OF that(2)] by auto
    have own': "owns valid w' (entries (buckets t))"
      using own keep unfolding owns_def by metis
    have "structs_ok w' ?t" using p n h fr 2(4)
      by (auto simp: structs_ok_def resized_table_def)
    then have "db_ok valid w' ?t" using wf' own' 2(5) by (simp add: db_ok_def E)
    moreover have "contents w' ?t = contents w t"
    proof
      fix k
      show "contents w' ?t k = contents w t k"
      proof (cases "table_lookup t k")
        case (Some v)
        with owned_block [OF db] obtain x bs where "v = Ptr x 0" "heap w x = Some bs" "valid bs" by metis
        with keep Some lk show ?thesis by (simp add: contents_def block_def)
      qed (simp add: contents_def lk)
    qed
    moreover have "outside w' ?t = outside w t"
    proof
      fix x
      show "outside w' ?t x = outside w t x"
        using 2(4) E p fr by (auto simp: outside_def footprint_def struct_ptrs_def resized_table_def)
    qed
    ultimately show thesis using 2 E by (intro that [of 0 ?t w']) (auto simp: resized_table_def)
  qed
qed

section \<open>The memory report\<close>

lemma usage_slot_step:
  assumes "owns valid w E" and "slot_entry b j \<subseteq># E"
  shows "usage_slot sizer b w j n = Inr (n + of_nat (total_bytes w (slot_entry b j)))"
proof (cases "in_use b ! j = 0")
  case False
  let ?e = "(hashes b ! j, cstr (keys b ! j), slot_values b ! j)"
  have e: "slot_entry b j = {#?e#}" using False by (simp add: slot_entry_def)
  with assms obtain a bs where a: "slot_values b ! j = Ptr a 0" "heap w a = Some bs" "valid bs"
    unfolding owns_def by fastforce
  obtain m where m: "sizer (Ptr a 0) w = Inr m" "unat m = length bs" using sizer_ok [OF a(2,3)] by blast
  have "of_nat (length bs) = m" by (simp flip: m(2))
  with False a e m show ?thesis by (simp add: usage_slot_def total_bytes_def block_def)
qed (simp add: usage_slot_def slot_entry_def)

lemma usage_bucket_loop:
  assumes "owns valid w E" and "bucket_entries b \<subseteq># E"
  shows "foreach (usage_slot sizer b w) slots n = Inr (n + of_nat (total_bytes w (bucket_entries b)))"
proof -
  have "\<exists>s'. foreach (usage_slot sizer b w) [0..<8] n = Inr s' \<and>
      s' = n + of_nat (total_bytes w (\<Sum>m < 8. slot_entry b m))"
  proof (rule foreach_upt_rule [where P = "\<lambda>i s. s = n + of_nat (total_bytes w (\<Sum>m < i. slot_entry b m))"])
    fix i s assume i: "i < (8 :: nat)" and s: "s = n + of_nat (total_bytes w (\<Sum>m < i. slot_entry b m))"
    have "slot_entry b i \<subseteq># bucket_entries b" unfolding bucket_entries_def using i by (rule sum_mset_term)
    with assms(2) have "slot_entry b i \<subseteq># E" by (rule subset_mset.order_trans [rotated])
    from usage_slot_step [OF assms(1) this] s
    show "\<exists>s'. usage_slot sizer b w i s = Inr s' \<and> s' = n + of_nat (total_bytes w (\<Sum>m < Suc i. slot_entry b m))"
      by (simp add: add.assoc)
  qed simp
  then show ?thesis by (simp add: slots_def bucket_entries_def)
qed

lemma usage_loop:
  assumes "owns valid w (entries bs)"
  shows "foreach (\<lambda>i total. bindE (nth_bucket bs i) (\<lambda>b. foreach (usage_slot sizer b w) slots total))
    [0..<length bs] n = Inr (n + of_nat (total_bytes w (entries bs)))"
proof -
  have "\<exists>s'. foreach (\<lambda>i total. bindE (nth_bucket bs i) (\<lambda>b. foreach (usage_slot sizer b w) slots total))
      [0..<length bs] n = Inr s' \<and> s' = n + of_nat (total_bytes w (\<Sum>m < length bs. bucket_entries (bs ! m)))"
  proof (rule foreach_upt_rule
      [where P = "\<lambda>i s. s = n + of_nat (total_bytes w (\<Sum>m < i. bucket_entries (bs ! m)))"])
    fix i s assume i: "i < length bs" and s: "s = n + of_nat (total_bytes w (\<Sum>m < i. bucket_entries (bs ! m)))"
    have "bucket_entries (bs ! i) \<subseteq># entries bs" unfolding entries_def using i by (rule sum_mset_term)
    from usage_bucket_loop [OF assms this] i s
    show "\<exists>s'. bindE (nth_bucket bs i) (\<lambda>b. foreach (usage_slot sizer b w) slots s) = Inr s' \<and>
        s' = n + of_nat (total_bytes w (\<Sum>m < Suc i. bucket_entries (bs ! m)))"
      by (simp add: nth_bucket_def add.assoc)
  qed simp
  then show ?thesis by (simp add: entries_def)
qed

text \<open>With a lock for every bucket the report is the structs and the values, modulo \<open>2 ^ 64\<close>.\<close>

lemma memory_usage_ok:
  assumes db: "db_ok valid w t" and cover: "locks_cover t"
  shows "table_memory_usage (Some t) (Some sizer) w =
    Inr (of_nat (sizeof_hashtable + unat (buckets_count t) * sizeof_bucket +
                 unat (lock_count t) * sizeof_rwlock + total_bytes w (entries (buckets t))), Some t)"
proof -
  note shape = db_ok_simps(5) [OF db]
  have idle: "locks t = idle (unat (lock_count t))" and len: "unat (buckets_count t) = length (buckets t)"
    using shape by (simp_all add: table_shape_def)
  have le: "unat (buckets_count t) \<le> unat (lock_count t)"
    using cover by (simp add: locks_cover_def word_le_nat_alt)
  obtain L where "lock_all rd_acquire (unat (buckets_count t)) (locks t) = Inr (0, L)"
    "unlock_all (unat (buckets_count t)) L = Inr (locks t)"
    using rd.lock_all_idle [OF le] idle by metis
  then show ?thesis
    using usage_loop [OF db_ok_simps(4) [OF db], folded len]
    by (simp add: table_memory_usage_def Let_def)
qed

end

section \<open>Creating\<close>

lemma init_locks_cases:
  obtains (all) w' where "init_locks n ls w = (0, ls @ idle n, w')" "heap w' = heap w" "fresh w' = fresh w"
  | (failed) rc k w' where "init_locks n ls w = (rc, ls @ idle k, w')" "rc \<noteq> 0"
      "heap w' = heap w" "fresh w' = fresh w"
proof (induction n arbitrary: ls w thesis)
  case 0
  then show ?case by (simp add: idle_def)
next
  case (Suc n)
  obtain r w1 where r: "sys_request w = (r, w1)" by (cases "sys_request w")
  then have w1: "heap w1 = heap w" "fresh w1 = fresh w" using sys_request_frame [of w] by simp_all
  show ?case
  proof (cases r)
    case True
    with Suc.prems(2) [of ENOMEM 0 w1] r w1 show ?thesis
      by (simp add: pthread_rwlock_init_def ENOMEM_def idle_def)
  next
    case False
    with r have step: "init_locks (Suc n) ls w = init_locks n (ls @ [Unlocked]) w1"
      by (simp add: pthread_rwlock_init_def)
    show ?thesis
    proof (rule Suc.IH [of "ls @ [Unlocked]" w1])
      fix w' assume "init_locks n (ls @ [Unlocked]) w1 = (0, (ls @ [Unlocked]) @ idle n, w')"
        "heap w' = heap w1" "fresh w' = fresh w1"
      with step w1 Suc.prems(1) show ?thesis by (simp add: idle_def)
    next
      fix rc k w' assume "init_locks n (ls @ [Unlocked]) w1 = (rc, (ls @ [Unlocked]) @ idle k, w')"
        "rc \<noteq> 0" "heap w' = heap w1" "fresh w' = fresh w1"
      with step w1 Suc.prems(2) [of rc "Suc k" w'] show ?thesis by (simp add: idle_def)
    qed
  qed
qed

lemma destroy_ignoring_ok: "destroy_ignoring ls = Inr ()"
proof -
  have "\<exists>s'. destroy_ignoring ls = Inr s' \<and> True"
    unfolding destroy_ignoring_def
    by (rule foreach_upt_rule [where P = "\<lambda>_ _. True"]) (simp_all add: pthread_rwlock_destroy_def)
  then show ?thesis by simp
qed

lemma create_ok:
  assumes w: "world_ok w" and cap: "cap \<noteq> 0" "unat cap \<le> 2 ^ 63"
  obtains (refused) w' where "table_create cap w = Inr (None, w')" "heap w' = heap w" "world_ok w'"
  | (created) t w' where "table_create cap w = Inr (Some t, w')" "db_ok valid w' t" "locks_cover t"
      "entries (buckets t) = {#}" "elem_count t = 0" "buckets_count t = adjust_capacity cap"
      "outside w' t = heap w"
proof (cases rule: alloc_struct_cases [of sizeof_hashtable w])
  case (refused w1)
  with cap w show thesis by (intro that(1) [of w1]) (simp_all add: table_create_def world_ok_def)
next
  case g1: (granted w1)
  let ?c = "adjust_capacity cap"
  have pow2: "is_pow2 ?c" using cap by (rule adjust_capacity_pow2)
  have free0: "heap w (fresh w) = None" "heap w (Suc (fresh w)) = None" "heap w (Suc (Suc (fresh w))) = None"
    using w by (auto simp: world_ok_def)
  have w1: "world_ok w1" using w g1 by (auto simp: world_ok_def)
  show thesis
  proof (cases rule: alloc_struct_cases [of "unat ?c * sizeof_bucket" w1])
    case (refused w2)
    with cap w w1 g1 free0 show thesis
      by (intro that(1) [of "w2\<lparr>heap := heap w\<rparr>"])
         (auto simp: table_create_def Let_def free_def world_ok_def fun_upd_idem)
  next
    case g2: (granted w2)
    have w2: "world_ok w2" using w1 g2 by (auto simp: world_ok_def)
    show thesis
    proof (cases rule: alloc_struct_cases [of "unat (?c * of_nat sizeof_rwlock)" w2])
      case (refused w3)
      with cap w w2 g1 g2 free0 show thesis
        by (intro that(1) [of "w3\<lparr>heap := heap w\<rparr>"])
           (auto simp: table_create_def Let_def free_def world_ok_def fun_upd_idem)
    next
      case g3: (granted w3)
      show thesis
      proof (cases rule: init_locks_cases [of "unat ?c" "[]" w3])
        case (failed rc k w4)
        with cap w g1 g2 g3 free0 show thesis
          by (intro that(1) [of "w4\<lparr>heap := heap w\<rparr>"])
             (auto simp: table_create_def Let_def free_def world_ok_def destroy_ignoring_ok fun_upd_idem less_Suc_eq)
      next
        case (all w4)
        define t where "t = \<lparr>table_ptr = Ptr (fresh w) 0, buckets_ptr = Ptr (Suc (fresh w)) 0,
          buckets = replicate (unat ?c) zero_bucket, buckets_count = ?c, elem_count = 0,
          locks_ptr = Ptr (Suc (Suc (fresh w))) 0, locks = idle (unat ?c), lock_count = ?c\<rparr>"
        have E: "entries (buckets t) = {#}" by (simp add: t_def)
        have "table_wf t" using array_ok_zero [OF pow2]
          by (simp add: table_wf_def table_shape_def t_def array_ok_def)
        then have "db_ok valid w4 t"
          using w all g1 g2 g3 E
          by (auto simp: db_ok_def world_ok_def owns_def structs_ok_def t_def less_Suc_eq)
        moreover have "table_create cap w = Inr (Some t, w4)"
          using cap all g1 g2 g3 by (simp add: table_create_def Let_def t_def)
        ultimately show thesis
          using E all g1 g2 g3 free0
          by (intro that(2) [of t w4]) (auto simp: t_def locks_cover_def outside_def footprint_def struct_ptrs_def fun_eq_iff)
      qed
    qed
  qed
qed

end
