(* ===== verification/Data_Entry.thy ===== *)
theory Data_Entry
  imports Table_Bulk
begin

text \<open>
  The values of the database: \<open>data_entry_t\<close> of src/src/command.h, a \<open>size_t\<close> length followed by that many
  bytes, laid out in one heap block (little endian, as the target stores a \<open>size_t\<close>), with the sizer and
  the destroyer that src/src/command.c hands to the table. They meet the contract of the table's value
  callbacks, so the table's theorems hold for the database.
\<close>

section \<open>Layout\<close>

primrec le_bytes :: "nat \<Rightarrow> nat \<Rightarrow> byte list" where
  "le_bytes 0 n = []"
| "le_bytes (Suc k) n = of_nat n # le_bytes k (n div 256)"

primrec le_value :: "byte list \<Rightarrow> nat" where
  "le_value [] = 0"
| "le_value (b # bs) = unat b + 256 * le_value bs"

definition sizeof_size_t :: nat where "sizeof_size_t = 8"

definition data_entry :: "byte list \<Rightarrow> byte list" where
  "data_entry d = le_bytes sizeof_size_t (length d) @ d"

definition entry_size :: "byte list \<Rightarrow> size_t" where
  "entry_size bs = of_nat (le_value (take sizeof_size_t bs))"

definition entry_data :: "byte list \<Rightarrow> byte list" where
  "entry_data bs = drop sizeof_size_t bs"

lemma length_le_bytes [simp]: "length (le_bytes k n) = k"
  by (induction k arbitrary: n) simp_all

lemma le_value_bytes: "le_value (le_bytes k n) = n mod 256 ^ k"
proof (induction k arbitrary: n)
  case (Suc k)
  have "unat (of_nat n :: byte) = n mod 256" by (simp add: unat_of_nat)
  with Suc show ?case by (simp add: mod_mult2_eq)
qed simp

lemma length_data_entry [simp]: "length (data_entry d) = 8 + length d"
  by (simp add: data_entry_def sizeof_size_t_def)

text \<open>Reading a block back gives the size and the bytes that were written.\<close>

lemma entry_data_entry [simp]: "entry_data (data_entry d) = d"
  by (simp add: data_entry_def entry_data_def)

lemma entry_size_entry: "length d < 2 ^ 64 \<Longrightarrow> entry_size (data_entry d) = of_nat (length d)"
  by (simp add: data_entry_def entry_size_def le_value_bytes sizeof_size_t_def)

definition valid_entry :: "byte list \<Rightarrow> bool" where
  "valid_entry bs \<longleftrightarrow> bs = data_entry (entry_data bs) \<and> length bs < 2 ^ 64"

lemma valid_data_entry [simp]: "valid_entry (data_entry d) \<longleftrightarrow> 8 + length d < 2 ^ 64"
  by (simp add: valid_entry_def)

lemma valid_entry_cases:
  assumes "valid_entry bs"
  obtains d where "bs = data_entry d" "8 + length d < 2 ^ 64"
  using assms unfolding valid_entry_def by (metis length_data_entry)

section \<open>The callbacks\<close>

definition std_value_sizer :: sizer where
  "std_value_sizer value w =
     (if value = NULL then Inr 0
      else bindE (load value sizeof_size_t w) (\<lambda>bs.
           Inr (of_nat sizeof_size_t + of_nat (le_value bs))))"

definition std_value_destroy :: destroyer where
  "std_value_destroy value w = (if value = NULL then Inr w else free value w)"

definition destroy_value_wrapper :: destroyer where
  "destroy_value_wrapper data w = std_value_destroy data w"

interpretation dv: value_callbacks destroy_value_wrapper std_value_sizer valid_entry
proof
  fix bs :: "byte list" and w :: world and a
  assume bs: "valid_entry bs"
  then obtain d where d: "bs = data_entry d" "8 + length d < 2 ^ 64" by (rule valid_entry_cases)
  then show "bs \<noteq> []" by (auto dest: arg_cong [of _ _ length])
  assume a: "heap w a = Some bs"
  then show "destroy_value_wrapper (Ptr a 0) w = Inr (w\<lparr>heap := (heap w)(a := None)\<rparr>)"
    by (simp add: destroy_value_wrapper_def std_value_destroy_def free_def)
  have "load (Ptr a 0) sizeof_size_t w = Inr (le_bytes 8 (length d))"
    using a d by (simp add: load_def data_entry_def sizeof_size_t_def)
  then have "std_value_sizer (Ptr a 0) w = Inr (of_nat (8 + length d))"
    using d(2) by (simp add: std_value_sizer_def le_value_bytes sizeof_size_t_def)
  moreover have "unat (of_nat (8 + length d) :: size_t) = 8 + length d"
    using d(2) by (simp only: unat_of_nat) simp
  ultimately show "\<exists>n. std_value_sizer (Ptr a 0) w = Inr n \<and> unat n = length bs"
    using d(1) by simp
qed

section \<open>The database as the user sees it\<close>

text \<open>\<open>db w t\<close>: the invariant of a database; \<open>stored w t k\<close>: the bytes stored under the key \<open>k\<close>.\<close>

abbreviation db :: "world \<Rightarrow> hashtable \<Rightarrow> bool" where
  "db \<equiv> db_ok valid_entry"

definition stored :: "world \<Rightarrow> hashtable \<Rightarrow> byte list \<Rightarrow> byte list option" where
  "stored w t k = map_option entry_data (contents w t k)"

text \<open>A database with a lock for every bucket, and a value about to be stored.\<close>

abbreviation serves :: "world \<Rightarrow> hashtable \<Rightarrow> bool" where
  "serves w t \<equiv> db w t \<and> locks_cover t"

abbreviation new_entry :: "world \<Rightarrow> hashtable \<Rightarrow> nat \<Rightarrow> byte list \<Rightarrow> bool" where
  "new_entry w t a d \<equiv> new_value valid_entry w t a (data_entry d)"

lemma stored_None: "stored w t k = None \<longleftrightarrow> contents w t k = None"
  by (simp add: stored_def)

lemma stored_contents:
  assumes "db w t"
  shows "stored w t k = Some d \<longleftrightarrow> contents w t k = Some (data_entry d)"
proof
  assume "stored w t k = Some d"
  then obtain bs where bs: "contents w t k = Some bs" "d = entry_data bs" by (auto simp: stored_def)
  then have "valid_entry bs" by (intro contents_valid [OF assms])
  with bs show "contents w t k = Some (data_entry d)" by (simp add: valid_entry_def)
qed (simp add: stored_def)

lemma stored_size:
  assumes "db w t" and "stored w t k = Some d"
  shows "8 + length d < 2 ^ 64"
proof -
  have "valid_entry (data_entry d)"
    using assms by (intro contents_valid [OF assms(1)]) (simp add: stored_contents)
  then show ?thesis by simp
qed

lemma stored_update:
  "contents w' t' = (contents w t)(k := x) \<Longrightarrow> stored w' t' = (stored w t)(k := map_option entry_data x)"
  by (auto simp: stored_def fun_eq_iff)

lemma serves_ready:
  "serves w t \<Longrightarrow> terminated key \<Longrightarrow> ready t key (cstr key)"
  by (simp add: ready_def db_ok_def table_wf_def)

text \<open>What an update within the frame of a table is, seen from outside.\<close>

lemma frame_update:
  assumes "serves w t" and "db w' t'" and "same_frame t t'" and "contents w' t' = (contents w t)(k := x)"
  shows "serves w' t' \<and> locks t' = locks t \<and> stored w' t' = (stored w t)(k := map_option entry_data x)"
  using assms by (simp add: same_frame_cover same_frame_simps stored_update)

lemma contents_stored: "contents w' t' = contents w t \<Longrightarrow> stored w' t' = stored w t"
  by (simp add: stored_def fun_eq_iff)

definition bucket_full :: "hashtable \<Rightarrow> byte list \<Rightarrow> bool" where
  "bucket_full t k \<longleftrightarrow> (\<forall>j < BUCKET_CAPACITY. in_use (key_bucket t k) ! j \<noteq> 0)"

lemma free_slot_full: "free_slot t k = None \<longleftrightarrow> bucket_full t k"
  by (auto simp: free_slot_def find_slots_None bucket_full_def)

end
