(* ===== verification/Samples.thy ===== *)
theory Samples
  imports Data_Entry
begin

text \<open>
  Concrete states for the witnesses of the properties: an empty one-bucket database as \<open>table_create\<close>
  returns it, the same with a fresh value allocated, and a database holding one entry.
\<close>

section \<open>An empty database\<close>

definition table0 :: hashtable where
  "table0 = \<lparr>table_ptr = Ptr 0 0, buckets_ptr = Ptr (Suc 0) 0, buckets = [zero_bucket], buckets_count = 1,
     elem_count = 0, locks_ptr = Ptr (Suc (Suc 0)) 0, locks = [Unlocked], lock_count = 1\<rparr>"

definition world0 :: world where
  "world0 = \<lparr>heap = (\<lambda>_. None)(0 := Some [], Suc 0 := Some [], Suc (Suc 0) := Some []),
     fresh = Suc (Suc (Suc 0)), sys_fails = [], junk = (\<lambda>a k. 0)\<rparr>"

lemma is_pow2_1 [simp]: "is_pow2 1"
  by (simp add: is_pow2_def)

lemma adjust_1 [simp]: "adjust_capacity 1 = 1"
  by (simp add: adjust_capacity_id)

lemma create_table0: "table_create 1 empty_world = Inr (Some table0, world0)"
  by (simp add: table_create_def heap_simps empty_world_def Let_def table0_def world0_def
      sizeof_hashtable_def sizeof_bucket_def sizeof_rwlock_def pthread_rwlock_init_def)

lemma db0: "db world0 table0" "locks_cover table0" "entries (buckets table0) = {#}"
proof -
  have "db world0 table0 \<and> locks_cover table0 \<and> entries (buckets table0) = {#}"
    by (rule create_ok [OF world_ok_empty, of 1]) (simp_all add: create_table0)
  then show "db world0 table0" "locks_cover table0" "entries (buckets table0) = {#}" by blast+
qed

lemma stored0: "stored world0 table0 = Map.empty"
proof -
  have "table_lookup table0 = Map.empty"
    by (intro table_lookup_ext [OF db_ok_simps(2) [OF db0(1)]]) (simp add: db0(3))
  then show ?thesis by (simp add: stored_def contents_def fun_eq_iff)
qed

section \<open>A fresh value\<close>

definition key_a :: cbuf where "key_a = [97, 0]"
definition data_x :: "byte list" where "data_x = [120]"

lemma key_a [simp]: "terminated key_a" "cstr key_a = [97]"
  by (simp_all add: key_a_def)

definition world1 :: world where
  "world1 = world0\<lparr>heap := (heap world0)(3 := Some (data_entry data_x)), fresh := 4\<rparr>"

lemma db1: "db world1 table0" "stored world1 table0 = Map.empty"
proof -
  note alloc = db_ok_alloc [OF db0(1), of world1 "data_entry data_x"]
  have w1: "heap world1 = (heap world0)(fresh world0 := Some (data_entry data_x))"
    "fresh world1 = Suc (fresh world0)" by (simp_all add: world1_def world0_def eval_nat_numeral)
  then show "db world1 table0" by (rule alloc(1))
  from w1 have "contents world1 table0 = contents world0 table0" by (rule alloc(2))
  then show "stored world1 table0 = Map.empty" using stored0 by (simp add: stored_def fun_eq_iff)
qed

lemma new1: "new_entry world1 table0 3 data_x"
  by (simp add: new_value_def db0(3) data_x_def world1_def)

section \<open>A database with one entry\<close>

definition table1 :: hashtable where
  "table1 = inserted table0 [97] 0 (Ptr 3 0)"

lemma ready0: "ready table0 key_a [97]"
  using db0 by (simp add: ready_def db_ok_def table_wf_def)

lemma bucket0: "key_bucket table0 k = zero_bucket"
  by (simp add: key_bucket_def bucket_index_def table0_def)

lemma key_slot0: "key_slot table0 k = None"
  by (auto simp: key_slot_def find_slots_None bucket0 slot_has_def zero_bucket_def)

lemma slots_Cons: "slots = 0 # [1..<8]"
  by (simp add: slots_def upt_conv_Cons)

lemma free_slot0: "free_slot table0 k = Some 0"
  unfolding free_slot_def bucket0 slots_Cons by (simp add: zero_bucket_def)

lemma db2: "db world1 table1" "locks_cover table1" "stored world1 table1 = [[97] \<mapsto> data_x]"
proof -
  note ins = dv.insert_ok [OF db1(1) ready0 _ key_slot0 free_slot0 new1]
  show "db world1 table1" unfolding table1_def by (rule ins) simp
  have "same_frame table0 table1" unfolding table1_def by (rule ins) simp
  with db0(2) show "locks_cover table1" by (simp add: same_frame_cover)
  have "contents world1 table1 = (contents world1 table0)([97] \<mapsto> data_entry data_x)"
    unfolding table1_def by (rule ins) simp
  then show "stored world1 table1 = [[97] \<mapsto> data_x]" using db1(2) by (simp add: stored_update)
qed

definition world2 :: world where
  "world2 = world1\<lparr>heap := (heap world1)(4 := Some (data_entry [])), fresh := 5\<rparr>"

lemma entries1: "entries (buckets table1) = {#(djb2 [97], [97], Ptr 3 0)#}"
  using inserted_wf(2) [OF db_ok_simps(2) [OF db1(1)] ready0 key_slot0 free_slot0, of "Ptr 3 0"]
  by (simp add: table1_def db0(3))

lemma db3: "db world2 table1" "stored world2 table1 = [[97] \<mapsto> data_x]" "new_entry world2 table1 4 []"
proof -
  note alloc = db_ok_alloc [OF db2(1), of world2 "data_entry []"]
  have w2: "heap world2 = (heap world1)(fresh world1 := Some (data_entry []))"
    "fresh world2 = Suc (fresh world1)" by (simp_all add: world2_def world1_def eval_nat_numeral)
  then show "db world2 table1" by (rule alloc(1))
  from w2 have "contents world2 table1 = contents world1 table1" by (rule alloc(2))
  then show "stored world2 table1 = [[97] \<mapsto> data_x]" using db2(3) by (simp add: stored_def fun_eq_iff)
  show "new_entry world2 table1 4 []" by (simp add: new_value_def entries1 world2_def)
qed

end
