(* ===== verification/Store.thy ===== *)
theory Store
  imports Data_Entry
begin

text \<open>
  Each table operation at the level of the database: keys, the bytes stored under them, the memory
  outside the table. The properties of the table and the command layer both rest on these lemmas.
\<close>

lemma set_spec:
  assumes "serves w t" and "terminated key" and "length (cstr key) < KEY_MAX_LEN"
    and "new_entry w t a d"
  shows "\<exists>rc t' w'.
    table_set (Some t) (Some key) (Ptr a 0) (Some destroy_value_wrapper) w = Inr (rc, Some t', w') \<and>
    serves w' t' \<and> locks t' = locks t \<and> sys_fails w' = sys_fails w \<and>
    (if stored w t (cstr key) = None \<and> bucket_full t (cstr key) then rc = - 2 \<and> t' = t \<and> w' = w
     else rc = 0 \<and> stored w' t' = (stored w t)(cstr key \<mapsto> d) \<and> outside w' t' = (outside w t)(a := None))"
proof -
  have db: "db w t" and r: "ready t key (cstr key)" and len: "length (cstr key) < 255"
    using assms serves_ready [OF assms(1,2)] by simp_all
  show ?thesis
  proof (rule dv.set_ok [OF db r len assms(4)])
    fix t' w' assume A: "table_set (Some t) (Some key) (Ptr a 0) (Some destroy_value_wrapper) w = Inr (0, Some t', w')"
      "db w' t'" "same_frame t t'" "contents w' t' = (contents w t)(cstr key \<mapsto> data_entry d)"
      "outside w' t' = (outside w t)(a := None)" "sys_fails w' = sys_fails w"
      "contents w t (cstr key) \<noteq> None \<or> free_slot t (cstr key) \<noteq> None"
    with frame_update [OF assms(1) A(2-4)] show ?thesis by (auto simp: stored_None free_slot_full)
  qed (use assms(1) in \<open>simp add: stored_None free_slot_full\<close>)
qed

lemma get_spec:
  assumes "serves w t" and "terminated key"
  shows "\<exists>p w'. table_get (Some t) (Some key) (Some std_value_sizer) w = Inr (p, Some t, w') \<and>
    serves w' t \<and> stored w' t = stored w t \<and> (sys_fails w = [] \<longrightarrow> sys_fails w' = []) \<and>
    (case stored w t (cstr key) of
       None \<Rightarrow> p = NULL \<and> w' = w
     | Some d \<Rightarrow>
         p = NULL \<and> heap w' = heap w \<and> fst (malloc (of_nat (length (data_entry d))) w) = NULL \<or>
         p = Ptr (fresh w) 0 \<and> heap w' = (heap w)(fresh w \<mapsto> data_entry d))"
proof (cases "stored w t (cstr key)")
  case None
  with assms(1) dv.get_absent [OF serves_ready [OF assms] None [unfolded stored_None]] show ?thesis by simp
next
  case (Some d)
  then have c: "contents w t (cstr key) = Some (data_entry d)" using assms(1) by (simp add: stored_contents)
  have db: "db w t" and r: "ready t key (cstr key)" using assms serves_ready [OF assms(1,2)] by simp_all
  from db r c show ?thesis
  proof (cases rule: dv.get_present)
    case (refused w')
    note same = db_ok_same_heap [OF db refused(2,3)]
    have "db w' t" "stored w' t = stored w t" using same(1) contents_stored [OF same(2)] by simp_all
    with Some assms(1) refused show ?thesis by simp
  next
    case (copied w')
    note alloc = db_ok_alloc [OF db copied(2,3)]
    have "stored w' t = stored w t" using alloc(2) by (rule contents_stored)
    with Some assms(1) alloc(1) copied(2,4) show ?thesis
      by (intro exI [of _ "Ptr (fresh w) 0"] exI [of _ w']) (simp only: copied(1), simp)
  qed
qed

lemma add_spec:
  assumes "serves w t" and "terminated key" and "length (cstr key) < KEY_MAX_LEN"
    and "new_entry w t a d"
  shows "\<exists>rc t'. table_add (Some t) (Some key) (Ptr a 0) = Inr (rc, Some t') \<and>
    serves w t' \<and> locks t' = locks t \<and>
    (if stored w t (cstr key) \<noteq> None then rc = - 3 \<and> t' = t
     else if bucket_full t (cstr key) then rc = - 2 \<and> t' = t
     else rc = 0 \<and> stored w t' = (stored w t)(cstr key \<mapsto> d) \<and> outside w t' = (outside w t)(a := None))"
proof -
  have db: "db w t" and r: "ready t key (cstr key)" and len: "length (cstr key) < 255"
    using assms serves_ready [OF assms(1,2)] by simp_all
  show ?thesis
  proof (rule dv.add_ok [OF db r len assms(4)])
    fix t' assume A: "table_add (Some t) (Some key) (Ptr a 0) = Inr (0, Some t')" "contents w t (cstr key) = None"
      "db w t'" "same_frame t t'" "contents w t' = (contents w t)(cstr key \<mapsto> data_entry d)"
      "outside w t' = (outside w t)(a := None)" "free_slot t (cstr key) \<noteq> None"
    with frame_update [OF assms(1) A(3-5)] show ?thesis by (simp add: stored_None flip: free_slot_full)
  qed (use assms(1) in \<open>simp_all add: stored_None free_slot_full\<close>)
qed

lemma replace_spec:
  assumes "serves w t" and "terminated key" and "new_entry w t a d"
  shows "\<exists>rc t' w'.
    table_replace (Some t) (Some key) (Ptr a 0) (Some destroy_value_wrapper) w = Inr (rc, Some t', w') \<and>
    serves w' t' \<and> locks t' = locks t \<and> sys_fails w' = sys_fails w \<and>
    (rc = 0 \<and> stored w t (cstr key) \<noteq> None \<and> stored w' t' = (stored w t)(cstr key \<mapsto> d) \<and>
       outside w' t' = (outside w t)(a := None) \<or>
     rc = - 2 \<and> t' = t \<and> w' = w \<and> stored w t (cstr key) = None)"
proof -
  have db: "db w t" and r: "ready t key (cstr key)" using assms serves_ready [OF assms(1,2)] by simp_all
  show ?thesis
  proof (rule dv.replace_ok [OF db r assms(3)])
    fix t' w' assume A: "table_replace (Some t) (Some key) (Ptr a 0) (Some destroy_value_wrapper) w = Inr (0, Some t', w')"
      "contents w t (cstr key) \<noteq> None" "db w' t'" "same_frame t t'"
      "contents w' t' = (contents w t)(cstr key \<mapsto> data_entry d)" "outside w' t' = (outside w t)(a := None)"
      "sys_fails w' = sys_fails w"
    with frame_update [OF assms(1) A(3-5)] show ?thesis by (simp add: stored_None)
  qed (use assms(1) in \<open>simp add: stored_None\<close>)
qed

lemma delete_spec:
  assumes "serves w t" and "terminated key"
  shows "\<exists>rc t' w'. table_delete (Some t) (Some key) (Some destroy_value_wrapper) w = Inr (rc, Some t', w') \<and>
    serves w' t' \<and> locks t' = locks t \<and> outside w' t' = outside w t \<and>
    sys_fails w' = sys_fails w \<and> stored w' t' = (stored w t)(cstr key := None) \<and>
    (if stored w t (cstr key) = None then rc = - 1 \<and> t' = t \<and> w' = w else rc = 0)"
proof -
  have db: "db w t" and r: "ready t key (cstr key)" using assms serves_ready [OF assms(1,2)] by simp_all
  show ?thesis
  proof (rule dv.delete_ok [OF db r])
    fix t' w' assume A: "table_delete (Some t) (Some key) (Some destroy_value_wrapper) w = Inr (0, Some t', w')"
      "contents w t (cstr key) \<noteq> None" "db w' t'" "same_frame t t'"
      "contents w' t' = (contents w t)(cstr key := None)" "outside w' t' = outside w t"
      "sys_fails w' = sys_fails w"
    with frame_update [OF assms(1) A(3-5)] show ?thesis by (simp add: stored_None)
  next
    assume "contents w t (cstr key) = None"
      "table_delete (Some t) (Some key) (Some destroy_value_wrapper) w = Inr (- 1, Some t, w)"
    moreover from this have "(stored w t)(cstr key := None) = stored w t" by (simp add: fun_upd_idem_iff stored_None)
    ultimately show ?thesis using assms(1) by (simp add: stored_None)
  qed
qed

lemma exist_spec:
  assumes "serves w t" and "terminated key"
  shows "table_exist (Some t) (Some key) = Inr (stored w t (cstr key) \<noteq> None, Some t)"
  using dv.exist_ok [OF serves_ready [OF assms], of w] by (simp add: stored_None)

lemma clear_spec:
  assumes "serves w t"
  shows "\<exists>t' w'. table_clear (Some t) (Some destroy_value_wrapper) w = Inr (0, Some t', w') \<and>
    serves w' t' \<and> stored w' t' = Map.empty \<and> elem_count t' = 0 \<and> locks t' = locks t \<and>
    buckets_count t' = buckets_count t \<and> outside w' t' = outside w t \<and> sys_fails w' = sys_fails w"
proof -
  have db: "db w t" using assms by simp
  show ?thesis
  proof (rule dv.clear_ok [OF db])
    fix t' assume A: "table_clear (Some t) (Some destroy_value_wrapper) w = Inr (0, Some t', freed w (entries (buckets t)))"
      "db (freed w (entries (buckets t))) t'" "same_frame t t'" "elem_count t' = 0"
      "contents (freed w (entries (buckets t))) t' = Map.empty"
      "outside (freed w (entries (buckets t))) t' = outside w t"
    then have "stored (freed w (entries (buckets t))) t' = Map.empty" by (simp add: stored_def fun_eq_iff)
    with A assms show ?thesis by (simp add: same_frame_cover same_frame_simps freed_def)
  qed
qed

section \<open>Counting keys\<close>

lemma size_unique:
  assumes "\<And>x. count M x \<le> 1"
  shows "size M = card (set_mset M)"
proof -
  have "count M x = 1" if "x \<in># M" for x using assms [of x] that by (simp add: le_Suc_eq count_eq_zero_iff)
  then show ?thesis by (simp add: size_multiset_overloaded_eq)
qed

lemma stored_dom:
  assumes "table_wf t"
  shows "dom (stored w t) = entry_key ` set_mset (entries (buckets t))"
proof -
  have "dom (stored w t) = dom (table_lookup t)" by (auto simp: stored_def contents_def)
  also have "\<dots> = entry_key ` set_mset (entries (buckets t))"
  proof -
    have "h = djb2 k" if "(h, k, v) \<in># entries (buckets t)" for h k v
      using assms that by (fastforce simp: table_wf_def keyed_def)
    then show ?thesis
      by (auto simp: dom_def table_lookup_iff [OF assms] image_iff) (metis entry_simps(1))
  qed
  finally show ?thesis .
qed

lemma entries_card:
  assumes "table_wf t"
  shows "size (entries (buckets t)) = card (dom (stored w t))"
  using size_unique [of "image_mset entry_key (entries (buckets t))"] assms stored_dom [OF assms, of w]
  by (simp add: table_wf_def unique_keys_def)

lemma size_slot_entry: "size (slot_entry b j) \<le> 1"
  by (simp add: slot_entry_def)

lemma size_sum_le:
  fixes f :: "nat \<Rightarrow> 'a multiset"
  assumes "\<And>i. i < n \<Longrightarrow> size (f i) \<le> c"
  shows "size (\<Sum>i < n. f i) \<le> c * n"
  using assms
proof (induction n)
  case (Suc n)
  have "size (\<Sum>i < n. f i) \<le> c * n" using Suc by simp
  moreover have "size (f n) \<le> c" using Suc.prems by simp
  ultimately show ?case by (simp only: sum.lessThan_Suc size_union mult_Suc_right)
qed simp

lemma size_entries_le: "size (entries bs) \<le> 8 * length bs"
proof -
  have "size (bucket_entries b) \<le> 8" for b
    unfolding bucket_entries_def using size_sum_le [of 8 "slot_entry b" 1, OF size_slot_entry] by simp
  then show ?thesis unfolding entries_def by (intro size_sum_le) simp
qed

text \<open>A full bucket holds eight different keys.\<close>

lemma bucket_full_card:
  assumes "db w t" and "bucket_full t k"
  shows "8 \<le> card (dom (stored w t))"
proof -
  let ?i = "bucket_index (buckets_count t) (djb2 k)"
  have wf: "table_wf t" and shape: "table_shape t" using assms(1) by (simp_all add: db_ok_def table_wf_def)
  have "size (bucket_entries (key_bucket t k)) = (\<Sum>j < 8. size (slot_entry (key_bucket t k) j))"
    by (simp add: bucket_entries_def)
  also have "\<dots> = 8" using assms(2) by (simp add: bucket_full_def slot_entry_def)
  finally have full: "size (bucket_entries (buckets t ! ?i)) = 8" by (simp add: key_bucket_def)
  have "bucket_entries (buckets t ! ?i) \<subseteq># entries (buckets t)"
    unfolding entries_def using bucket_index_less [OF shape] by (simp add: sum.remove [of _ ?i])
  then have "8 \<le> size (entries (buckets t))" using full size_mset_mono by metis
  then show ?thesis using entries_card [OF wf, of w] by simp
qed

lemma finite_stored: "db w t \<Longrightarrow> finite (dom (stored w t))"
  by (simp add: stored_dom db_ok_def)

section \<open>Memory outside the database\<close>

lemma db_ok_outside:
  assumes db: "db_ok valid w t" and ok: "world_ok w'"
    and same: "\<And>a. Ptr a 0 \<in> footprint t \<Longrightarrow> heap w' a = heap w a"
  shows "db_ok valid w' t" and "contents w' t = contents w t"
proof -
  have "structs_ok w' t"
    using db_ok_simps(3) [OF db] same unfolding structs_ok_def footprint_def struct_ptrs_def by fastforce
  moreover have "owns valid w' (entries (buckets t))"
    using db_ok_simps(4) [OF db] by (rule owns_heap) (use same in \<open>simp add: footprint_def\<close>)
  ultimately show "db_ok valid w' t" using db_ok_simps(2) [OF db] ok by (simp add: db_ok_def)
  show "contents w' t = contents w t"
  proof
    fix k
    show "contents w' t k = contents w t k"
    proof (cases "table_lookup t k")
      case (Some v)
      then have "(djb2 k, k, v) \<in># entries (buckets t)" by (simp add: table_lookup_iff [OF db_ok_simps(2) [OF db]])
      then have "v \<in> footprint t" by (force simp: footprint_def)
      moreover obtain a cs where "v = Ptr a 0" "heap w a = Some cs" by (rule owned_block [OF db Some])
      ultimately show ?thesis using Some same by (simp add: contents_def block_def)
    qed (simp add: contents_def)
  qed
qed

end
