(* ===== verification/Database.thy ===== *)
theory Database
  imports Samples Store
begin

text \<open>
  What the table operations of src/src/hashtable.c do to a database: the properties of the table at the
  level of keys and the bytes stored under them. Each statement fixes the result code, the new contents,
  the memory outside the table (so that no call leaks or frees a foreign block), and that the invariant
  and the locks are as before.
\<close>

section \<open>Keyed operations\<close>

text \<open>C8. \<open>table_set\<close> on a key shorter than KEY_MAX_LEN stores the value, freeing the block it replaces,
  unless the key is absent and its bucket is full: then it answers -2 and changes nothing. Locks,
  invariant and all other keys are untouched, and no other block is freed or leaked.\<close>

theorem table_set_stores:
  assumes "serves w t" and "terminated key" and "length (cstr key) < KEY_MAX_LEN"
    and "new_entry w t a d"
  shows "\<exists>rc t' w'.
    table_set (Some t) (Some key) (Ptr a 0) (Some destroy_value_wrapper) w = Inr (rc, Some t', w') \<and>
    serves w' t' \<and> locks t' = locks t \<and>
    (if stored w t (cstr key) = None \<and> bucket_full t (cstr key) then rc = - 2 \<and> t' = t \<and> w' = w
     else rc = 0 \<and> stored w' t' = (stored w t)(cstr key \<mapsto> d) \<and> outside w' t' = (outside w t)(a := None))"
  using set_spec [OF assms] by blast

theorem table_set_stores_witness:
  "\<exists>t' w'. table_set (Some table0) (Some key_a) (Ptr 3 0) (Some destroy_value_wrapper) world1 = Inr (0, Some t', w') \<and>
     serves w' t' \<and> stored w' t' = [[97] \<mapsto> data_x] \<and> outside w' t' = (outside world1 table0)(3 := None)"
proof -
  have "\<not> bucket_full table0 [97]" using free_slot0 free_slot_full [of table0 "[97]"] by simp
  then show ?thesis using table_set_stores [of world1 table0 key_a 3 data_x] db1 db0(2) new1 by auto
qed

text \<open>C9. \<open>table_get\<close> returns NULL for a key that is absent, and for a present one a fresh copy of its
  entry, unless the allocation of the copy is refused; the database is not changed either way.\<close>

theorem table_get_returns:
  assumes "serves w t" and "terminated key"
  shows "\<exists>p w'. table_get (Some t) (Some key) (Some std_value_sizer) w = Inr (p, Some t, w') \<and>
    serves w' t \<and> stored w' t = stored w t \<and>
    (case stored w t (cstr key) of
       None \<Rightarrow> p = NULL \<and> w' = w
     | Some d \<Rightarrow>
         p = NULL \<and> heap w' = heap w \<and> fst (malloc (of_nat (length (data_entry d))) w) = NULL \<or>
         p = Ptr (fresh w) 0 \<and> heap w' = (heap w)(fresh w \<mapsto> data_entry d))"
  using get_spec [OF assms] by blast

theorem table_get_returns_witness:
  "\<exists>p w'. table_get (Some table1) (Some key_a) (Some std_value_sizer) world1 = Inr (p, Some table1, w') \<and>
     serves w' table1 \<and> stored w' table1 = [[97] \<mapsto> data_x] \<and>
     p = Ptr 4 0 \<and> heap w' = (heap world1)(4 \<mapsto> data_entry data_x)"
proof -
  have "sys_fails world1 = []" "fresh world1 = 4" by (simp_all add: world1_def world0_def)
  with table_get_returns [of world1 table1 key_a] db2 malloc_grants [of world1 "of_nat (length (data_entry data_x))"]
  show ?thesis by (simp add: data_x_def unat_of_nat)
qed

text \<open>C10. \<open>table_add\<close> on a short key stores the value exactly when the key is absent and its bucket has
  room; it answers -3 for a key that is present and -2 for a full bucket, changing nothing then.\<close>

theorem table_add_stores:
  assumes "serves w t" and "terminated key" and "length (cstr key) < KEY_MAX_LEN"
    and "new_entry w t a d"
  shows "\<exists>rc t'. table_add (Some t) (Some key) (Ptr a 0) = Inr (rc, Some t') \<and>
    serves w t' \<and> locks t' = locks t \<and>
    (if stored w t (cstr key) \<noteq> None then rc = - 3 \<and> t' = t
     else if bucket_full t (cstr key) then rc = - 2 \<and> t' = t
     else rc = 0 \<and> stored w t' = (stored w t)(cstr key \<mapsto> d) \<and> outside w t' = (outside w t)(a := None))"
  using add_spec [OF assms] by blast

theorem table_add_stores_witness:
  "\<exists>rc t'. table_add (Some table1) (Some key_a) (Ptr 4 0) = Inr (rc, Some t') \<and> rc = - 3 \<and> t' = table1"
  using table_add_stores [of world2 table1 key_a 4 "[]"] db3 db2(2) by auto

text \<open>C11. \<open>table_replace\<close> exchanges the value of a present key, freeing the old block, and answers -2
  for an absent key, changing nothing.\<close>

theorem table_replace_stores:
  assumes "serves w t" and "terminated key" and "new_entry w t a d"
  shows "\<exists>rc t' w'.
    table_replace (Some t) (Some key) (Ptr a 0) (Some destroy_value_wrapper) w = Inr (rc, Some t', w') \<and>
    serves w' t' \<and> locks t' = locks t \<and>
    (rc = 0 \<and> stored w t (cstr key) \<noteq> None \<and> stored w' t' = (stored w t)(cstr key \<mapsto> d) \<and>
       outside w' t' = (outside w t)(a := None) \<or>
     rc = - 2 \<and> t' = t \<and> w' = w \<and> stored w t (cstr key) = None)"
  using replace_spec [OF assms] by blast

theorem table_replace_stores_witness:
  "\<exists>rc t' w'. table_replace (Some table1) (Some key_a) (Ptr 4 0) (Some destroy_value_wrapper) world2 = Inr (rc, Some t', w') \<and>
     rc = 0 \<and> stored w' t' = [[97] \<mapsto> []]"
  using table_replace_stores [of world2 table1 key_a 4 "[]"] db3 db2(2) by auto

text \<open>C12. \<open>table_delete\<close> removes a present key and frees its value, and answers -1 for an absent key,
  changing nothing; the memory outside the table is the same.\<close>

theorem table_delete_removes:
  assumes "serves w t" and "terminated key"
  shows "\<exists>rc t' w'. table_delete (Some t) (Some key) (Some destroy_value_wrapper) w = Inr (rc, Some t', w') \<and>
    serves w' t' \<and> locks t' = locks t \<and> outside w' t' = outside w t \<and>
    stored w' t' = (stored w t)(cstr key := None) \<and>
    (if stored w t (cstr key) = None then rc = - 1 \<and> t' = t \<and> w' = w else rc = 0)"
  using delete_spec [OF assms] by blast

theorem table_delete_removes_witness:
  "\<exists>rc t' w'. table_delete (Some table1) (Some key_a) (Some destroy_value_wrapper) world1 = Inr (rc, Some t', w') \<and>
     rc = 0 \<and> stored w' t' = Map.empty"
  using table_delete_removes [of world1 table1 key_a] db2 by auto

text \<open>\<open>table_exist\<close> answers whether the key is stored and changes nothing.\<close>

theorem table_exist_answers:
  assumes "serves w t" and "terminated key"
  shows "table_exist (Some t) (Some key) = Inr (stored w t (cstr key) \<noteq> None, Some t)"
  using exist_spec [OF assms] by blast

theorem table_exist_answers_witness:
  "table_exist (Some table1) (Some key_a) = Inr (True, Some table1)"
  using table_exist_answers [of world1 table1 key_a] db2 by simp

section \<open>Keys of KEY_MAX_LEN bytes and more\<close>

lemma long_key_absent:
  assumes "table_shape t" and "255 \<le> length k"
  shows "key_slot t k = None" and "table_lookup t k = None"
proof -
  have shape: "bucket_shape (key_bucket t k)" using assms(1) by (rule key_bucket_shape)
  have "cstr (keys (key_bucket t k) ! j) \<noteq> k" if "j < 8" for j
  proof -
    have "keys (key_bucket t k) ! j \<in> set (keys (key_bucket t k))" using shape that by (simp add: bucket_shape_def)
    with shape have "length (cstr (keys (key_bucket t k) ! j)) < 255"
      using length_cstr_less [of "keys (key_bucket t k) ! j"] by (simp add: bucket_shape_def)
    with assms(2) show ?thesis by auto
  qed
  then show "key_slot t k = None" by (simp add: key_slot_def find_slots_None slot_has_def)
  then show "table_lookup t k = None" by (simp add: table_lookup_slot)
qed

text \<open>\<open>table_set\<close> refuses a key of KEY_MAX_LEN bytes or more with -3 before it touches a lock or a bucket.\<close>

theorem table_set_long_key:
  assumes "terminated key" and "KEY_MAX_LEN \<le> length (cstr key)" and "length (cstr key) < 2 ^ 64"
  shows "table_set (Some t) (Some key) v d w = Inr (- 3, Some t, w)"
  using assms by (intro set_long) simp_all

theorem table_set_long_key_witness:
  "table_set (Some table0) (Some (replicate 255 97 @ [0])) NULL None world0 = Inr (- 3, Some table0, world0)"
proof -
  have "cstr (replicate 255 (97 :: byte) @ [0]) = replicate 255 97" by simp
  then show ?thesis by (intro table_set_long_key) simp_all
qed

text \<open>C36. \<open>table_add\<close> has no such check: for a key of KEY_MAX_LEN bytes or more whose bucket has room it
  answers 0 and counts a new element, but what it stores is the key cut to 254 bytes, so the very key
  just added is not found again and adding it once more takes another slot.\<close>

theorem table_add_long_key_lost:
  assumes "serves w t" and "terminated key" and "KEY_MAX_LEN \<le> length (cstr key)"
    and "\<not> bucket_full t (cstr key)"
  shows "\<exists>t'. table_add (Some t) (Some key) v = Inr (0, Some t') \<and> elem_count t' = elem_count t + 1 \<and>
    entries (buckets t') = add_mset (djb2 (cstr key), take 254 (cstr key), v) (entries (buckets t)) \<and>
    table_exist (Some t') (Some key) = Inr (False, Some t') \<and>
    table_get (Some t') (Some key) (Some std_value_sizer) w = Inr (NULL, Some t', w)"
proof -
  let ?k = "cstr key"
  have r: "ready t key ?k" using assms(1,2) by (rule serves_ready)
  have shape: "table_shape t" using r by (simp add: ready_def)
  from assms(4) obtain j where j: "free_slot t ?k = Some j"
    by (cases "free_slot t ?k") (simp_all add: free_slot_full)
  let ?t = "inserted t ?k j v"
  note ins = inserted_entries [OF r j, of v]
  have "table_shape ?t" unfolding inserted_def using shape ins(2) by (rule with_bucket_shape)
  then have r': "ready ?t key ?k"
    using r same_frame_cover [OF ins(3)] by (simp add: ready_def)
  have gone: "table_lookup ?t ?k = None"
    using \<open>table_shape ?t\<close> assms(3) by (intro long_key_absent(2)) simp_all
  have "table_add (Some t) (Some key) v = Inr (0, Some ?t)"
    using r j assms(3) by (intro add_fresh) (simp_all add: long_key_absent(1) [OF shape])
  moreover have "elem_count ?t = elem_count t + 1" by (simp add: inserted_def)
  ultimately show ?thesis
    using ins(1) exist_result [OF r'] get_missing [OF r'] gone by (intro exI [of _ ?t]) simp
qed

theorem table_add_long_key_lost_witness:
  "\<exists>t'. table_add (Some table0) (Some (replicate 255 97 @ [0])) NULL = Inr (0, Some t') \<and> elem_count t' = 1 \<and>
     table_exist (Some t') (Some (replicate 255 97 @ [0])) = Inr (False, Some t')"
proof -
  have "cstr (replicate 255 (97 :: byte) @ [0]) = replicate 255 97" by simp
  moreover have "\<not> bucket_full table0 k" for k using free_slot0 free_slot_full [of table0 k] by simp
  moreover have "elem_count table0 = 0" by (simp add: table0_def)
  ultimately show ?thesis
    using table_add_long_key_lost [of world0 table0 "replicate 255 97 @ [0]" NULL] db0 by auto
qed

section \<open>Life cycle\<close>

text \<open>C15. \<open>table_create\<close> with a capacity that can be rounded up to a power of two either fails leaving the
  memory as it was, whichever allocation or lock initialisation was refused, or returns an empty
  database with the rounded number of buckets, a lock for each, and no other memory touched.\<close>

theorem table_create_empty:
  assumes "world_ok w" and "cap \<noteq> 0" and "unat cap \<le> 2 ^ 63"
  shows "\<exists>r w'. table_create cap w = Inr (r, w') \<and>
    (case r of
       None \<Rightarrow> heap w' = heap w \<and> world_ok w'
     | Some t \<Rightarrow> serves w' t \<and> stored w' t = Map.empty \<and> elem_count t = 0 \<and>
         buckets_count t = adjust_capacity cap \<and> is_pow2 (buckets_count t) \<and> outside w' t = heap w)"
  using assms
proof (cases rule: create_ok [where valid = valid_entry])
  case (created t w')
  have "table_lookup t = Map.empty"
    by (intro table_lookup_ext [OF db_ok_simps(2) [OF created(2)]]) (simp add: created(4))
  then have "stored w' t = Map.empty" by (simp add: stored_def contents_def fun_eq_iff)
  moreover have "is_pow2 (adjust_capacity cap)" using assms(2,3) by (rule adjust_capacity_pow2)
  ultimately show ?thesis using created by (intro exI [of _ "Some t"] exI [of _ w']) simp
qed simp

theorem table_create_empty_witness:
  "\<exists>t w'. table_create 1 empty_world = Inr (Some t, w') \<and> serves w' t \<and> stored w' t = Map.empty \<and>
     elem_count t = 0 \<and> buckets_count t = 1 \<and> outside w' t = heap empty_world"
  using table_create_empty [OF world_ok_empty, of 1] by (simp add: create_table0)

text \<open>A capacity above \<open>2 ^ 63\<close> is rounded to zero: when the allocations succeed \<open>table_create\<close> returns
  a table without buckets or locks, and the first operation on any key runs off the lock array.\<close>

theorem table_create_wraps_to_nothing:
  assumes "2 ^ 63 < unat cap" and "sys_fails w = []"
  shows "\<exists>t w'. table_create cap w = Inr (Some t, w') \<and> buckets_count t = 0 \<and> lock_count t = 0 \<and>
    (\<forall>key. terminated key \<longrightarrow> table_exist (Some t) (Some key) = Inl LockOverrun)"
proof -
  have 0: "adjust_capacity cap = 0" using assms(1) by (rule adjust_capacity_wraps)
  have "cap \<noteq> 0" using assms(1) by auto
  with 0 assms(2) obtain t w' where t: "table_create cap w = Inr (Some t, w')" "buckets_count t = 0"
    "lock_count t = 0" "locks t = []"
    by (simp add: table_create_def heap_simps Let_def sizeof_hashtable_def)
  have "table_exist (Some t) (Some key) = Inl LockOverrun" if "terminated key" for key
    using that t(4) by (intro lockless_exist) (simp add: lockless_def)
  with t show ?thesis by blast
qed

theorem table_create_wraps_to_nothing_witness:
  "\<exists>t w'. table_create (2 ^ 63 + 1) empty_world = Inr (Some t, w') \<and> buckets_count t = 0 \<and> lock_count t = 0 \<and>
     (\<forall>key. terminated key \<longrightarrow> table_exist (Some t) (Some key) = Inl LockOverrun)"
  by (rule table_create_wraps_to_nothing) (simp_all add: empty_world_def)

text \<open>C16. \<open>table_destroy\<close> on a database answers 0 and frees exactly the blocks of the table: its values and
  its three structs are gone and everything else is as before, so nothing leaks.\<close>

theorem table_destroy_frees_all:
  assumes "db w t"
  shows "table_destroy (Some t) (Some destroy_value_wrapper) w = Inr (0, w\<lparr>heap := outside w t\<rparr>)"
  using assms by (rule dv.table_destroy_ok)

theorem table_destroy_frees_all_witness:
  "\<exists>w'. table_destroy (Some table1) (Some destroy_value_wrapper) world1 = Inr (0, w') \<and> heap w' = Map.empty"
proof -
  have "footprint table1 = {Ptr 0 0, Ptr 1 0, Ptr 2 0, Ptr 3 0}"
    by (simp add: footprint_def entries1) (auto simp: struct_ptrs_def table1_def inserted_def with_bucket_def table0_def)
  then have "outside world1 table1 = Map.empty"
    by (auto simp: outside_def world1_def world0_def fun_eq_iff)
  then show ?thesis using table_destroy_frees_all [OF db2(1)] by simp
qed

text \<open>C14. \<open>table_clear\<close> on a database answers 0 and empties it: no key is stored, the element count is
  zero, every value is freed and no other block is, and the locks are free again.\<close>

theorem table_clear_empties:
  assumes "serves w t"
  shows "\<exists>t' w'. table_clear (Some t) (Some destroy_value_wrapper) w = Inr (0, Some t', w') \<and>
    serves w' t' \<and> stored w' t' = Map.empty \<and> elem_count t' = 0 \<and> locks t' = locks t \<and>
    buckets_count t' = buckets_count t \<and> outside w' t' = outside w t"
  using clear_spec [OF assms] by blast

theorem table_clear_empties_witness:
  "\<exists>t' w'. table_clear (Some table1) (Some destroy_value_wrapper) world1 = Inr (0, Some t', w') \<and>
     serves w' t' \<and> stored w' t' = Map.empty \<and> elem_count t' = 0"
  using table_clear_empties [of world1 table1] db2 by auto

text \<open>When some lock of the table is held, \<open>table_clear\<close> answers -1, gives back the locks it had taken,
  and changes neither the table nor the memory.\<close>

theorem table_clear_held_lock:
  assumes "length (locks t) = unat (lock_count t)" and "i < length (locks t)" and "locks t ! i \<noteq> Unlocked"
  shows "table_clear (Some t) d w = Inr (- 1, Some t, w)"
proof -
  have "fst (wr_acquire (locks t ! i)) \<noteq> 0"
    using assms(3) by (cases "locks t ! i") (auto simp: EDEADLK_def)
  then have "lock_all wr_acquire (unat (lock_count t)) (locks t) = Inr (- 1, locks t)"
    using assms(1,2) by (intro wr.lock_all_held) simp_all
  then show ?thesis by (simp add: table_clear_def)
qed

theorem table_clear_held_lock_witness:
  "table_clear (Some (table0\<lparr>locks := [Readers 1]\<rparr>)) None world0 =
    Inr (- 1, Some (table0\<lparr>locks := [Readers 1]\<rparr>), world0)"
  by (rule table_clear_held_lock [of _ 0]) (simp_all add: table0_def)

section \<open>Resizing\<close>

text \<open>C13. \<open>table_resize\<close> never loses, changes or invents an entry: for every request that can be rounded
  it returns, the contents and the element count are the same, no foreign block is freed or leaked, and
  either it answers 0 and the table has the rounded number of buckets, or it answers -1 and the table
  and the heap are as before.\<close>

theorem table_resize_preserves:
  assumes "db w t" and "requested \<noteq> 0" and "unat requested \<le> 2 ^ 63"
  shows "\<exists>rc t' w'. table_resize (Some t) requested w = Inr (rc, Some t', w') \<and>
    db w' t' \<and> stored w' t' = stored w t \<and> elem_count t' = elem_count t \<and> outside w' t' = outside w t \<and>
    (rc = 0 \<and> buckets_count t' = adjust_capacity requested \<or> rc = - 1 \<and> t' = t \<and> heap w' = heap w)"
proof (rule dv.resize_ok [OF assms])
  fix rc t' w' assume A: "table_resize (Some t) requested w = Inr (rc, Some t', w')" "db w' t'"
    "contents w' t' = contents w t" "outside w' t' = outside w t" "elem_count t' = elem_count t"
    "rc = - 1 \<and> t' = t \<and> heap w' = heap w \<or> rc = 0 \<and> buckets_count t' = adjust_capacity requested"
  have "stored w' t' = stored w t" using A(3) by (rule contents_stored)
  with A show ?thesis by (intro exI [of _ rc] exI [of _ t'] exI [of _ w']) auto
qed

theorem table_resize_preserves_witness:
  "\<exists>rc t' w'. table_resize (Some table1) 5 world1 = Inr (rc, Some t', w') \<and> db w' t' \<and>
     stored w' t' = [[97] \<mapsto> data_x] \<and> elem_count t' = elem_count table1 \<and> outside w' t' = outside world1 table1 \<and>
     (rc = 0 \<and> buckets_count t' = adjust_capacity 5 \<or> rc = - 1 \<and> t' = table1 \<and> heap w' = heap world1)"
  using table_resize_preserves [OF db2(1), of 5] by (simp add: db2(3))

text \<open>A request whose rounded size is below the number of elements is refused with -1 and changes
  nothing: the locks are taken and given back.\<close>

theorem table_resize_too_small:
  assumes "table_shape t" and "requested \<noteq> 0" and "adjust_capacity requested < elem_count t"
    and "adjust_capacity requested \<noteq> buckets_count t"
  shows "table_resize (Some t) requested w = Inr (- 1, Some t, w)"
proof -
  obtain L where "lock_all wr_acquire (unat (lock_count t)) (locks t) = Inr (0, L)"
    "unlock_all (unat (lock_count t)) L = Inr (locks t)"
    using assms(1) by (rule write_all_guard)
  with assms show ?thesis by (simp add: table_resize_def Let_def)
qed

definition table2 :: hashtable where
  "table2 = table0\<lparr>buckets := [fill_slot zero_bucket 0 2 (replicate 255 0) NULL,
     fill_slot zero_bucket 0 1 (replicate 255 0) NULL],
     buckets_count := 2, elem_count := 2, locks := [Unlocked, Unlocked], lock_count := 2\<rparr>"

theorem table_resize_too_small_witness:
  "table_resize (Some table2) 1 world0 = Inr (- 1, Some table2, world0)"
proof (rule table_resize_too_small)
  have "idle 2 = [Unlocked, Unlocked]" by (simp add: idle_def numeral_2_eq_2)
  then show "table_shape table2"
    by (simp add: table_shape_def table2_def table0_def fill_slot_shape terminated_def is_pow2_def)
qed (simp_all add: table2_def)

text \<open>C35. Growth outruns the locks: after a resize that answers 0 and makes the table larger than its lock
  array, every operation on a key whose bucket has no lock accesses memory past the end of the array.\<close>

theorem table_resize_outgrows_locks:
  assumes "db w t" and "table_resize (Some t) requested w = Inr (0, Some t', w')"
    and "requested \<noteq> 0" and "unat requested \<le> 2 ^ 63"
    and "terminated key" and "unat (lock_count t) \<le> key_index t' (cstr key)"
  shows "table_exist (Some t') (Some key) = Inl LockOverrun \<and>
    table_get (Some t') (Some key) (Some std_value_sizer) w' = Inl LockOverrun \<and>
    table_add (Some t') (Some key) v = Inl LockOverrun \<and>
    table_delete (Some t') (Some key) d w' = Inl LockOverrun \<and>
    table_replace (Some t') (Some key) v d w' = Inl LockOverrun"
proof -
  have "lockless t' key"
  proof (rule dv.resize_ok [OF assms(1,3,4)])
    fix rc t1 w1 assume "table_resize (Some t) requested w = Inr (rc, Some t1, w1)" "db w1 t1"
      "lock_count t1 = lock_count t"
    with assms(2,5,6) show "lockless t' key"
      by (simp add: lockless_def key_index_def db_ok_def table_wf_def table_shape_def)
  qed
  then show ?thesis
    by (simp add: lockless_exist lockless_get lockless_add lockless_delete lockless_replace)
qed

definition table0_grown :: hashtable where
  "table0_grown = table0\<lparr>buckets_ptr := Ptr 3 0, buckets := [zero_bucket, zero_bucket], buckets_count := 2\<rparr>"

lemma grow_table0: "\<exists>w'. table_resize (Some table0) 2 world0 = Inr (0, Some table0_grown, w')"
proof -
  have pow2: "is_pow2 2" by (simp add: is_pow2_def)
  have "place_entry b h row v [] = None" for b h row v by simp
  have none: "rehash_slots zero_bucket c is nb = Inr (Some nb)" if "set is \<subseteq> {..<8}" for c "is" nb
    using that by (induction "is") (simp_all add: zero_bucket_def)
  have "rehash_slots zero_bucket 2 slots nb = Inr (Some nb)" for nb by (rule none) simp
  moreover have "replicate 2 zero_bucket = [zero_bucket, zero_bucket]" by (simp add: numeral_2_eq_2)
  ultimately show ?thesis
    by (simp add: table_resize_def Let_def adjust_capacity_id [OF pow2] table0_def table0_grown_def world0_def
        lock_all_def acquire_at_def unlock_all_def pthread_rwlock_unlock_def heap_simps
        sizeof_bucket_def nth_bucket_def free_def)
qed

theorem table_resize_outgrows_locks_witness:
  "table_exist (Some table0_grown) (Some [98, 0]) = Inl LockOverrun"
proof -
  obtain w' where w': "table_resize (Some table0) 2 world0 = Inr (0, Some table0_grown, w')"
    using grow_table0 by blast
  have "key_index table0_grown [98] = 1"
    by (simp add: key_index_def bucket_index_def table0_grown_def djb2_def)
  then show ?thesis
    using table_resize_outgrows_locks [OF db0(1) w', of "[98, 0]"] by (simp add: table0_def)
qed

section \<open>Counts\<close>

text \<open>\<open>table_total_elem\<close> is the number of keys stored, and it is at most \<open>table_capacity\<close>.\<close>

theorem table_total_elem_counts:
  assumes "db w t" and "length (buckets t) < 2 ^ 60"
  shows "table_total_elem (Some t) = Inr (elem_count t) \<and>
    unat (elem_count t) = card (dom (stored w t)) \<and> elem_count t \<le> table_capacity (Some t)"
proof -
  have wf: "table_wf t" using assms(1) by (simp add: db_ok_def)
  have len: "unat (buckets_count t) = length (buckets t)" using wf by (simp add: table_wf_def table_shape_def)
  have el: "elem_count t = of_nat (card (dom (stored w t)))"
    using wf entries_card [OF wf, of w] by (simp add: table_wf_def)
  have le: "card (dom (stored w t)) \<le> 8 * length (buckets t)"
    using size_entries_le [of "buckets t"] entries_card [OF wf, of w] by simp
  with assms(2) have n: "unat (elem_count t) = card (dom (stored w t))" by (simp add: el unat_of_nat)
  have "unat (table_capacity (Some t)) = 8 * length (buckets t)"
    using assms(2) by (simp add: table_capacity_def unat_word_ariths len)
  with n le show ?thesis by (simp add: word_le_nat_alt table_total_elem_def)
qed

theorem table_total_elem_counts_witness:
  "table_total_elem (Some table1) = Inr (elem_count table1) \<and> unat (elem_count table1) = 1 \<and>
     elem_count table1 \<le> table_capacity (Some table1)"
proof -
  have "length (buckets table1) = 1"
    by (simp add: table1_def inserted_def with_bucket_def) (simp add: table0_def)
  then show ?thesis using table_total_elem_counts [OF db2(1)] by (simp add: db2(3))
qed

text \<open>With a lock for every bucket \<open>table_memory_usage\<close> is the size of the structs plus the size of every
  stored entry, modulo \<open>2 ^ 64\<close>, and leaves the table as it was; without the sizer it counts the structs
  only.\<close>

theorem table_memory_usage_sums:
  assumes "serves w t"
  shows "table_memory_usage (Some t) (Some std_value_sizer) w =
    Inr (of_nat (sizeof_hashtable + unat (buckets_count t) * sizeof_bucket + unat (lock_count t) * sizeof_rwlock
           + (\<Sum>e \<in># entries (buckets t). length (block w (entry_value e)))), Some t)"
  using dv.memory_usage_ok assms by (simp add: total_bytes_def)

theorem table_memory_usage_sums_witness:
  "table_memory_usage (Some table1) (Some std_value_sizer) world1 = Inr (2281, Some table1)"
proof -
  have "buckets_count table1 = 1" "lock_count table1 = 1"
    by (simp_all add: table1_def inserted_def with_bucket_def table0_def)
  moreover have "block world1 (Ptr 3 0) = data_entry data_x" by (simp add: block_def world1_def)
  ultimately show ?thesis
    using table_memory_usage_sums [of world1 table1] db2(1,2)
    by (simp add: entries1 data_x_def sizeof_hashtable_def sizeof_bucket_def sizeof_rwlock_def)
qed

end
