(* ===== verification/History.thy ===== *)
theory History
  imports Database
begin

text \<open>
  The states a table of src/src/hashtable.c comes to in the hands of a careful caller: what \<open>table_create\<close> returns,
  changed by calls of the operations in any order, while the rest of the program uses the memory outside the
  table. What the caller keeps to is written down as the premises of the rules. Keys are terminated strings and a value
  handed over is a block of its own, as the functions expect. Two conditions are not checked by the code and
  make up for its defects (see Database): \<open>table_add\<close> gets no key of KEY_MAX_LEN bytes or more, which it would lose, and \<open>table_resize\<close>
  no size above the number of locks, which it does not extend, or above \<open>2 ^ 63\<close>, which rounds to no bucket at all.
\<close>

inductive table_history :: "world \<Rightarrow> hashtable \<Rightarrow> bool" where
  created: "world_ok w \<Longrightarrow> cap \<noteq> 0 \<Longrightarrow> unat cap \<le> 2 ^ 63 \<Longrightarrow> table_create cap w = Inr (Some t, w') \<Longrightarrow>
    table_history w' t"
| elsewhere: "table_history w t \<Longrightarrow> world_ok w' \<Longrightarrow> (\<And>a. Ptr a 0 \<in> footprint t \<Longrightarrow> heap w' a = heap w a) \<Longrightarrow>
    table_history w' t"
| set: "table_history w t \<Longrightarrow> terminated key \<Longrightarrow> length (cstr key) < 2 ^ 64 \<Longrightarrow> new_entry w t a d \<Longrightarrow>
    table_set (Some t) (Some key) (Ptr a 0) (Some destroy_value_wrapper) w = Inr (rc, Some t', w') \<Longrightarrow> table_history w' t'"
| add: "table_history w t \<Longrightarrow> terminated key \<Longrightarrow> length (cstr key) < KEY_MAX_LEN \<Longrightarrow> new_entry w t a d \<Longrightarrow>
    table_add (Some t) (Some key) (Ptr a 0) = Inr (rc, Some t') \<Longrightarrow> table_history w t'"
| replace: "table_history w t \<Longrightarrow> terminated key \<Longrightarrow> new_entry w t a d \<Longrightarrow>
    table_replace (Some t) (Some key) (Ptr a 0) (Some destroy_value_wrapper) w = Inr (rc, Some t', w') \<Longrightarrow> table_history w' t'"
| delete: "table_history w t \<Longrightarrow> terminated key \<Longrightarrow>
    table_delete (Some t) (Some key) (Some destroy_value_wrapper) w = Inr (rc, Some t', w') \<Longrightarrow> table_history w' t'"
| get: "table_history w t \<Longrightarrow> terminated key \<Longrightarrow>
    table_get (Some t) (Some key) (Some std_value_sizer) w = Inr (p, Some t', w') \<Longrightarrow> table_history w' t'"
| exist: "table_history w t \<Longrightarrow> terminated key \<Longrightarrow> table_exist (Some t) (Some key) = Inr (b, Some t') \<Longrightarrow> table_history w t'"
| clear: "table_history w t \<Longrightarrow>
    table_clear (Some t) (Some destroy_value_wrapper) w = Inr (rc, Some t', w') \<Longrightarrow> table_history w' t'"
| resize: "table_history w t \<Longrightarrow> unat requested \<le> 2 ^ 63 \<Longrightarrow> adjust_capacity requested \<le> lock_count t \<Longrightarrow>
    table_resize (Some t) requested w = Inr (rc, Some t', w') \<Longrightarrow> table_history w' t'"

text \<open>The invariant holds at the start and every call keeps it.\<close>

lemma history_serves: "table_history w t \<Longrightarrow> serves w t"
proof (induction rule: table_history.induct)
  case (created w cap t w')
  from created(1-3) show ?case
    by (cases rule: create_ok [where valid = valid_entry]) (use created(4) in auto)
next
  case (elsewhere w t w')
  with db_ok_outside(1) [of valid_entry w t w'] show ?case by blast
next
  case (set w t key a d rc t' w')
  show ?case
  proof (cases "length (cstr key) < KEY_MAX_LEN")
    case True
    with set_spec [OF set(6,2) True set(4)] set(5) show ?thesis by auto
  next
    case False
    then have "table_set (Some t) (Some key) (Ptr a 0) (Some destroy_value_wrapper) w = Inr (- 3, Some t, w)"
      using set(2,3) by (intro set_long) simp_all
    with set(5,6) show ?thesis by simp
  qed
next
  case (add w t key a d rc t')
  with add_spec [OF add(6,2-4)] show ?case by auto
next
  case (replace w t key a d rc t' w')
  with replace_spec [OF replace(5,2,3)] show ?case by auto
next
  case (delete w t key rc t' w')
  with delete_spec [OF delete(4,2)] show ?case by auto
next
  case (get w t key p t' w')
  with get_spec [OF get(4,2)] show ?case by auto
next
  case (exist w t key b t')
  with exist_spec [OF exist(4,2)] show ?case by simp
next
  case (clear w t rc t' w')
  with clear_spec [OF clear(3)] show ?case by auto
next
  case (resize w t requested rc t' w')
  then have db: "db w t" by blast
  show ?case
  proof (cases "requested = 0")
    case True
    with resize(4,5) show ?thesis by (simp add: table_resize_def)
  next
    case False
    show ?thesis
      by (rule dv.resize_ok [OF db False resize(2)]) (use resize in \<open>auto simp: locks_cover_def\<close>)
  qed
qed

lemma set_returns:
  assumes "serves w t" and "terminated key" and "length (cstr key) < 2 ^ 64" and "new_entry w t a d"
  shows "\<exists>rc t' w'. table_set (Some t) (Some key) (Ptr a 0) (Some destroy_value_wrapper) w = Inr (rc, Some t', w')"
proof (cases "length (cstr key) < KEY_MAX_LEN")
  case True
  with set_spec [OF assms(1,2) True assms(4)] show ?thesis by blast
next
  case False
  then have "255 \<le> length (cstr key)" by simp
  from set_long [OF assms(2) this assms(3)] show ?thesis by blast
qed

lemma resize_returns:
  assumes "serves w t" and "unat requested \<le> 2 ^ 63"
  shows "\<exists>rc t' w'. table_resize (Some t) requested w = Inr (rc, Some t', w')"
proof (cases "requested = 0")
  case False
  have "db w t" using assms(1) by simp
  then show ?thesis by (rule dv.resize_ok [OF _ False assms(2)]) blast
qed (simp add: table_resize_def)

text \<open>C5. A table stays sound through any sequence of calls in which no \<open>table_add\<close> gets a key of KEY_MAX_LEN bytes or more
  and no \<open>table_resize\<close> asks for more buckets than there are locks: the database invariant holds with a lock for
  every bucket, the element count is the number of stored keys, no stored key has KEY_MAX_LEN bytes, and the next
  call of every operation, with the same exception for \<open>table_add\<close>, returns without a fault. The two excluded calls do go wrong: the first stores an entry that is never found, after the
  second operations leave the lock array.\<close>

theorem table_history_sound:
  assumes "table_history w t"
  shows "serves w t \<and> elem_count t = of_nat (card (dom (stored w t))) \<and>
    (\<forall>k. stored w t k \<noteq> None \<longrightarrow> length k < KEY_MAX_LEN) \<and>
    (\<forall>key. terminated key \<longrightarrow>
      (\<exists>p w'. table_get (Some t) (Some key) (Some std_value_sizer) w = Inr (p, Some t, w')) \<and>
      (\<exists>rc t' w'. table_delete (Some t) (Some key) (Some destroy_value_wrapper) w = Inr (rc, Some t', w')) \<and>
      table_exist (Some t) (Some key) = Inr (stored w t (cstr key) \<noteq> None, Some t)) \<and>
    (\<forall>key a d. terminated key \<longrightarrow> new_entry w t a d \<longrightarrow>
      (length (cstr key) < 2 ^ 64 \<longrightarrow>
        (\<exists>rc t' w'. table_set (Some t) (Some key) (Ptr a 0) (Some destroy_value_wrapper) w = Inr (rc, Some t', w'))) \<and>
      (length (cstr key) < KEY_MAX_LEN \<longrightarrow> (\<exists>rc t'. table_add (Some t) (Some key) (Ptr a 0) = Inr (rc, Some t'))) \<and>
      (\<exists>rc t' w'. table_replace (Some t) (Some key) (Ptr a 0) (Some destroy_value_wrapper) w = Inr (rc, Some t', w'))) \<and>
    (\<exists>t' w'. table_clear (Some t) (Some destroy_value_wrapper) w = Inr (0, Some t', w')) \<and>
    (\<forall>requested. unat requested \<le> 2 ^ 63 \<longrightarrow> (\<exists>rc t' w'. table_resize (Some t) requested w = Inr (rc, Some t', w')))"
proof -
  have s: "serves w t" using assms by (rule history_serves)
  then have wf: "table_wf t" by (simp add: db_ok_def)
  have count: "elem_count t = of_nat (card (dom (stored w t)))" using entries_card [OF wf, of w] wf by (simp add: table_wf_def)
  have short: "length k < KEY_MAX_LEN" if "stored w t k \<noteq> None" for k
  proof (rule ccontr)
    assume "\<not> length k < KEY_MAX_LEN"
    then have "table_lookup t k = None" using wf by (intro long_key_absent(2)) (simp_all add: table_wf_def)
    with that show False by (simp add: stored_def contents_def)
  qed
  show ?thesis
  proof (intro conjI allI impI)
    fix key assume key: "terminated key"
    show "\<exists>p w'. table_get (Some t) (Some key) (Some std_value_sizer) w = Inr (p, Some t, w')" using get_spec [OF s key] by blast
    show "\<exists>rc t' w'. table_delete (Some t) (Some key) (Some destroy_value_wrapper) w = Inr (rc, Some t', w')"
      using delete_spec [OF s key] by blast
    show "table_exist (Some t) (Some key) = Inr (stored w t (cstr key) \<noteq> None, Some t)" by (rule exist_spec [OF s key])
    fix a d assume new: "new_entry w t a d"
    show "\<exists>rc t' w'. table_replace (Some t) (Some key) (Ptr a 0) (Some destroy_value_wrapper) w = Inr (rc, Some t', w')"
      using replace_spec [OF s key new] by blast
    show "\<exists>rc t' w'. table_set (Some t) (Some key) (Ptr a 0) (Some destroy_value_wrapper) w = Inr (rc, Some t', w')"
      if "length (cstr key) < 2 ^ 64" using that by (rule set_returns [OF s key _ new])
    show "\<exists>rc t'. table_add (Some t) (Some key) (Ptr a 0) = Inr (rc, Some t')" if "length (cstr key) < KEY_MAX_LEN"
      using add_spec [OF s key that new] by blast
  qed (use s count short clear_spec [OF s] resize_returns [OF s] in blast)+
qed

text \<open>A table is created, another part of the program makes a value, and the value is stored.\<close>

theorem table_history_sound_witness:
  "\<exists>t w'. table_set (Some table0) (Some key_a) (Ptr 3 0) (Some destroy_value_wrapper) world1 = Inr (0, Some t, w') \<and>
     serves w' t \<and> elem_count t = 1 \<and> stored w' t = [[97] \<mapsto> data_x]"
proof -
  have "table_history world0 table0" by (rule table_history.created [OF world_ok_empty _ _ create_table0]) simp_all
  then have "table_history world1 table0"
  proof (rule table_history.elsewhere)
    show "world_ok world1" using db1(1) by (simp add: db_ok_def)
    show "heap world1 a = heap world0 a" if "Ptr a 0 \<in> footprint table0" for a
      using that by (simp add: footprint_def db0(3)) (auto simp: struct_ptrs_def table0_def world1_def)
  qed
  moreover have "\<not> bucket_full table0 [97]" using free_slot0 free_slot_full [of table0 "[97]"] by simp
  then have "\<exists>t w'. table_set (Some table0) (Some key_a) (Ptr 3 0) (Some destroy_value_wrapper) world1 = Inr (0, Some t, w') \<and>
      stored w' t = [[97] \<mapsto> data_x]"
    using set_spec [of world1 table0 key_a 3 data_x] db1 db0(2) new1 by auto
  then obtain t w' where set: "stored w' t = [[97] \<mapsto> data_x]"
    "table_set (Some table0) (Some key_a) (Ptr 3 0) (Some destroy_value_wrapper) world1 = Inr (0, Some t, w')"
    by blast
  ultimately have "table_history w' t" using new1 set(2)
    by (intro table_history.set [of world1 table0 key_a 3 data_x 0 t w']) simp_all
  from table_history_sound [OF this] set show ?thesis by simp
qed

end
