(* ===== verification/Libc.thy ===== *)
theory Libc
  imports CString
begin

text \<open>
  The functions of the C library the command layer calls on strings: \<open>strcmp\<close>, \<open>toupper\<close>, \<open>strtoul\<close> in
  base 10, \<open>bsearch\<close>, and \<open>snprintf\<close> with \<open>%zu\<close>. Strings are byte lists as in CString; \<open>bsearch\<close> is the
  halving search of the C library over the indices of an array, with the comparison as a parameter.
\<close>

section \<open>String literals\<close>

definition lit_bytes :: "string \<Rightarrow> byte list" where
  "lit_bytes s = map of_char s"

definition literal :: "string \<Rightarrow> cbuf" where
  "literal s = lit_bytes s @ [0]"

section \<open>Characters and comparison\<close>

definition toupper :: "byte \<Rightarrow> byte" where
  "toupper c = (if 97 \<le> c \<and> c \<le> 122 then c - 32 else c)"

definition isspace :: "byte \<Rightarrow> bool" where
  "isspace c \<longleftrightarrow> c = 32 \<or> (9 \<le> c \<and> c \<le> 13)"

definition strcmp :: "cbuf \<Rightarrow> cbuf \<Rightarrow> fault + int" where
  "strcmp s1 s2 = ustrcmp s1 s2"

lemma strcmp_zero:
  assumes "terminated s1" and "terminated s2"
  obtains r where "strcmp s1 s2 = Inr r" and "r = 0 \<longleftrightarrow> cstr s1 = cstr s2"
  using ustrcmp_terminated [OF assms] by (auto simp: strcmp_def)

section \<open>Numbers\<close>

text \<open>
  \<open>strtoul\<close>: white space, a sign, digits. The result is the value and the index \<open>endptr\<close> points to; without
  a digit that index is 0. A value that does not fit is ULONG_MAX; a minus sign negates the value modulo
  \<open>2 ^ 64\<close>. The scan reads up to the first byte that does not belong to the number.
\<close>

definition ULONG_MAX :: ulong where
  "ULONG_MAX = - 1"

definition strtoul :: "cbuf \<Rightarrow> fault + (ulong \<times> nat)" where
  "strtoul s =
     (case dropWhile isspace s of
        [] \<Rightarrow> Inl BufferOverrun
      | c # s1 \<Rightarrow>
          let s2 = (if c = 43 \<or> c = 45 then s1 else c # s1);
              ds = takeWhile is_digit s2; rest = dropWhile is_digit s2 in
          if rest = [] then Inl BufferOverrun
          else if ds = [] then Inr (0, 0)
          else
            let n = digits_value ds 0;
                v = (if n < 2 ^ 64 then (if c = 45 then - of_nat n else of_nat n) else ULONG_MAX) in
            Inr (v, length s - length rest))"

declare strtoul_def [cstr_simps] literal_def [cstr_simps] lit_bytes_def [cstr_simps] isspace_def [cstr_simps]
  is_digit_def [cstr_simps]

text \<open>
  \<open>strtol\<close> with a NULL \<open>endptr\<close>: the same scan for a signed result, which saturates at LONG_MIN and LONG_MAX
  and is 0 without a digit.
\<close>

definition strtol :: "cbuf \<Rightarrow> fault + 64 word" where
  "strtol s =
     (case dropWhile isspace s of
        [] \<Rightarrow> Inl BufferOverrun
      | c # s1 \<Rightarrow>
          let s2 = (if c = 43 \<or> c = 45 then s1 else c # s1); ds = takeWhile is_digit s2; n = digits_value ds 0 in
          if dropWhile is_digit s2 = [] then Inl BufferOverrun
          else if c = 45 then Inr (if n \<le> 2 ^ 63 then - of_nat n else 2 ^ 63)
          else Inr (if n < 2 ^ 63 then of_nat n else 2 ^ 63 - 1))"

text \<open>\<open>memchr\<close>: the index of the first occurrence among the first \<open>n\<close> bytes.\<close>

fun memchr :: "byte list \<Rightarrow> byte \<Rightarrow> nat \<Rightarrow> fault + nat option" where
  "memchr bs c 0 = Inr None"
| "memchr [] c (Suc n) = Inl BufferOverrun"
| "memchr (b # bs) c (Suc n) =
     (if b = c then Inr (Some 0) else bindE (memchr bs c n) (\<lambda>r. Inr (map_option Suc r)))"

text \<open>Decimal digits of a number, as \<open>%zu\<close> prints them.\<close>

fun nat_digits :: "nat \<Rightarrow> byte list" where
  "nat_digits n = (if n < 10 then [of_nat (48 + n)] else nat_digits (n div 10) @ [of_nat (48 + n mod 10)])"

declare nat_digits.simps [simp del]

definition fmt_zu :: "size_t \<Rightarrow> byte list" where
  "fmt_zu n = nat_digits (unat n)"

lemma digit_byte:
  assumes "n < 10"
  shows "unat (of_nat (48 + n) :: byte) = 48 + n" and "is_digit (of_nat (48 + n))"
proof -
  show u: "unat (of_nat (48 + n) :: byte) = 48 + n" using assms by (simp only: unat_of_nat) simp
  show "is_digit (of_nat (48 + n))"
    unfolding is_digit_def word_le_nat_alt u using assms by simp
qed

lemma digits_value_append: "digits_value (xs @ ys) n = digits_value ys (digits_value xs n)"
  by (induction xs n rule: digits_value.induct) simp_all

text \<open>Printing and reading back.\<close>

lemma nat_digits_value: "digits_value (nat_digits n) 0 = n"
proof (induction n rule: nat_digits.induct)
  case (1 n)
  show ?case
  proof (cases "n < 10")
    case True
    then show ?thesis using digit_byte(1) [of n] by (simp add: nat_digits.simps [of n])
  next
    case False
    have "n mod 10 < 10" by simp
    with False 1 digit_byte(1) [of "n mod 10"] show ?thesis
      by (simp add: nat_digits.simps [of n] digits_value_append)
  qed
qed

lemma nat_digits_are_digits: "c \<in> set (nat_digits n) \<Longrightarrow> is_digit c"
proof (induction n rule: nat_digits.induct)
  case (1 n)
  have "n mod 10 < 10" by simp
  with 1 digit_byte(2) [of n] digit_byte(2) [of "n mod 10"] show ?case
    by (auto simp: nat_digits.simps [of n] split: if_splits)
qed

lemma nat_digits_nonzero: "0 \<notin> set (nat_digits n)"
  using nat_digits_are_digits [of 0 n] by (auto simp: is_digit_def)

lemma length_nat_digits: "n < 10 ^ k \<Longrightarrow> 0 < k \<Longrightarrow> length (nat_digits n) \<le> k"
proof (induction k arbitrary: n)
  case (Suc k)
  show ?case
  proof (cases "n < 10")
    case False
    with Suc.prems have "n div 10 < 10 ^ k" "0 < k" by (auto simp: less_mult_imp_div_less ac_simps intro!: gr0I)
    with Suc.IH False show ?thesis by (simp add: nat_digits.simps [of n])
  qed (simp add: nat_digits.simps [of n])
qed simp

lemma length_fmt_zu: "length (fmt_zu n) \<le> 20"
proof -
  have "unat n < 10 ^ 20" by (rule less_le_trans [OF unat_size_t_less]) simp
  then show ?thesis unfolding fmt_zu_def by (rule length_nat_digits) simp
qed

section \<open>Binary search\<close>

text \<open>
  \<open>bsearch\<close> over the indices below \<open>n\<close>; \<open>cmp i\<close> compares the key with element \<open>i\<close>.
\<close>

function bsearch_loop :: "(nat \<Rightarrow> fault + int) \<Rightarrow> nat \<Rightarrow> nat \<Rightarrow> fault + nat option" where
  "bsearch_loop cmp l u =
     (if l < u
      then let idx = (l + u) div 2 in
           bindE (cmp idx) (\<lambda>c.
           if c < 0 then bsearch_loop cmp l idx
           else if c > 0 then bsearch_loop cmp (idx + 1) u
           else Inr (Some idx))
      else Inr None)"
  by pat_completeness auto
termination by (relation "measure (\<lambda>(_, l, u). u - l)") auto

declare bsearch_loop.simps [simp del]

definition bsearch :: "(nat \<Rightarrow> fault + int) \<Rightarrow> nat \<Rightarrow> fault + nat option" where
  "bsearch cmp n = bsearch_loop cmp 0 n"

text \<open>On an array in order the search finds the element the key is equal to, or reports that there is none.\<close>

lemma bsearch_loop_spec:
  assumes ord: "\<And>i j. i < j \<Longrightarrow> j < n \<Longrightarrow> (c i \<le> 0 \<longrightarrow> c j < 0) \<and> (0 \<le> c j \<longrightarrow> 0 < c i)"
    and cmp: "\<And>i. i < n \<Longrightarrow> cmp i = Inr (c i :: int)"
    and "u \<le> n" and "\<And>i. i < n \<Longrightarrow> c i = 0 \<Longrightarrow> l \<le> i \<and> i < u"
  shows "\<exists>r. bsearch_loop cmp l u = Inr r \<and>
    (case r of None \<Rightarrow> \<forall>i < n. c i \<noteq> 0 | Some i \<Rightarrow> i < n \<and> c i = 0)"
  using assms(3,4)
proof (induction "u - l" arbitrary: l u rule: less_induct)
  case less
  show ?case
  proof (cases "l < u")
    case False
    with less.prems(2) have "\<forall>i < n. c i \<noteq> 0" by (metis le_less_trans)
    with False show ?thesis by (simp add: bsearch_loop.simps [of cmp l u])
  next
    case True
    define m where "m = (l + u) div 2"
    have m: "l \<le> m" "m < u" "m < n" using True less.prems(1) by (auto simp: m_def)
    have step: "bsearch_loop cmp l u = (if c m < 0 then bsearch_loop cmp l m
        else if c m > 0 then bsearch_loop cmp (m + 1) u else Inr (Some m))"
      using True cmp [OF m(3)] by (simp add: bsearch_loop.simps [of cmp l u] flip: m_def)
    consider "c m < 0" | "c m > 0" | "c m = 0" by linarith
    then show ?thesis
    proof cases
      case 1
      have "l \<le> i \<and> i < m" if "i < n" "c i = 0" for i
        using that 1 ord [of m i] less.prems(2) [OF that] by (cases m i rule: linorder_cases) auto
      with 1 m less show ?thesis by (simp add: step)
    next
      case 2
      have "m + 1 \<le> i \<and> i < u" if "i < n" "c i = 0" for i
        using that 2 ord [of i m] m(3) less.prems(2) [OF that] by (cases m i rule: linorder_cases) auto
      with 2 m less show ?thesis by (simp add: step)
    next
      case 3
      with m step show ?thesis by simp
    qed
  qed
qed

lemma bsearch_spec:
  assumes "\<And>i j. i < j \<Longrightarrow> j < n \<Longrightarrow> (c i \<le> 0 \<longrightarrow> c j < 0) \<and> (0 \<le> c j \<longrightarrow> 0 < c i)"
    and "\<And>i. i < n \<Longrightarrow> cmp i = Inr (c i :: int)"
  obtains r where "bsearch cmp n = Inr r"
    and "case r of None \<Rightarrow> \<forall>i < n. c i \<noteq> 0 | Some i \<Rightarrow> i < n \<and> c i = 0"
proof -
  have "\<exists>r. bsearch_loop cmp 0 n = Inr r \<and>
      (case r of None \<Rightarrow> \<forall>i < n. c i \<noteq> 0 | Some i \<Rightarrow> i < n \<and> c i = 0)"
    using assms by (rule bsearch_loop_spec) simp_all
  with that show thesis by (auto simp: bsearch_def)
qed

end
