(* ===== verification/Double.thy ===== *)
theory Double
  imports Complex_Main Libc
begin

text \<open>
  The IEEE binary64 arithmetic the monitors use: conversion from \<open>size_t\<close>, division, the bit pattern in
  memory, and printing with \<open>%.nf\<close>. All values here are non-negative, finite and in the normal range, so a
  double is a mantissa and a binary exponent, \<open>m * 2 ^ e\<close>, with \<open>2 ^ 52 \<le> m < 2 ^ 53\<close> or zero. The
  arithmetic is exact on numbers and rounded to nearest, ties to even, as the target does it.
\<close>

section \<open>Rounding\<close>

datatype double = Double nat int

fun lg2 :: "nat \<Rightarrow> nat" where
  "lg2 n = (if n < 2 then 0 else Suc (lg2 (n div 2)))"

declare lg2.simps [simp del]

definition round_even :: "nat \<Rightarrow> nat \<Rightarrow> nat" where
  "round_even a b =
     (let q = a div b; r = a mod b in
      if 2 * r < b \<or> (2 * r = b \<and> even q) then q else q + 1)"

text \<open>\<open>a / b\<close> scaled by \<open>2 ^ -e\<close>, as a fraction.\<close>

definition scaled :: "nat \<Rightarrow> nat \<Rightarrow> int \<Rightarrow> nat \<times> nat" where
  "scaled a b e = (a * 2 ^ nat (- e), b * 2 ^ nat e)"

definition round_double :: "nat \<Rightarrow> nat \<Rightarrow> double" where
  "round_double a b =
     (if a = 0 then Double 0 0
      else
        let e1 = int (lg2 a) - int (lg2 b) - 53;
            (n1, d1) = scaled a b e1;
            e = (if 2 ^ 53 * d1 \<le> n1 then e1 + 1 else e1);
            (n, d) = scaled a b e;
            m = round_even n d in
        if m = 2 ^ 53 then Double (2 ^ 52) (e + 1) else Double m e)"

definition double_of_size :: "size_t \<Rightarrow> double" where
  "double_of_size n = round_double (unat n) 1"

fun double_div :: "double \<Rightarrow> double \<Rightarrow> double" where
  "double_div (Double m1 e1) (Double m2 e2) =
     round_double (m1 * 2 ^ nat (e1 - e2)) (m2 * 2 ^ nat (e2 - e1))"

fun double_bits :: "double \<Rightarrow> 64 word" where
  "double_bits (Double m e) = (if m = 0 then 0 else of_int ((e + 1075) * 2 ^ 52 + (int m - 2 ^ 52)))"

definition pad_digits :: "nat \<Rightarrow> nat \<Rightarrow> byte list" where
  "pad_digits p n = replicate (p - length (nat_digits n)) 48 @ nat_digits n"

text \<open>The number \<open>%.pf\<close> prints, in units of \<open>10 ^ -p\<close>, and its text.\<close>

fun fixed_units :: "nat \<Rightarrow> double \<Rightarrow> nat" where
  "fixed_units p (Double m e) = round_even (m * 10 ^ p * 2 ^ nat e) (2 ^ nat (- e))"

definition fmt_f :: "nat \<Rightarrow> double \<Rightarrow> byte list" where
  "fmt_f p x = (let n = fixed_units p x in nat_digits (n div 10 ^ p) @ 46 # pad_digits p (n mod 10 ^ p))"

section \<open>The error of a rounding\<close>

lemma lg2_bounds: "0 < n \<Longrightarrow> 2 ^ lg2 n \<le> n \<and> n < 2 ^ Suc (lg2 n)"
proof (induction n rule: lg2.induct)
  case (1 n)
  show ?case
  proof (cases "n < 2")
    case True
    with 1 show ?thesis by (simp add: lg2.simps [of n])
  next
    case False
    with 1 have "2 ^ lg2 (n div 2) \<le> n div 2 \<and> n div 2 < 2 ^ Suc (lg2 (n div 2))" by simp
    with False show ?thesis by (simp add: lg2.simps [of n]) linarith
  qed
qed

lemma round_even_error:
  assumes "0 < b"
  shows "\<bar>real (round_even a b) - real a / real b\<bar> \<le> 1 / 2"
proof -
  define q r where "q = a div b" and "r = a mod b"
  have a: "real a = real b * real q + real r"
    unfolding q_def r_def by (metis mult_div_mod_eq of_nat_add of_nat_mult)
  have r: "r < b" using assms by (simp add: r_def)
  have frac: "real a / real b = real q + real r / real b" using assms by (simp add: a field_simps)
  show ?thesis
  proof (cases "2 * r < b \<or> (2 * r = b \<and> even q)")
    case True
    then have "real r / real b \<le> 1 / 2" using assms by (auto simp: field_simps)
    with True show ?thesis by (simp add: round_even_def Let_def frac flip: q_def r_def)
  next
    case False
    then have "1 / 2 \<le> real r / real b" using assms by (simp add: field_simps)
    moreover have "real r / real b < 1" using r assms by simp
    moreover have "round_even a b = q + 1" using False by (simp add: round_even_def Let_def flip: q_def r_def)
    ultimately show ?thesis by (simp add: frac)
  qed
qed

lemma round_even_bounds:
  assumes "0 < b" and "c * b \<le> a" and "a \<le> d * b"
  shows "c \<le> round_even a b" and "round_even a b \<le> d"
proof -
  have "c \<le> a div b" using assms by (simp add: less_eq_div_iff_mult_less_eq)
  then show "c \<le> round_even a b" by (auto simp: round_even_def Let_def)
  show "round_even a b \<le> d"
  proof (cases "a div b < d")
    case True
    then show ?thesis by (auto simp: round_even_def Let_def)
  next
    case False
    then have "d * b \<le> a" using assms(1) by (simp add: not_less less_eq_div_iff_mult_less_eq)
    with assms(3) have "a = d * b" by simp
    with assms(1) show ?thesis by (simp add: round_even_def)
  qed
qed

lemma round_even_exact: "0 < b \<Longrightarrow> round_even (m * b) b = m"
  by (simp add: round_even_def)

section \<open>Values\<close>

fun double_val :: "double \<Rightarrow> real" where
  "double_val (Double m e) = real m * 2 powi e"

lemma powi_nat_diff: "(2 :: real) ^ nat (- e) / 2 ^ nat e = 2 powi (- e)"
  by (cases "0 \<le> e") (simp_all add: power_int_def field_simps)

lemma scaled_real:
  assumes "scaled a b e = (n, d)"
  shows "real n / real d = (real a / real b) * 2 powi (- e)"
  using assms by (auto simp: scaled_def powi_nat_diff [symmetric])

lemma scaled_pos: "scaled a b e = (n, d) \<Longrightarrow> 0 < b \<Longrightarrow> 0 < d"
  by (auto simp: scaled_def)

lemma two_powi_split: "(2 :: real) powi (x + y) = 2 powi x * 2 powi y"
  by (simp add: power_int_add)

text \<open>
  The exponent chosen puts the scaled fraction into the range of a 53-bit mantissa.
\<close>

lemma ratio_lg2:
  assumes "0 < a" and "0 < b"
  shows "2 powi (int (lg2 a) - int (lg2 b) - 1) < real a / real b"
    and "real a / real b < 2 powi (int (lg2 a) - int (lg2 b) + 1)"
proof -
  have a: "(2 :: real) ^ lg2 a \<le> real a" "real a < 2 ^ Suc (lg2 a)"
    using lg2_bounds [OF assms(1)] by (simp_all only: numeral_power_le_of_nat_cancel_iff of_nat_less_numeral_power_cancel_iff)
  have b: "(2 :: real) ^ lg2 b \<le> real b" "real b < 2 ^ Suc (lg2 b)"
    using lg2_bounds [OF assms(2)] by (simp_all only: numeral_power_le_of_nat_cancel_iff of_nat_less_numeral_power_cancel_iff)
  have "2 powi (int (lg2 a) - int (lg2 b) - 1) = (2 :: real) ^ lg2 a / 2 ^ Suc (lg2 b)"
    by (simp add: power_int_diff power_int_add)
  also have "\<dots> < real a / real b"
    using a(1) b assms by (intro frac_less2) simp_all
  finally show "2 powi (int (lg2 a) - int (lg2 b) - 1) < real a / real b" .
  have "real a / real b < (2 :: real) ^ Suc (lg2 a) / 2 ^ lg2 b"
    using a(2) b(1) assms by (intro frac_less) simp_all
  also have "\<dots> = 2 powi (int (lg2 a) - int (lg2 b) + 1)"
    by (simp add: power_int_diff power_int_add)
  finally show "real a / real b < 2 powi (int (lg2 a) - int (lg2 b) + 1)" .
qed

lemma round_double_cases:
  assumes "0 < a" and "0 < b"
  obtains n d e where "scaled a b e = (n, d)" and "2 ^ 52 * d \<le> n" and "n \<le> 2 ^ 53 * d" and "0 < d"
    and "round_double a b = (if round_even n d = 2 ^ 53 then Double (2 ^ 52) (e + 1) else Double (round_even n d) e)"
proof -
  define e1 where "e1 = int (lg2 a) - int (lg2 b) - 53"
  obtain n1 d1 where s1: "scaled a b e1 = (n1, d1)" by (cases "scaled a b e1")
  define e where "e = (if 2 ^ 53 * d1 \<le> n1 then e1 + 1 else e1)"
  obtain n d where s: "scaled a b e = (n, d)" by (cases "scaled a b e")
  have d1: "0 < d1" and d: "0 < d" using s1 s assms(2) by (auto dest: scaled_pos)
  have ratio1: "real n1 / real d1 = (real a / real b) * 2 powi (- e1)" using s1 by (rule scaled_real)
  have ratio: "real n / real d = (real a / real b) * 2 powi (- e)" using s by (rule scaled_real)
  note lg = ratio_lg2 [OF assms]
  have low: "2 ^ 52 \<le> real n / real d"
  proof (cases "2 ^ 53 * d1 \<le> n1")
    case True
    then have "real (2 ^ 53 * d1) \<le> real n1" by (simp only: of_nat_le_iff)
    then have "2 ^ 53 \<le> real n1 / real d1" using d1 by (simp add: field_simps)
    moreover have "real n / real d = real n1 / real d1 / 2"
      using True by (simp add: ratio ratio1 e_def power_int_diff power_int_minus field_simps two_powi_split)
    ultimately show ?thesis by simp
  next
    case False
    have "2 powi (int (lg2 a) - int (lg2 b) - 1) * 2 powi (- e1) \<le> (real a / real b) * 2 powi (- e1)"
      using lg(1) by (intro mult_right_mono) simp_all
    moreover have "(2 :: real) powi (int (lg2 a) - int (lg2 b) - 1) * 2 powi (- e1) = 2 ^ 52"
      by (simp add: e1_def flip: two_powi_split)
    ultimately show ?thesis using False by (simp add: ratio e_def)
  qed
  have high: "real n / real d \<le> 2 ^ 53"
  proof (cases "2 ^ 53 * d1 \<le> n1")
    case True
    have "(real a / real b) * 2 powi (- e) \<le> 2 powi (int (lg2 a) - int (lg2 b) + 1) * 2 powi (- e)"
      using lg(2) by (intro mult_right_mono) simp_all
    moreover have "(2 :: real) powi (int (lg2 a) - int (lg2 b) + 1) * 2 powi (- e) = 2 ^ 53"
      using True by (simp add: e1_def e_def flip: two_powi_split)
    ultimately show ?thesis by (simp add: ratio)
  next
    case False
    then have "real n1 \<le> real (2 ^ 53 * d1)" by (simp only: of_nat_le_iff)
    then have "real n1 / real d1 \<le> 2 ^ 53" using d1 by (simp add: field_simps)
    with False show ?thesis by (simp add: ratio ratio1 e_def)
  qed
  have "real (2 ^ 52 * d) \<le> real n" "real n \<le> real (2 ^ 53 * d)"
    using low high d by (simp_all add: field_simps)
  then have "2 ^ 52 * d \<le> n" "n \<le> 2 ^ 53 * d" by (simp_all only: of_nat_le_iff)
  moreover have "round_double a b = (if round_even n d = 2 ^ 53 then Double (2 ^ 52) (e + 1) else Double (round_even n d) e)"
    using assms(1) s1 s by (simp add: round_double_def Let_def e_def flip: e1_def)
  ultimately show thesis using s d by (intro that)
qed

text \<open>
  The result of a rounding: a mantissa of 53 bits, and at most half a unit in its last place away.
\<close>

lemma round_double_error:
  assumes "0 < a" and "0 < b" and "round_double a b = Double m e"
  shows "2 ^ 52 \<le> m" and "m < 2 ^ 53" and "\<bar>double_val (Double m e) - real a / real b\<bar> \<le> 2 powi (e - 1)"
proof -
  obtain n d e' where s: "scaled a b e' = (n, d)" and low: "2 ^ 52 * d \<le> n" and high: "n \<le> 2 ^ 53 * d"
    and d: "0 < d" and r: "round_double a b =
      (if round_even n d = 2 ^ 53 then Double (2 ^ 52) (e' + 1) else Double (round_even n d) e')"
    using assms(1,2) by (rule round_double_cases)
  define k where "k = round_even n d"
  have k: "2 ^ 52 \<le> k" "k \<le> 2 ^ 53" using round_even_bounds [OF d low high] by (simp_all add: k_def)
  have "real a / real b = real n / real d * 2 powi e'"
    using scaled_real [OF s] by (simp add: power_int_minus)
  then have "\<bar>real k * 2 powi e' - real a / real b\<bar> = \<bar>real k - real n / real d\<bar> * 2 powi e'"
    by (simp only: abs_mult abs_of_pos [OF zero_less_power_int] zero_less_numeral flip: left_diff_distrib)
  also have "\<dots> \<le> 1 / 2 * 2 powi e'"
    using round_even_error [OF d, of n] by (intro mult_right_mono) (simp_all add: k_def)
  finally have err: "\<bar>real k * 2 powi e' - real a / real b\<bar> \<le> 2 powi (e' - 1)" by (simp add: power_int_diff)
  have "(2 ^ 52 \<le> m \<and> m < 2 ^ 53) \<and> \<bar>double_val (Double m e) - real a / real b\<bar> \<le> 2 powi (e - 1)"
  proof (cases "k = 2 ^ 53")
    case True
    then have m: "m = 2 ^ 52" "e = e' + 1" using r assms(3) by (simp_all add: k_def)
    have "(2 :: real) powi (e' - 1) \<le> 2 powi e'" by (intro power_int_increasing) simp_all
    with err True show ?thesis by (simp add: m two_powi_split)
  next
    case False
    then have "m = k" "e = e'" using r assms(3) by (simp_all add: k_def)
    with k False err show ?thesis by simp
  qed
  then show "2 ^ 52 \<le> m" and "m < 2 ^ 53" and "\<bar>double_val (Double m e) - real a / real b\<bar> \<le> 2 powi (e - 1)"
    by simp_all
qed

text \<open>A count below \<open>2 ^ 53\<close> is converted exactly.\<close>

lemma double_of_size_exact:
  assumes "unat s < 2 ^ 53"
  shows "double_val (double_of_size s) = real (unat s)"
proof (cases "unat s = 0")
  case True
  then show ?thesis by (simp add: double_of_size_def round_double_def)
next
  case False
  then have pos: "0 < unat s" "0 < (1 :: nat)" by simp_all
  obtain n d e where s: "scaled (unat s) 1 e = (n, d)" and low: "2 ^ 52 * d \<le> n" and high: "n \<le> 2 ^ 53 * d"
    and d: "0 < d" and r: "round_double (unat s) 1 =
      (if round_even n d = 2 ^ 53 then Double (2 ^ 52) (e + 1) else Double (round_even n d) e)"
    using pos by (rule round_double_cases)
  have "e \<le> 0"
  proof (rule ccontr)
    assume "\<not> e \<le> 0"
    with s low have "2 ^ 52 * 2 ^ nat e \<le> unat s" by (auto simp: scaled_def)
    moreover have "(2 :: nat) \<le> 2 ^ nat e" using \<open>\<not> e \<le> 0\<close> self_le_power [of 2 "nat e"] by simp
    ultimately show False using assms by simp
  qed
  then have n: "n = unat s * 2 ^ nat (- e)" "d = 1" using s by (auto simp: scaled_def)
  then have "round_even n d = n" by (simp add: round_even_def)
  moreover have "real n * 2 powi e = real (unat s)"
    using \<open>e \<le> 0\<close> by (simp add: n(1) power_int_def power_inverse [symmetric] field_simps)
  ultimately show ?thesis
    unfolding double_of_size_def r by (cases "n = 2 ^ 53") (simp_all add: two_powi_split)
qed

section \<open>Ratios\<close>

lemma double_of_size_val:
  assumes "0 < unat s" and "unat s < 2 ^ 53" and "double_of_size s = Double m e"
  shows "0 < m" and "real m * 2 powi e = real (unat s)"
proof -
  show v: "real m * 2 powi e = real (unat s)" using double_of_size_exact [OF assms(2)] assms(3) by simp
  have "0 < real (unat s)" using assms(1) by (simp only: of_nat_0_less_iff)
  with v show "0 < m" by (cases "m = 0") simp_all
qed

lemma ratio_le_1: "k \<le> n \<Longrightarrow> real k / real n \<le> 1"
  by (cases "n = 0") simp_all

text \<open>The quotient of two counts, the first at most the second, is right to 53 binary places.\<close>

lemma double_div_sizes:
  assumes "0 < unat a" and "unat a \<le> unat b" and "unat b < 2 ^ 53"
  obtains m e where "double_div (double_of_size a) (double_of_size b) = Double m e"
    and "\<bar>double_val (Double m e) - real (unat a) / real (unat b)\<bar> \<le> 1 / 2 ^ 53"
proof -
  obtain m1 e1 m2 e2 where ab: "double_of_size a = Double m1 e1" "double_of_size b = Double m2 e2"
    by (metis double.exhaust)
  note A = double_of_size_val [OF assms(1) le_less_trans [OF assms(2,3)] ab(1)]
  note B = double_of_size_val [OF less_le_trans [OF assms(1,2)] assms(3) ab(2)]
  let ?x = "m1 * 2 ^ nat (e1 - e2)" and ?y = "m2 * 2 ^ nat (e2 - e1)"
  have pos: "0 < ?x" "0 < ?y" using A(1) B(1) by simp_all
  obtain m e where q: "round_double ?x ?y = Double m e" by (metis double.exhaust)
  note E = round_double_error [OF pos q]
  have "real ?x / real ?y = real m1 / real m2 * ((2 :: real) ^ nat (- (e2 - e1)) / 2 ^ nat (e2 - e1))" by simp
  also have "\<dots> = (real m1 * 2 powi e1) / (real m2 * 2 powi e2)"
    by (simp only: powi_nat_diff) (simp add: power_int_diff)
  finally have ratio: "real ?x / real ?y = real (unat a) / real (unat b)" by (simp only: A(2) B(2))
  have le1: "real (unat a) / real (unat b) \<le> 1" using assms(2) by (rule ratio_le_1)
  have "2 ^ 52 * 2 powi e \<le> double_val (Double m e)"
  proof -
    have "(2 :: real) ^ 52 \<le> real m" using E(1) by (simp only: numeral_power_le_of_nat_cancel_iff)
    then show ?thesis by (simp add: mult_right_mono)
  qed
  also have "\<dots> \<le> 1 + 2 powi (e - 1)" using E(3) le1 ratio by linarith
  also have "\<dots> = 1 + 2 powi e / 2" by (simp add: power_int_diff)
  finally have small: "(2 ^ 52 - 1 / 2) * 2 powi e \<le> (1 :: real)" by simp
  have "e \<le> - 52"
  proof (rule ccontr)
    assume "\<not> e \<le> - 52"
    then have "(2 :: real) powi (- 51) \<le> 2 powi e" by (intro power_int_increasing) simp_all
    then have "(2 ^ 52 - 1 / 2) * (2 :: real) powi (- 51) \<le> 1" using small by (simp add: order_trans [OF mult_left_mono])
    then show False by (simp add: power_int_minus)
  qed
  then have "(2 :: real) powi (e - 1) \<le> 2 powi (- 53)" by (intro power_int_increasing) simp_all
  also have "\<dots> = 1 / 2 ^ 53" by (simp add: power_int_minus field_simps)
  finally have "\<bar>double_val (Double m e) - real (unat a) / real (unat b)\<bar> \<le> 1 / 2 ^ 53"
    using E(3) ratio by linarith
  with q ab show thesis by (intro that [of m e]) simp_all
qed

lemma fixed_units_error: "\<bar>real (fixed_units p x) - double_val x * 10 ^ p\<bar> \<le> 1 / 2"
proof (cases x)
  case (Double m e)
  have "real (m * 10 ^ p * 2 ^ nat e) / real (2 ^ nat (- e)) =
      real m * 10 ^ p * ((2 :: real) ^ nat (- (- e)) / 2 ^ nat (- e))" by simp
  also have "\<dots> = double_val x * 10 ^ p" by (simp only: powi_nat_diff Double) simp
  finally show ?thesis
    using round_even_error [of "2 ^ nat (- e)" "m * 10 ^ p * 2 ^ nat e"] by (simp add: Double)
qed

text \<open>A ratio of counts printed with \<open>%.4f\<close>: four decimals, half a unit and the rounding of the quotient away.\<close>

lemma ratio_printed:
  assumes "unat a \<le> unat b" and "0 < unat b" and "unat b < 2 ^ 53"
    and n: "n = fixed_units 4 (double_div (double_of_size a) (double_of_size b))"
  shows "\<bar>real n / 10 ^ 4 - real (unat a) / real (unat b)\<bar> \<le> 1 / 20000 + 1 / 2 ^ 53" and "n \<le> 10 ^ 4"
proof -
  let ?q = "double_div (double_of_size a) (double_of_size b)"
  have err: "\<bar>double_val ?q - real (unat a) / real (unat b)\<bar> \<le> 1 / 2 ^ 53"
  proof (cases "unat a = 0")
    case True
    then have "double_of_size a = Double 0 0" by (simp add: double_of_size_def round_double_def)
    then have "?q = Double 0 0" by (cases "double_of_size b") (simp add: round_double_def)
    with True show ?thesis by simp
  next
    case False
    then have "0 < unat a" by simp
    from this assms(1,3) obtain m e where "?q = Double m e"
      "\<bar>double_val (Double m e) - real (unat a) / real (unat b)\<bar> \<le> 1 / 2 ^ 53" by (rule double_div_sizes)
    then show ?thesis by simp
  qed
  have fe: "\<bar>real n - double_val ?q * 10 ^ 4\<bar> \<le> 1 / 2" using fixed_units_error [of 4 ?q] n by simp
  define v r where "v = double_val ?q" and "r = real (unat a) / real (unat b)"
  have "\<bar>real n - v * 10000\<bar> \<le> 1 / 2" using fe by (simp add: v_def)
  then have "\<bar>real n / 10000 - v\<bar> \<le> 1 / 20000" by linarith
  moreover have "\<bar>v - r\<bar> \<le> 1 / 2 ^ 53" using err by (simp only: v_def r_def)
  ultimately have "\<bar>real n / 10000 - r\<bar> \<le> 1 / 20000 + 1 / 2 ^ 53" by (simp only: abs_le_iff) linarith
  then show dist: "\<bar>real n / 10 ^ 4 - real (unat a) / real (unat b)\<bar> \<le> 1 / 20000 + 1 / 2 ^ 53"
    by (simp add: r_def)
  have "real (unat a) / real (unat b) \<le> 1" using assms(1) by (rule ratio_le_1)
  then have "real n / 10 ^ 4 \<le> 1 + (1 / 20000 + 1 / 2 ^ 53)" using dist by linarith
  then have "real n < real 10001" by (simp add: field_simps)
  then show "n \<le> 10 ^ 4" by (simp only: of_nat_less_iff) simp
qed

end
