(* ===== verification/Monitors.thy ===== *)
theory Monitors
  imports Data_Entry Double
begin

text \<open>
  The two monitors of src/src/hashtable.c that return a double: the load factor, and the share of buckets
  that hold at least one entry, counted under one read lock at a time.
\<close>

definition zero_double :: double where
  "zero_double = Double 0 0"

definition table_load_factor :: "hashtable option \<Rightarrow> double" where
  "table_load_factor table =
     (case table of
        None \<Rightarrow> zero_double
      | Some t \<Rightarrow>
          let capacity = buckets_count t * of_nat BUCKET_CAPACITY in
          if capacity = 0 then zero_double
          else double_div (double_of_size (elem_count t)) (double_of_size capacity))"

definition bucket_occupied :: "bucket \<Rightarrow> bool" where
  "bucket_occupied b = list_ex (\<lambda>j. in_use b ! j \<noteq> 0) slots"

definition count_bucket :: "bucket list \<Rightarrow> nat \<Rightarrow> size_t \<times> rwlock list \<Rightarrow> fault + (size_t \<times> rwlock list)" where
  "count_bucket bs i = (\<lambda>(occupied, ls).
     bindE (pthread_rwlock_rdlock ls i) (\<lambda>(rc, ls1).
     if rc = 0
     then bindE (nth_bucket bs i) (\<lambda>b.
          bindE (pthread_rwlock_unlock i ls1) (\<lambda>ls2.
          Inr (if bucket_occupied b then occupied + 1 else occupied, ls2)))
     else Inr (occupied, ls1)))"

definition table_occupied_bucket_counter :: "hashtable option \<Rightarrow> fault + (double \<times> hashtable option)" where
  "table_occupied_bucket_counter table =
     (case table of
        None \<Rightarrow> Inr (zero_double, table)
      | Some t \<Rightarrow>
          if buckets_count t = 0 then Inr (zero_double, table)
          else
            bindE (foreach (count_bucket (buckets t)) [0..<unat (buckets_count t)] (0, locks t)) (\<lambda>(occupied, ls).
            Inr (double_div (double_of_size occupied) (double_of_size (buckets_count t)),
                 Some (t\<lparr>locks := ls\<rparr>))))"

section \<open>Counting the occupied buckets\<close>

lemma bucket_occupied_entries: "bucket_occupied b \<longleftrightarrow> bucket_entries b \<noteq> {#}"
proof -
  have "bucket_occupied b \<longleftrightarrow> (\<exists>j < 8. slot_entry b j \<noteq> {#})"
    by (auto simp: bucket_occupied_def list_ex_iff slot_entry_def)
  also have "\<dots> \<longleftrightarrow> bucket_entries b \<noteq> {#}"
    by (auto simp: bucket_entries_def sum_eq_empty_iff)
  finally show ?thesis .
qed

definition occupied_count :: "bucket list \<Rightarrow> nat" where
  "occupied_count bs = length (filter bucket_occupied bs)"

lemma occupied_count_take:
  "i < length bs \<Longrightarrow>
   occupied_count (take (Suc i) bs) = occupied_count (take i bs) + (if bucket_occupied (bs ! i) then 1 else 0)"
  by (simp add: occupied_count_def take_Suc_conv_app_nth)

lemma count_loop:
  assumes "length bs \<le> m"
  shows "foreach (count_bucket bs) [0..<length bs] (0, idle m) = Inr (of_nat (occupied_count bs), idle m)"
proof -
  have "\<exists>s. foreach (count_bucket bs) [0..<length bs] (0, idle m) = Inr s \<and>
      s = (of_nat (occupied_count (take (length bs) bs)), idle m)"
  proof (rule foreach_upt_rule [where P = "\<lambda>i s. s = (of_nat (occupied_count (take i bs)), idle m)"])
    fix i s assume i: "i < length bs" and s: "s = (of_nat (occupied_count (take i bs)) :: size_t, idle m)"
    have im: "i < m" using i assms by simp
    show "\<exists>s'. count_bucket bs i s = Inr s' \<and> s' = (of_nat (occupied_count (take (Suc i) bs)), idle m)"
      using i rd.acquire_idle [OF im] rd.acquire_release [OF im]
      by (simp add: s count_bucket_def pthread_rwlock_rdlock_def nth_bucket_def occupied_count_take)
  qed (simp add: occupied_count_def)
  then show ?thesis by simp
qed

lemma occupied_counter_result:
  assumes "table_shape t" and "locks_cover t"
  shows "table_occupied_bucket_counter (Some t) =
    Inr (double_div (double_of_size (of_nat (occupied_count (buckets t)))) (double_of_size (buckets_count t)), Some t)"
proof -
  have len: "unat (buckets_count t) = length (buckets t)" and idle: "locks t = idle (unat (lock_count t))"
    and nz: "buckets_count t \<noteq> 0"
    using assms(1) by (simp_all add: table_shape_def is_pow2_def)
  have "length (buckets t) \<le> unat (lock_count t)"
    using assms(2) by (simp add: locks_cover_def word_le_nat_alt len)
  from count_loop [OF this] nz show ?thesis
    by (simp add: table_occupied_bucket_counter_def len flip: idle)
qed

lemma occupied_count_le: "occupied_count bs \<le> length bs"
  by (simp add: occupied_count_def)

end
