(* ===== verification/Command.thy ===== *)
theory Command
  imports Monitors
begin

text \<open>
  The command layer, src/src/command.c and command.h: the registry of commands and its search, the
  parsing of the arguments of a command, one handler per command over the table, and \<open>execute_command\<close>,
  which dispatches and turns the handler's result into a reply.

  The unions of the code are datatypes; reading a member that was not written gives what the zero
  initialisation left there. A command argument is the memory from its pointer on, as for every C string;
  \<open>argv\<close> and \<open>args_lengths\<close> are lists, and reading past their end is a fault. Messages to the log are left
  out.
\<close>

section \<open>Data\<close>

datatype cmd_function_type =
    CMD_TYPE_GET | CMD_TYPE_SET | CMD_TYPE_ADD | CMD_TYPE_DEL | CMD_TYPE_EXIST | CMD_TYPE_REPLACE
  | CMD_TYPE_RESIZE | CMD_TYPE_CLEAR | CMD_TYPE_LOADFACTOR | CMD_TYPE_COUNT | CMD_TYPE_ERROR | CMD_TYPE_EMPTY

datatype cmd_count_t =
    CMD_COUNT_CAPACITY | CMD_COUNT_MEMORY_USAGE | CMD_COUNT_TOTAL_ELEM | CMD_COUNT_OCCUPIED_BUCKET

datatype command_input =
    Zero_input
  | Key_input "cbuf option"
  | Pair_input "cbuf option" ptr
  | Size_input size_t
  | Count_input cmd_count_t

record command_data =
  tag :: cmd_function_type
  input :: command_input

definition input_key :: "command_data \<Rightarrow> cbuf option" where
  "input_key d = (case input d of Key_input k \<Rightarrow> k | Pair_input k v \<Rightarrow> k | _ \<Rightarrow> None)"

definition input_value :: "command_data \<Rightarrow> ptr" where
  "input_value d = (case input d of Pair_input k v \<Rightarrow> v | _ \<Rightarrow> NULL)"

definition input_size :: "command_data \<Rightarrow> size_t" where
  "input_size d = (case input d of Size_input n \<Rightarrow> n | _ \<Rightarrow> 0)"

definition input_count :: "command_data \<Rightarrow> cmd_count_t" where
  "input_count d = (case input d of Count_input c \<Rightarrow> c | _ \<Rightarrow> CMD_COUNT_CAPACITY)"

text \<open>
  Results. All outputs that are an \<open>int error\<close> share their place. The union inside \<open>count_output\<close> is 64
  bits that hold a \<open>size_t\<close> or a double.
\<close>

datatype command_output =
    Zero_output
  | Get_output ptr
  | Error_output int
  | Exist_output bool
  | Load_output double
  | Count_output cmd_count_t "64 word"

record command_result =
  rtype :: cmd_function_type
  outp :: command_output

definition error_result :: command_result where
  "error_result = \<lparr>rtype = CMD_TYPE_ERROR, outp = Zero_output\<rparr>"

definition output_error :: "command_result \<Rightarrow> int" where
  "output_error r = (case outp r of Error_output e \<Rightarrow> e | _ \<Rightarrow> 0)"

record execute_result =
  status_code :: int
  body :: ptr
  body_length :: size_t

type_synonym command_proc =
  "hashtable option \<Rightarrow> command_data option \<Rightarrow> world \<Rightarrow> fault + (command_result \<times> hashtable option \<times> world)"

record command =
  name :: cbuf
  ctag :: cmd_function_type
  cproc :: command_proc
  arity :: int
  flags :: string

record command_registry =
  reg_ptr :: ptr
  commands :: "command list"
  reg_count :: size_t

record server_context =
  reg :: "command_registry option"
  database :: "hashtable option"

section \<open>Handlers\<close>

definition cmd_get :: command_proc where
  "cmd_get context inp w =
     (case context of None \<Rightarrow> Inr (error_result, context, w) | Some t \<Rightarrow>
     (case inp of None \<Rightarrow> Inr (error_result, context, w) | Some d \<Rightarrow>
        bindE (is_key_valid (input_key d)) (\<lambda>ok.
        if \<not> ok then Inr (error_result, context, w)
        else
          bindE (table_get context (input_key d) (Some std_value_sizer) w) (\<lambda>(p, context', w').
          if p = NULL then Inr (error_result\<lparr>rtype := CMD_TYPE_EMPTY\<rparr>, context', w')
          else Inr (\<lparr>rtype = CMD_TYPE_GET, outp = Get_output p\<rparr>, context', w')))))"

definition cmd_set :: command_proc where
  "cmd_set context inp w =
     (case context of None \<Rightarrow> Inr (error_result, context, w) | Some t \<Rightarrow>
     (case inp of None \<Rightarrow> Inr (error_result, context, w) | Some d \<Rightarrow>
        bindE (is_key_valid (input_key d)) (\<lambda>ok.
        if \<not> ok \<or> input_value d = NULL then Inr (error_result, context, w)
        else
          bindE (table_set context (input_key d) (input_value d) (Some destroy_value_wrapper) w)
            (\<lambda>(error, context', w').
          Inr (\<lparr>rtype = CMD_TYPE_SET, outp = Error_output error\<rparr>, context', w')))))"

definition cmd_add :: command_proc where
  "cmd_add context inp w =
     (case context of None \<Rightarrow> Inr (error_result, context, w) | Some t \<Rightarrow>
     (case inp of None \<Rightarrow> Inr (error_result, context, w) | Some d \<Rightarrow>
        bindE (is_key_valid (input_key d)) (\<lambda>ok.
        if \<not> ok \<or> input_value d = NULL then Inr (error_result, context, w)
        else
          bindE (table_add context (input_key d) (input_value d)) (\<lambda>(error, context').
          Inr (\<lparr>rtype = CMD_TYPE_ADD, outp = Error_output error\<rparr>, context', w)))))"

definition cmd_del :: command_proc where
  "cmd_del context inp w =
     (case context of None \<Rightarrow> Inr (error_result, context, w) | Some t \<Rightarrow>
     (case inp of None \<Rightarrow> Inr (error_result, context, w) | Some d \<Rightarrow>
        bindE (is_key_valid (input_key d)) (\<lambda>ok.
        if \<not> ok then Inr (error_result, context, w)
        else
          bindE (table_delete context (input_key d) (Some destroy_value_wrapper) w)
            (\<lambda>(error, context', w').
          Inr (\<lparr>rtype = (if error = 0 then CMD_TYPE_DEL else CMD_TYPE_ERROR), outp = Error_output error\<rparr>,
               context', w')))))"

definition cmd_exist :: command_proc where
  "cmd_exist context inp w =
     (case context of None \<Rightarrow> Inr (error_result, context, w) | Some t \<Rightarrow>
     (case inp of None \<Rightarrow> Inr (error_result, context, w) | Some d \<Rightarrow>
        bindE (is_key_valid (input_key d)) (\<lambda>ok.
        if \<not> ok then Inr (error_result, context, w)
        else
          bindE (table_exist context (input_key d)) (\<lambda>(existence, context').
          Inr (\<lparr>rtype = CMD_TYPE_EXIST, outp = Exist_output existence\<rparr>, context', w)))))"

definition cmd_replace :: command_proc where
  "cmd_replace context inp w =
     (case context of None \<Rightarrow> Inr (error_result, context, w) | Some t \<Rightarrow>
     (case inp of None \<Rightarrow> Inr (error_result, context, w) | Some d \<Rightarrow>
        bindE (is_key_valid (input_key d)) (\<lambda>ok.
        if \<not> ok \<or> input_value d = NULL then Inr (error_result, context, w)
        else
          bindE (table_replace context (input_key d) (input_value d) (Some destroy_value_wrapper) w)
            (\<lambda>(error_code, context', w').
          if error_code \<noteq> 0 then Inr (error_result, context', w')
          else Inr (\<lparr>rtype = CMD_TYPE_REPLACE, outp = Error_output 0\<rparr>, context', w')))))"

definition cmd_resize :: command_proc where
  "cmd_resize context inp w =
     (case context of None \<Rightarrow> Inr (error_result, context, w) | Some t \<Rightarrow>
     (case inp of None \<Rightarrow> Inr (error_result, context, w) | Some d \<Rightarrow>
        if input_size d = 0 then Inr (error_result, context, w)
        else
          bindE (table_resize context (input_size d) w) (\<lambda>(error_code, context', w').
          if error_code \<noteq> 0 then Inr (error_result, context', w')
          else Inr (\<lparr>rtype = CMD_TYPE_RESIZE, outp = Error_output 0\<rparr>, context', w'))))"

definition cmd_clear :: command_proc where
  "cmd_clear context inp w =
     (case context of None \<Rightarrow> Inr (error_result, context, w) | Some t \<Rightarrow>
     (case inp of None \<Rightarrow> Inr (error_result, context, w) | Some d \<Rightarrow>
        bindE (table_clear context (Some destroy_value_wrapper) w) (\<lambda>(error, context', w').
        Inr (\<lparr>rtype = CMD_TYPE_CLEAR, outp = Error_output error\<rparr>, context', w'))))"

definition cmd_load_factor :: command_proc where
  "cmd_load_factor context inp w =
     (case context of None \<Rightarrow> Inr (error_result, context, w) | Some t \<Rightarrow>
     (case inp of None \<Rightarrow> Inr (error_result, context, w) | Some d \<Rightarrow>
        Inr (\<lparr>rtype = CMD_TYPE_LOADFACTOR, outp = Load_output (table_load_factor context)\<rparr>, context, w)))"

text \<open>
  The handler of COUNT fills the inner union only: the \<open>type\<close> of the output keeps the zero of the
  initialisation, which is CMD_COUNT_CAPACITY.
\<close>

definition cmd_count :: command_proc where
  "cmd_count context inp w =
     (case context of None \<Rightarrow> Inr (error_result, context, w) | Some t \<Rightarrow>
     (case inp of None \<Rightarrow> Inr (error_result, context, w) | Some d \<Rightarrow>
        bindE
          (case input_count d of
             CMD_COUNT_OCCUPIED_BUCKET \<Rightarrow>
               bindE (table_occupied_bucket_counter context) (\<lambda>(x, context'). Inr (double_bits x, context'))
           | CMD_COUNT_CAPACITY \<Rightarrow> Inr (table_capacity context, context)
           | CMD_COUNT_MEMORY_USAGE \<Rightarrow> table_memory_usage context (Some std_value_sizer) w
           | CMD_COUNT_TOTAL_ELEM \<Rightarrow> bindE (table_total_elem context) (\<lambda>n. Inr (n, context)))
          (\<lambda>(counter, context').
           Inr (\<lparr>rtype = CMD_TYPE_COUNT, outp = Count_output CMD_COUNT_CAPACITY counter\<rparr>, context', w))))"

section \<open>The registry\<close>

definition command_table :: "command list" where
  "command_table =
     [\<lparr>name = literal ''ADD'', ctag = CMD_TYPE_ADD, cproc = cmd_add, arity = 2, flags = ''w''\<rparr>,
      \<lparr>name = literal ''CLEAR'', ctag = CMD_TYPE_CLEAR, cproc = cmd_clear, arity = 0, flags = ''w''\<rparr>,
      \<lparr>name = literal ''COUNT'', ctag = CMD_TYPE_COUNT, cproc = cmd_count, arity = 1, flags = ''r''\<rparr>,
      \<lparr>name = literal ''DEL'', ctag = CMD_TYPE_DEL, cproc = cmd_del, arity = 1, flags = ''w''\<rparr>,
      \<lparr>name = literal ''EXIST'', ctag = CMD_TYPE_EXIST, cproc = cmd_exist, arity = 1, flags = ''r''\<rparr>,
      \<lparr>name = literal ''GET'', ctag = CMD_TYPE_GET, cproc = cmd_get, arity = 1, flags = ''ra''\<rparr>,
      \<lparr>name = literal ''LOADFACTOR'', ctag = CMD_TYPE_LOADFACTOR, cproc = cmd_load_factor, arity = 0, flags = ''r''\<rparr>,
      \<lparr>name = literal ''REPLACE'', ctag = CMD_TYPE_REPLACE, cproc = cmd_replace, arity = 2, flags = ''w''\<rparr>,
      \<lparr>name = literal ''RESIZE'', ctag = CMD_TYPE_RESIZE, cproc = cmd_resize, arity = 1, flags = ''w''\<rparr>,
      \<lparr>name = literal ''SET'', ctag = CMD_TYPE_SET, cproc = cmd_set, arity = 2, flags = ''w''\<rparr>]"

definition sizeof_registry :: nat where "sizeof_registry = 16"

definition registry_create :: "world \<Rightarrow> command_registry option \<times> world" where
  "registry_create w =
     (let (p, w') = alloc_struct sizeof_registry w in
      if p = NULL then (None, w')
      else (Some \<lparr>reg_ptr = p, commands = command_table, reg_count = of_nat (length command_table)\<rparr>, w'))"

definition registry_destroy ::
    "command_registry option option \<Rightarrow> world \<Rightarrow> fault + (int \<times> command_registry option option \<times> world)" where
  "registry_destroy r w =
     (case r of
        None \<Rightarrow> Inr (- 1, r, w)
      | Some None \<Rightarrow> Inr (- 1, r, w)
      | Some (Some g) \<Rightarrow> bindE (free (reg_ptr g) w) (\<lambda>w'. Inr (0, Some None, w')))"

definition compare_command_names :: "cbuf \<Rightarrow> command \<Rightarrow> fault + int" where
  "compare_command_names key element = strcmp key (name element)"

definition find_command_index :: "command_registry option \<Rightarrow> cbuf option \<Rightarrow> fault + int" where
  "find_command_index r command_name =
     (case r of None \<Rightarrow> Inr (- 1) | Some g \<Rightarrow>
     (case command_name of None \<Rightarrow> Inr (- 1) | Some key \<Rightarrow>
        bindE (bsearch (\<lambda>i. compare_command_names key (commands g ! i)) (unat (reg_count g))) (\<lambda>found.
        Inr (case found of None \<Rightarrow> - 1 | Some i \<Rightarrow> int i))))"

section \<open>Arguments\<close>

definition arg :: "'a list \<Rightarrow> nat \<Rightarrow> fault + 'a" where
  "arg xs i = (if i < length xs then Inr (xs ! i) else Inl ArgvOverrun)"

definition stocmdcount :: "cbuf option \<Rightarrow> bool \<Rightarrow> fault + cmd_count_t option" where
  "stocmdcount subtype_str has_out =
     (case subtype_str of
        None \<Rightarrow> Inr None
      | Some s \<Rightarrow>
          (case s of
             [] \<Rightarrow> Inl BufferOverrun
           | c # _ \<Rightarrow>
               if c = 0 \<or> \<not> has_out then Inr None
               else
                 let u = toupper c in
                 let matches = (\<lambda>txt r. bindE (strcmp s (literal txt)) (\<lambda>d. Inr (if d = 0 then Some r else None))) in
                 if u = of_char (CHR ''C'') then matches ''CAPACITY'' CMD_COUNT_CAPACITY
                 else if u = of_char (CHR ''M'') then matches ''MEMORY_USAGE'' CMD_COUNT_MEMORY_USAGE
                 else if u = of_char (CHR ''T'') then matches ''TOTAL_ELEM'' CMD_COUNT_TOTAL_ELEM
                 else if u = of_char (CHR ''O'') then matches ''OCCUPIED_BUCKET'' CMD_COUNT_OCCUPIED_BUCKET
                 else Inr None))"

text \<open>The value argument, copied from the argument into a fresh \<open>data_entry_t\<close>.\<close>

definition build_value :: "cbuf \<Rightarrow> size_t \<Rightarrow> world \<Rightarrow> fault + (ptr \<times> world)" where
  "build_value s n w =
     (let (p, w1) = malloc (of_nat sizeof_size_t + n) w in
      if p = NULL then Inr (NULL, w1)
      else
        bindE (store p (le_bytes sizeof_size_t (unat n)) w1) (\<lambda>w2.
        if length s < unat n then Inl BufferOverrun
        else bindE (store (ptr_add p sizeof_size_t) (take (unat n) s) w2) (\<lambda>w3. Inr (p, w3))))"

definition build_pair :: "cmd_function_type \<Rightarrow> cbuf list \<Rightarrow> size_t list \<Rightarrow> world \<Rightarrow> fault + (int \<times> command_data \<times> world)" where
  "build_pair t argv args_lengths w =
     (let failed = \<lparr>tag = t, input = Zero_input\<rparr> in
      bindE (arg argv 0) (\<lambda>key.
      bindE (is_key_valid (Some key)) (\<lambda>ok.
      if \<not> ok then Inr (- 1, failed, w)
      else
        bindE (arg args_lengths 1) (\<lambda>n.
        bindE (arg argv 1) (\<lambda>s.
        bindE (build_value s n w) (\<lambda>(p, w').
        if p = NULL then Inr (- 1, failed, w')
        else Inr (0, \<lparr>tag = t, input = Pair_input (Some key) p\<rparr>, w')))))))"

definition build_key :: "cmd_function_type \<Rightarrow> cbuf list \<Rightarrow> world \<Rightarrow> fault + (int \<times> command_data \<times> world)" where
  "build_key t argv w =
     bindE (arg argv 0) (\<lambda>key.
     bindE (is_key_valid (Some key)) (\<lambda>ok.
     if \<not> ok then Inr (- 1, \<lparr>tag = t, input = Zero_input\<rparr>, w)
     else Inr (0, \<lparr>tag = t, input = Key_input (Some key)\<rparr>, w)))"

definition build_command_data ::
    "cmd_function_type \<Rightarrow> cbuf list \<Rightarrow> size_t list \<Rightarrow> world \<Rightarrow> fault + (int \<times> command_data \<times> world)" where
  "build_command_data t argv args_lengths w =
     (case t of
        CMD_TYPE_REPLACE \<Rightarrow> build_pair t argv args_lengths w
      | CMD_TYPE_SET \<Rightarrow> build_pair t argv args_lengths w
      | CMD_TYPE_ADD \<Rightarrow> build_pair t argv args_lengths w
      | CMD_TYPE_GET \<Rightarrow> build_key t argv w
      | CMD_TYPE_DEL \<Rightarrow> build_key t argv w
      | CMD_TYPE_EXIST \<Rightarrow> build_key t argv w
      | CMD_TYPE_RESIZE \<Rightarrow>
          bindE (arg argv 0) (\<lambda>s.
          bindE (strtoul s) (\<lambda>(new_size, endptr).
          if endptr = 0 \<or> s ! endptr \<noteq> 0 then Inr (- 1, \<lparr>tag = t, input = Zero_input\<rparr>, w)
          else Inr (0, \<lparr>tag = t, input = Size_input new_size\<rparr>, w)))
      | CMD_TYPE_CLEAR \<Rightarrow> Inr (0, \<lparr>tag = t, input = Zero_input\<rparr>, w)
      | CMD_TYPE_LOADFACTOR \<Rightarrow> Inr (0, \<lparr>tag = t, input = Zero_input\<rparr>, w)
      | CMD_TYPE_COUNT \<Rightarrow>
          bindE (arg argv 0) (\<lambda>s.
          bindE (stocmdcount (Some s) True) (\<lambda>r.
          case r of
            None \<Rightarrow> Inr (- 1, \<lparr>tag = t, input = Zero_input\<rparr>, w)
          | Some c \<Rightarrow> Inr (0, \<lparr>tag = t, input = Count_input c\<rparr>, w)))
      | CMD_TYPE_ERROR \<Rightarrow> Inr (- 1, \<lparr>tag = t, input = Zero_input\<rparr>, w)
      | CMD_TYPE_EMPTY \<Rightarrow> Inr (- 1, \<lparr>tag = t, input = Zero_input\<rparr>, w))"

section \<open>Replies\<close>

definition free_execute_result :: "execute_result option \<Rightarrow> world \<Rightarrow> fault + (execute_result option \<times> world)" where
  "free_execute_result result w =
     (case result of
        None \<Rightarrow> Inr (None, w)
      | Some r \<Rightarrow> bindE (free (body r) w) (\<lambda>w'. Inr (Some (r\<lparr>body := NULL, body_length := 0\<rparr>), w')))"

definition create_error_response :: "int \<Rightarrow> string \<Rightarrow> world \<Rightarrow> fault + (execute_result \<times> world)" where
  "create_error_response status message w =
     bindE (ustrdup (Some (literal message)) w) (\<lambda>(p, w').
     if p = NULL then Inr (\<lparr>status_code = 500, body = NULL, body_length = 0\<rparr>, w')
     else bindE (ustrlen (Some (block w' p))) (\<lambda>n.
          Inr (\<lparr>status_code = status, body = p, body_length = n\<rparr>, w')))"

definition TCP_SUCCESS :: string where "TCP_SUCCESS = ''OK''"
definition TCP_OPERATION_FAILED :: string where "TCP_OPERATION_FAILED = ''Operation failed''"
definition TCP_KEY_NOT_FOUND :: string where "TCP_KEY_NOT_FOUND = ''Key not found''"
definition TCP_INTERNAL_ERROR :: string where "TCP_INTERNAL_ERROR = ''Internal server error''"
definition TCP_MEMORY_ERROR :: string where "TCP_MEMORY_ERROR = ''Out of memory''"
definition TCP_TRUE :: string where "TCP_TRUE = ''1''"
definition TCP_FALSE :: string where "TCP_FALSE = ''0''"

text \<open>The reply to a GET: the data of the copied entry, copied once more.\<close>

definition respond_get :: "ptr \<Rightarrow> world \<Rightarrow> fault + (execute_result \<times> world)" where
  "respond_get value w =
     bindE (load value sizeof_size_t w) (\<lambda>bs.
     let size = of_nat (le_value bs) in
     bindE (memdup (ptr_add value sizeof_size_t) size w) (\<lambda>(p, w').
     if p = NULL then create_error_response 500 TCP_MEMORY_ERROR w'
     else Inr (\<lparr>status_code = 200, body = p, body_length = size\<rparr>, w')))"

text \<open>A text printed into the 64-byte buffer of COUNT, then copied without its terminator.\<close>

definition respond_count :: "byte list \<Rightarrow> world \<Rightarrow> fault + (execute_result \<times> world)" where
  "respond_count txt w =
     (if 64 \<le> length txt then create_error_response 500 ''Failed to format COUNT result'' w
      else
        let (p, w1) = malloc (of_nat (length txt) + 1) w in
        if p = NULL then create_error_response 500 TCP_MEMORY_ERROR w1
        else bindE (store p txt w1) (\<lambda>w2.
             Inr (\<lparr>status_code = 200, body = p, body_length = of_nat (length txt)\<rparr>, w2)))"

definition respond_text :: "cbuf \<Rightarrow> world \<Rightarrow> fault + (execute_result \<times> world)" where
  "respond_text txt w =
     bindE (ustrdup (Some txt) w) (\<lambda>(p, w').
     if p = NULL then create_error_response 500 TCP_MEMORY_ERROR w'
     else bindE (ustrlen (Some (block w' p))) (\<lambda>n.
          Inr (\<lparr>status_code = 200, body = p, body_length = n\<rparr>, w')))"

definition respond_done :: "command_result \<Rightarrow> world \<Rightarrow> fault + (execute_result \<times> world)" where
  "respond_done r w =
     (if output_error r \<noteq> 0 then create_error_response 409 TCP_OPERATION_FAILED w
      else bindE (ustrdup (Some (literal TCP_SUCCESS)) w) (\<lambda>(p, w').
           Inr (\<lparr>status_code = 200, body = p, body_length = of_nat (length TCP_SUCCESS)\<rparr>, w')))"

definition respond_load_factor :: "double \<Rightarrow> world \<Rightarrow> fault + (execute_result \<times> world)" where
  "respond_load_factor x w =
     (let txt = fmt_f 4 x in
      if 64 \<le> length txt then create_error_response 500 ''Failed to format LOADFACTOR result'' w
      else bindE (ustrdup (Some (txt @ [0])) w) (\<lambda>(p, w').
           if p = NULL then create_error_response 500 TCP_MEMORY_ERROR w'
           else Inr (\<lparr>status_code = 200, body = p, body_length = of_nat (length txt)\<rparr>, w')))"

text \<open>The double whose bits a \<open>size_t\<close> has, for printing \<open>counter_d\<close>: the inverse of \<open>double_bits\<close>.\<close>

definition double_of_bits :: "64 word \<Rightarrow> double" where
  "double_of_bits b =
     (if b = 0 then zero_double else Double (unat b mod 2 ^ 52 + 2 ^ 52) (int (unat b div 2 ^ 52) - 1075))"

definition respond :: "command_result \<Rightarrow> world \<Rightarrow> fault + (execute_result \<times> world)" where
  "respond r w =
     (case rtype r of
        CMD_TYPE_GET \<Rightarrow> (case outp r of Get_output p \<Rightarrow> respond_get p w | _ \<Rightarrow> Inl NullDeref)
      | CMD_TYPE_SET \<Rightarrow> respond_done r w
      | CMD_TYPE_ADD \<Rightarrow> respond_done r w
      | CMD_TYPE_DEL \<Rightarrow> respond_done r w
      | CMD_TYPE_REPLACE \<Rightarrow> respond_done r w
      | CMD_TYPE_RESIZE \<Rightarrow> respond_done r w
      | CMD_TYPE_CLEAR \<Rightarrow> respond_done r w
      | CMD_TYPE_EXIST \<Rightarrow>
          respond_text (literal (case outp r of Exist_output b \<Rightarrow> if b then TCP_TRUE else TCP_FALSE | _ \<Rightarrow> TCP_FALSE)) w
      | CMD_TYPE_COUNT \<Rightarrow>
          (case outp r of
             Count_output CMD_COUNT_OCCUPIED_BUCKET c \<Rightarrow> respond_count (fmt_f 2 (double_of_bits c)) w
           | Count_output _ c \<Rightarrow> respond_count (fmt_zu c) w
           | _ \<Rightarrow> respond_count (fmt_zu 0) w)
      | CMD_TYPE_LOADFACTOR \<Rightarrow>
          respond_load_factor (case outp r of Load_output x \<Rightarrow> x | _ \<Rightarrow> zero_double) w
      | CMD_TYPE_EMPTY \<Rightarrow> create_error_response 404 TCP_KEY_NOT_FOUND w
      | CMD_TYPE_ERROR \<Rightarrow> create_error_response 500 TCP_INTERNAL_ERROR w)"

section \<open>The dispatcher\<close>

definition execute_command ::
    "server_context \<Rightarrow> cbuf option \<Rightarrow> int \<Rightarrow> cbuf list \<Rightarrow> size_t list \<Rightarrow> world \<Rightarrow>
     fault + (execute_result \<times> server_context \<times> world)" where
  "execute_command ctx command_name argc argv args_lengths w =
     (let reply = (\<lambda>status message w. bindE (create_error_response status message w) (\<lambda>(r, w'). Inr (r, ctx, w'))) in
      case reg ctx of None \<Rightarrow> reply 400 ''Invalid arguments to dispatcher'' w | Some g \<Rightarrow>
      (case command_name of None \<Rightarrow> reply 400 ''Invalid arguments to dispatcher'' w | Some key \<Rightarrow>
         bindE (find_command_index (Some g) (Some key)) (\<lambda>i.
         if i = - 1 then reply 404 ''Command not found'' w
         else
           let cmd = commands g ! nat i in
           if arity cmd \<noteq> argc then reply 400 ''Incorrect number of arguments'' w
           else
             bindE (build_command_data (ctag cmd) argv args_lengths w) (\<lambda>(rc, d, w1).
             if rc \<noteq> 0 then reply 400 ''Invalid argument format'' w1
             else
               bindE (cproc cmd (database ctx) (Some d) w1) (\<lambda>(r, db', w2).
               bindE (respond r w2) (\<lambda>(x, w3). Inr (x, ctx\<lparr>database := db'\<rparr>, w3)))))))"

end
