(* ===== verification/Registry.thy ===== *)
theory Registry
  imports Command "HOL-Library.List_Lexorder"
begin

text \<open>
  The search of the command registry: \<open>strcmp\<close> is the lexicographic order on the bytes of two strings, the
  names of the command table are in that order, and so the binary search finds a command exactly when
  its name is in the table.
\<close>

section \<open>strcmp is the lexicographic order\<close>

fun compare_bytes :: "byte list \<Rightarrow> byte list \<Rightarrow> int" where
  "compare_bytes [] [] = 0"
| "compare_bytes [] (b # y) = - uint b"
| "compare_bytes (a # x) [] = uint a"
| "compare_bytes (a # x) (b # y) = (if a = b then compare_bytes x y else uint a - uint b)"

lemma strcmp_bytes:
  "terminated s \<Longrightarrow> terminated s' \<Longrightarrow> strcmp s s' = Inr (compare_bytes (cstr s) (cstr s'))"
  unfolding strcmp_def by (induction s s' rule: ustrcmp.induct) (auto split: if_splits)

lemma compare_bytes_order:
  assumes "0 \<notin> set x" and "0 \<notin> set y"
  shows "compare_bytes x y < 0 \<longleftrightarrow> x < y" and "compare_bytes x y = 0 \<longleftrightarrow> x = y"
    and "0 < compare_bytes x y \<longleftrightarrow> y < x"
proof -
  have pos: "0 < uint b" if "b \<noteq> 0" for b :: byte using that by (simp add: word_neq_0_conv word_less_def)
  have "(compare_bytes x y < 0 \<longleftrightarrow> x < y) \<and> (compare_bytes x y = 0 \<longleftrightarrow> x = y)"
    using assms by (induction x y rule: compare_bytes.induct) (auto simp: pos word_less_def)
  then show "compare_bytes x y < 0 \<longleftrightarrow> x < y" and "compare_bytes x y = 0 \<longleftrightarrow> x = y"
    and "0 < compare_bytes x y \<longleftrightarrow> y < x" by auto
qed

section \<open>The command table\<close>

definition command_names :: "byte list list" where
  "command_names = map (\<lambda>c. cstr (name c)) command_table"

lemma literal_simps [simp]:
  "terminated (literal s)" "0 \<notin> set (lit_bytes s) \<Longrightarrow> cstr (literal s) = lit_bytes s"
  by (simp_all add: literal_def)

lemma command_names_eq:
  "command_names = map lit_bytes
     [''ADD'', ''CLEAR'', ''COUNT'', ''DEL'', ''EXIST'', ''GET'', ''LOADFACTOR'', ''REPLACE'', ''RESIZE'', ''SET'']"
  by (simp add: command_names_def command_table_def literal_def lit_bytes_def)

lemma command_names_sorted: "sorted_wrt (<) command_names"
  by (simp add: command_names_eq lit_bytes_def)

lemma command_name_terminated: "c \<in> set command_table \<Longrightarrow> terminated (name c)"
  by (auto simp: command_table_def)

lemma length_command_table [simp]: "length command_table = 10"
  by (simp add: command_table_def)

definition std_registry :: "command_registry \<Rightarrow> bool" where
  "std_registry g \<longleftrightarrow> commands g = command_table \<and> reg_count g = of_nat (length command_table)"

text \<open>The index of a name in the table.\<close>

lemma find_command_spec:
  assumes g: "std_registry g" and key: "terminated key"
  obtains (found) i where "i < length command_table" "cstr (name (command_table ! i)) = cstr key"
      "find_command_index (Some g) (Some key) = Inr (int i)"
  | (missing) "cstr key \<notin> set command_names" "find_command_index (Some g) (Some key) = Inr (- 1)"
proof -
  let ?k = "cstr key" and ?n = "length command_table"
  define c where "c i = compare_bytes ?k (command_names ! i)" for i
  have nz: "0 \<notin> set (command_names ! i)" "command_names ! i = cstr (name (command_table ! i))" if "i < ?n" for i
    using that cstr_nonzero by (simp_all add: command_names_def)
  have order: "c i < 0 \<longleftrightarrow> ?k < command_names ! i" "c i = 0 \<longleftrightarrow> ?k = command_names ! i"
    "0 < c i \<longleftrightarrow> command_names ! i < ?k" if "i < ?n" for i
    using compare_bytes_order [OF cstr_nonzero nz(1) [OF that]] by (simp_all add: c_def)
  have less: "command_names ! i < command_names ! j" if "i < j" "j < ?n" for i j
    using command_names_sorted that by (simp add: sorted_wrt_iff_nth_less command_names_def)
  have eq: "bsearch (\<lambda>i. compare_command_names key (commands g ! i)) (unat (reg_count g)) =
      bsearch (\<lambda>i. compare_command_names key (command_table ! i)) ?n"
    using g by (simp add: std_registry_def)
  have mono: "(c i \<le> 0 \<longrightarrow> c j < 0) \<and> (0 \<le> c j \<longrightarrow> 0 < c i)" if "i < j" "j < ?n" for i j
  proof -
    have lt: "command_names ! i < command_names ! j" and i: "i < ?n" using less [OF that] that by simp_all
    have "c j < 0" if "c i \<le> 0"
    proof -
      have "?k \<le> command_names ! i" using order(3) [OF i] that by (simp add: not_less)
      with lt order(1) [OF \<open>j < ?n\<close>] show ?thesis by (simp only: le_less_trans)
    qed
    moreover have "0 < c i" if "0 \<le> c j"
    proof -
      have "command_names ! j \<le> ?k" using order(1) [OF \<open>j < ?n\<close>] that by (simp add: not_less)
      with lt order(3) [OF i] show ?thesis by (simp only: less_le_trans)
    qed
    ultimately show ?thesis by blast
  qed
  have cmp: "compare_command_names key (command_table ! i) = Inr (c i)" if "i < ?n" for i
    using that key nz(2) [OF that] command_name_terminated [OF nth_mem [OF that]]
    by (simp add: compare_command_names_def strcmp_bytes c_def)
  obtain r where r: "bsearch (\<lambda>i. compare_command_names key (command_table ! i)) ?n = Inr r"
    "case r of None \<Rightarrow> \<forall>i < ?n. c i \<noteq> 0 | Some i \<Rightarrow> i < ?n \<and> c i = 0"
    using mono cmp by (rule bsearch_spec)
  show thesis
  proof (cases r)
    case (Some i)
    with r order(2) [of i] nz(2) [of i] show thesis
      by (intro found [of i]) (simp_all add: find_command_index_def eq)
  next
    case None
    then have "?k \<noteq> command_names ! i" if "i < ?n" for i using r(2) order(2) that by auto
    then have "?k \<notin> set command_names" by (metis in_set_conv_nth length_map command_names_def)
    with r None show thesis by (intro missing) (simp_all add: find_command_index_def eq)
  qed
qed

end
