(* ===== verification/Replies.thy ===== *)
theory Replies
  imports Registry
begin

text \<open>
  The replies of the command layer. A reply is one fresh block whose first bytes are the text sent, or a
  NULL body when memory ran out; nothing else in memory changes.
\<close>

section \<open>What a reply is\<close>

text \<open>\<open>sends w w' x st txt\<close>: the reply \<open>x\<close> has status \<open>st\<close> and its body is one fresh block starting with \<open>txt\<close>.\<close>

definition sends :: "world \<Rightarrow> world \<Rightarrow> execute_result \<Rightarrow> int \<Rightarrow> byte list \<Rightarrow> bool" where
  "sends w w' x st txt \<longleftrightarrow>
     status_code x = st \<and> unat (body_length x) = length txt \<and> body x = Ptr (fresh w) 0 \<and>
     (\<exists>pad. heap w' = (heap w)(fresh w \<mapsto> txt @ pad)) \<and> fresh w' = Suc (fresh w) \<and>
     (sys_fails w = [] \<longrightarrow> sys_fails w' = [])"

text \<open>\<open>starved w w' x\<close>: memory ran out, the body is NULL and the heap is as before.\<close>

definition starved :: "world \<Rightarrow> world \<Rightarrow> execute_result \<Rightarrow> bool" where
  "starved w w' x \<longleftrightarrow> body x = NULL \<and> heap w' = heap w \<and> fresh w' = fresh w \<and> sys_fails w \<noteq> []"

text \<open>The bytes of a reply, as the server reads them.\<close>

definition reply_bytes :: "world \<Rightarrow> execute_result \<Rightarrow> byte list" where
  "reply_bytes w x = take (unat (body_length x)) (block w (body x))"

lemma sends_bytes: "sends w w' x st txt \<Longrightarrow> reply_bytes w' x = txt"
  by (auto simp: sends_def reply_bytes_def block_def)

text \<open>A reply leaves the database alone, whether it is sent or not.\<close>

definition replies :: "world \<Rightarrow> world \<Rightarrow> execute_result \<Rightarrow> bool" where
  "replies w w' x \<longleftrightarrow> starved w w' x \<or> (\<exists>st txt. sends w w' x st txt)"

lemma sends_db:
  assumes "db w t" and "sends w w' x st txt"
  shows "db w' t \<and> stored w' t = stored w t"
proof -
  from assms(2) obtain pad where "heap w' = (heap w)(fresh w \<mapsto> txt @ pad)" "fresh w' = Suc (fresh w)"
    by (auto simp: sends_def)
  note alloc = db_ok_alloc [OF assms(1) this]
  from alloc(1) contents_stored [OF alloc(2)] show ?thesis by simp
qed

lemma replies_db:
  assumes "db w t" and "replies w w' x"
  shows "db w' t \<and> stored w' t = stored w t"
proof (cases "starved w w' x")
  case True
  then have "heap w' = heap w" "fresh w' = fresh w" by (simp_all add: starved_def)
  note same = db_ok_same_heap [OF assms(1) this]
  from same(1) contents_stored [OF same(2)] show ?thesis by simp
next
  case False
  with assms(2) sends_db [OF assms(1)] show ?thesis by (auto simp: replies_def)
qed

lemma replies_outside:
  assumes "world_ok w" and "replies w w' x"
  shows "outside w t \<subseteq>\<^sub>m outside w' t"
  using assms(2) world_ok_fresh [OF assms(1)]
  by (intro outside_grows) (auto simp: replies_def starved_def sends_def)

section \<open>Copying a text\<close>

lemma unat_len: "length txt < 2 ^ 62 \<Longrightarrow> unat (of_nat (length txt) :: size_t) = length txt"
  by (simp add: unat_of_nat)

lemma unat_len_Suc:
  assumes "length txt < 2 ^ 62"
  shows "unat (of_nat (length txt) + 1 :: size_t) = Suc (length txt)"
proof -
  have "of_nat (length txt) + 1 = (of_nat (Suc (length txt)) :: size_t)" by simp
  moreover have "Suc (length txt) mod 2 ^ 64 = Suc (length txt)" using assms by simp
  ultimately show ?thesis by (simp only: unat_of_nat) simp
qed

lemma malloc_text_cases:
  assumes "unat n < 2 ^ 63"
  obtains (refused) w' where "malloc n w = (NULL, w')" "heap w' = heap w" "fresh w' = fresh w"
      "sys_fails w' = tl (sys_fails w)" "sys_fails w \<noteq> []"
  | (granted) w' where "malloc n w = (Ptr (fresh w) 0, w')"
      "heap w' = (heap w)(fresh w := Some (raw w (unat n)))" "fresh w' = Suc (fresh w)"
      "sys_fails w' = tl (sys_fails w)"
proof (cases rule: malloc_cases [of n w])
  case (refused w')
  moreover have "sys_fails w \<noteq> []" using malloc_grants [OF _ assms, of w] refused(1) by auto
  ultimately show thesis using that(1) by blast
qed (use that(2) in blast)

lemma ustrdup_cases:
  assumes "0 \<notin> set txt" and "length txt < 2 ^ 62"
  obtains (refused) w' where "ustrdup (Some (txt @ [0])) w = Inr (NULL, w')" "heap w' = heap w" "fresh w' = fresh w"
      "sys_fails w' = tl (sys_fails w)" "sys_fails w \<noteq> []"
  | (copied) w' where "ustrdup (Some (txt @ [0])) w = Inr (Ptr (fresh w) 0, w')"
      "heap w' = (heap w)(fresh w \<mapsto> txt @ [0])" "fresh w' = Suc (fresh w)" "sys_fails w' = tl (sys_fails w)"
proof -
  have len: "ustrlen_walk (txt @ [0]) 0 = Inr (of_nat (length txt))"
    using assms(1) by (simp add: ustrlen_walk_terminated)
  note n = unat_len_Suc [OF assms(2)]
  have "unat (of_nat (length txt) + 1 :: size_t) < 2 ^ 63" using assms(2) by (simp add: n)
  then show thesis
  proof (cases rule: malloc_text_cases [of _ w])
    case 1: (refused w')
    with len refused [of w'] show ?thesis by (simp add: ustrdup_def)
  next
    case 3: (granted w')
    with len n copied [of "w'\<lparr>heap := (heap w)(fresh w \<mapsto> txt @ [0])\<rparr>"] show ?thesis
      by (simp add: ustrdup_def store_def)
  qed
qed

section \<open>Every reply\<close>

lemma ustrlen_text: "0 \<notin> set txt \<Longrightarrow> ustrlen (Some (txt @ [0])) = Inr (of_nat (length txt))"
  by (simp add: ustrlen_terminated)

lemma error_response_cases:
  assumes "0 \<notin> set (lit_bytes msg)" and "length msg < 2 ^ 62"
  obtains (sent) x w' where "create_error_response st msg w = Inr (x, w')" "sends w w' x st (lit_bytes msg)"
  | (starved) x w' where "create_error_response st msg w = Inr (x, w')" "starved w w' x" "status_code x = 500"
proof -
  have len: "length (lit_bytes msg) < 2 ^ 62" using assms(2) by (simp add: lit_bytes_def)
  from assms(1) len show thesis
  proof (cases rule: ustrdup_cases [of _ w])
    case (refused w')
    then show ?thesis
      by (intro that(2) [of "\<lparr>status_code = 500, body = NULL, body_length = 0\<rparr>" w'])
         (simp_all add: create_error_response_def literal_def starved_def)
  next
    case (copied w')
    then show ?thesis using assms(1) unat_len [OF len]
      by (intro that(1) [of "\<lparr>status_code = st, body = Ptr (fresh w) 0, body_length = of_nat (length (lit_bytes msg))\<rparr>" w'])
         (auto simp: create_error_response_def literal_def sends_def block_def ustrlen_text)
  qed
qed

lemma error_response_replies:
  assumes "0 \<notin> set (lit_bytes msg)" and "length msg < 2 ^ 62"
  obtains x w' where "create_error_response st msg w = Inr (x, w')" "replies w w' x"
    and "sys_fails w = [] \<Longrightarrow> sends w w' x st (lit_bytes msg)" and "status_code x \<in> {st, 500}"
  using assms
proof (cases rule: error_response_cases [of _ st w])
  case (sent x w')
  with that [of x w'] show ?thesis by (auto simp: replies_def sends_def)
next
  case (starved x w')
  with that [of x w'] show ?thesis by (simp add: replies_def starved_def)
qed

text \<open>A reply sent after a refused request: the memory is still the one before.\<close>

lemma replies_later:
  assumes "replies w1 w' x" and "heap w1 = heap w" and "fresh w1 = fresh w" and "sys_fails w \<noteq> []"
  shows "replies w w' x"
  using assms by (auto simp: replies_def starved_def sends_def)

text \<open>The texts of the protocol hold no zero byte and are short.\<close>

lemma messages:
  "0 \<notin> set (lit_bytes TCP_SUCCESS)" "0 \<notin> set (lit_bytes TCP_OPERATION_FAILED)"
  "0 \<notin> set (lit_bytes TCP_KEY_NOT_FOUND)" "0 \<notin> set (lit_bytes TCP_INTERNAL_ERROR)"
  "0 \<notin> set (lit_bytes TCP_MEMORY_ERROR)" "0 \<notin> set (lit_bytes TCP_TRUE)" "0 \<notin> set (lit_bytes TCP_FALSE)"
  "0 \<notin> set (lit_bytes ''Invalid arguments to dispatcher'')" "0 \<notin> set (lit_bytes ''Command not found'')"
  "0 \<notin> set (lit_bytes ''Incorrect number of arguments'')" "0 \<notin> set (lit_bytes ''Invalid argument format'')"
  "length TCP_SUCCESS < 2 ^ 62" "length TCP_OPERATION_FAILED < 2 ^ 62" "length TCP_KEY_NOT_FOUND < 2 ^ 62"
  "length TCP_INTERNAL_ERROR < 2 ^ 62" "length TCP_MEMORY_ERROR < 2 ^ 62" "length TCP_TRUE < 2 ^ 62"
  "length TCP_FALSE < 2 ^ 62"
  by (simp_all add: lit_bytes_def TCP_SUCCESS_def TCP_OPERATION_FAILED_def TCP_KEY_NOT_FOUND_def
      TCP_INTERNAL_ERROR_def TCP_MEMORY_ERROR_def TCP_TRUE_def TCP_FALSE_def)

lemma respond_done_ok:
  obtains x w' where "respond_done r w = Inr (x, w')" "replies w w' x"
    and "sys_fails w = [] \<Longrightarrow> sends w w' x (if output_error r = 0 then 200 else 409)
           (lit_bytes (if output_error r = 0 then TCP_SUCCESS else TCP_OPERATION_FAILED))"
    and "status_code x \<in> {if output_error r = 0 then 200 else 409, 500}"
proof (cases "output_error r = 0")
  case False
  with that show thesis
    by (cases rule: error_response_replies [OF messages(2,13), of 409 w]) (simp add: respond_done_def)
next
  case True
  have short: "length (lit_bytes TCP_SUCCESS) < 2 ^ 62" by (simp add: lit_bytes_def TCP_SUCCESS_def)
  have len: "length (lit_bytes TCP_SUCCESS) = length TCP_SUCCESS" "unat (of_nat (length TCP_SUCCESS) :: size_t) = length TCP_SUCCESS"
    by (simp_all add: lit_bytes_def TCP_SUCCESS_def)
  from messages(1) short show thesis
  proof (cases rule: ustrdup_cases [of _ w])
    case (refused w')
    with True show thesis
      by (intro that [of "\<lparr>status_code = 200, body = NULL, body_length = of_nat (length TCP_SUCCESS)\<rparr>" w'])
         (auto simp: respond_done_def literal_def replies_def starved_def)
  next
    case (copied w')
    have "sends w w' \<lparr>status_code = 200, body = Ptr (fresh w) 0, body_length = of_nat (length TCP_SUCCESS)\<rparr>
        200 (lit_bytes TCP_SUCCESS)" using copied len by (auto simp: sends_def)
    with copied True show ?thesis
      by (intro that [of "\<lparr>status_code = 200, body = Ptr (fresh w) 0, body_length = of_nat (length TCP_SUCCESS)\<rparr>" w'])
         (auto simp: respond_done_def literal_def replies_def)
  qed
qed

lemma respond_text_ok:
  assumes "0 \<notin> set txt" and "length txt < 2 ^ 62"
  obtains x w' where "respond_text (txt @ [0]) w = Inr (x, w')" "replies w w' x"
    and "sys_fails w = [] \<Longrightarrow> sends w w' x 200 txt"
    and "status_code x \<in> {200, 500}"
  using assms
proof (cases rule: ustrdup_cases [of _ w])
  case (refused w')
  obtain x w2 where x: "create_error_response 500 TCP_MEMORY_ERROR w' = Inr (x, w2)" "replies w' w2 x" "status_code x \<in> {500, 500}"
    by (rule error_response_replies [OF messages(5,16)]) blast
  from x(2) refused(2,3,5) have "replies w w2 x" by (rule replies_later)
  with x refused show ?thesis by (intro that [of x w2]) (simp_all add: respond_text_def)
next
  case (copied w')
  let ?x = "\<lparr>status_code = 200, body = Ptr (fresh w) 0, body_length = of_nat (length txt)\<rparr>"
  have "sends w w' ?x 200 txt" using copied unat_len [OF assms(2)] by (auto simp: sends_def)
  with copied assms show ?thesis
    by (intro that [of ?x w']) (auto simp: respond_text_def replies_def block_def ustrlen_text)
qed

lemma respond_count_ok:
  assumes "length txt < 64"
  obtains x w' where "respond_count txt w = Inr (x, w')" "replies w w' x"
    and "sys_fails w = [] \<Longrightarrow> sends w w' x 200 txt"
    and "status_code x \<in> {200, 500}"
proof -
  have n: "unat (of_nat (length txt) + 1 :: size_t) = Suc (length txt)"
    using assms by (intro unat_len_Suc) simp
  have "unat (of_nat (length txt) + 1 :: size_t) < 2 ^ 63" using assms by (simp add: n)
  then show thesis
  proof (cases rule: malloc_text_cases [of _ w])
    case 2: (refused w')
    obtain x w2 where x: "create_error_response 500 TCP_MEMORY_ERROR w' = Inr (x, w2)" "replies w' w2 x" "status_code x \<in> {500, 500}"
      by (rule error_response_replies [OF messages(5,16)]) blast
    from x(2) 2(2,3,5) have "replies w w2 x" by (rule replies_later)
    with x 2 assms show ?thesis by (intro that [of x w2]) (simp_all add: respond_count_def)
  next
    case 3: (granted w')
    let ?x = "\<lparr>status_code = 200, body = Ptr (fresh w) 0, body_length = of_nat (length txt)\<rparr>"
    let ?w = "w'\<lparr>heap := (heap w)(fresh w \<mapsto> txt @ drop (length txt) (raw w (Suc (length txt))))\<rparr>"
    have "sends w ?w ?x 200 txt" using 3 assms by (auto simp: sends_def unat_len)
    with 3 assms n show ?thesis
      by (intro that [of ?x ?w]) (auto simp: respond_count_def store_def replies_def Let_def)
  qed
qed

lemma respond_get_ok:
  assumes w: "world_ok w" and a: "heap w a = Some (data_entry d)" and len: "length d < 2 ^ 62"
  obtains x w' where "respond_get (Ptr a 0) w = Inr (x, w')" "replies w w' x"
    and "sys_fails w = [] \<Longrightarrow> sends w w' x 200 d"
    and "status_code x \<in> {200, 500}"
proof -
  let ?n = "of_nat (length d) :: size_t"
  note n = unat_len [OF len]
  have size: "load (Ptr a 0) sizeof_size_t w = Inr (le_bytes 8 (length d))"
    using a by (simp add: load_def data_entry_def sizeof_size_t_def)
  have val: "of_nat (le_value (le_bytes 8 (length d))) = ?n" using len by (simp add: le_value_bytes)
  have ld: "load (ptr_add (Ptr a 0) sizeof_size_t) (unat ?n) w = Inr d"
    using a n by (simp add: load_def ptr_add_def data_entry_def sizeof_size_t_def)
  have grant: "fst (malloc ?n w) \<noteq> NULL" if "sys_fails w = []"
    using that len n by (intro malloc_grants) simp_all
  show thesis
  proof (rule memdup_spec [OF w ld])
    fix w1 assume A: "memdup (ptr_add (Ptr a 0) sizeof_size_t) ?n w = Inr (NULL, w1)" "heap w1 = heap w"
      "fresh w1 = fresh w" "fst (malloc ?n w) = NULL"
    obtain x w2 where x: "create_error_response 500 TCP_MEMORY_ERROR w1 = Inr (x, w2)" "replies w1 w2 x" "status_code x \<in> {500, 500}"
      by (rule error_response_replies [OF messages(5,16)]) blast
    have nf: "sys_fails w \<noteq> []" using grant A(4) by blast
    from x(2) A(2,3) nf have "replies w w2 x" by (rule replies_later)
    with x A size val nf show ?thesis by (intro that [of x w2]) (simp_all add: respond_get_def)
  next
    fix w1 assume A: "memdup (ptr_add (Ptr a 0) sizeof_size_t) ?n w = Inr (Ptr (fresh w) 0, w1)"
      "heap w1 = (heap w)(fresh w := Some d)" "fresh w1 = Suc (fresh w)" "sys_fails w1 = tl (sys_fails w)"
    let ?x = "\<lparr>status_code = 200, body = Ptr (fresh w) 0, body_length = ?n\<rparr>"
    have "sends w w1 ?x 200 d" using A n by (auto simp: sends_def intro: exI [of _ "[]"])
    with A size val show ?thesis by (intro that [of ?x w1]) (auto simp: respond_get_def replies_def)
  qed
qed

end
