(* ===== verification/Command_Spec.thy ===== *)
theory Command_Spec
  imports Replies Store
begin

text \<open>
  The command layer refines a map from keys to data. \<open>request\<close> is a command as a client sends it,
  \<open>call\<close> the arguments the server passes for it, and \<open>kv_answer\<close> the specification: the status, the text
  and the new map, for a map and the information whether the bucket of the key is full. The step theorem
  says that \<open>execute_command\<close> meets it for every request, and what is left of it when memory runs out.
\<close>

section \<open>Requests and the specification\<close>

datatype request =
    Req_get "byte list"
  | Req_set "byte list" "byte list"
  | Req_add "byte list" "byte list"
  | Req_del "byte list"
  | Req_exist "byte list"
  | Req_replace "byte list" "byte list"
  | Req_clear

fun request_key :: "request \<Rightarrow> byte list" where
  "request_key (Req_get k) = k"
| "request_key (Req_set k d) = k"
| "request_key (Req_add k d) = k"
| "request_key (Req_del k) = k"
| "request_key (Req_exist k) = k"
| "request_key (Req_replace k d) = k"
| "request_key Req_clear = []"

fun request_data :: "request \<Rightarrow> byte list" where
  "request_data (Req_set k d) = d"
| "request_data (Req_add k d) = d"
| "request_data (Req_replace k d) = d"
| "request_data r = []"

definition key_ok :: "byte list \<Rightarrow> bool" where
  "key_ok k \<longleftrightarrow> k \<noteq> [] \<and> 0 \<notin> set k \<and> length k < KEY_MAX_LEN"

definition request_ok :: "request \<Rightarrow> bool" where
  "request_ok r \<longleftrightarrow> (r = Req_clear \<or> key_ok (request_key r)) \<and> length (request_data r) < 2 ^ 61"

text \<open>The arguments of a request, each a string with its terminator.\<close>

fun call :: "request \<Rightarrow> cbuf \<times> int \<times> cbuf list \<times> size_t list" where
  "call (Req_get k) = (literal ''GET'', 1, [k @ [0]], [of_nat (length k)])"
| "call (Req_set k d) = (literal ''SET'', 2, [k @ [0], d @ [0]], [of_nat (length k), of_nat (length d)])"
| "call (Req_add k d) = (literal ''ADD'', 2, [k @ [0], d @ [0]], [of_nat (length k), of_nat (length d)])"
| "call (Req_del k) = (literal ''DEL'', 1, [k @ [0]], [of_nat (length k)])"
| "call (Req_exist k) = (literal ''EXIST'', 1, [k @ [0]], [of_nat (length k)])"
| "call (Req_replace k d) = (literal ''REPLACE'', 2, [k @ [0], d @ [0]], [of_nat (length k), of_nat (length d)])"
| "call Req_clear = (literal ''CLEAR'', 0, [], [])"

definition execute :: "request \<Rightarrow> server_context \<Rightarrow> world \<Rightarrow> fault + (execute_result \<times> server_context \<times> world)" where
  "execute r ctx w = (case call r of (nm, argc, argv, lens) \<Rightarrow> execute_command ctx (Some nm) argc argv lens w)"

type_synonym store_map = "byte list \<Rightarrow> byte list option"

fun kv_answer :: "bool \<Rightarrow> request \<Rightarrow> store_map \<Rightarrow> int \<times> byte list \<times> store_map" where
  "kv_answer full (Req_get k) m =
     (case m k of None \<Rightarrow> (404, lit_bytes TCP_KEY_NOT_FOUND, m) | Some d \<Rightarrow> (200, d, m))"
| "kv_answer full (Req_set k d) m =
     (if m k = None \<and> full then (409, lit_bytes TCP_OPERATION_FAILED, m)
      else (200, lit_bytes TCP_SUCCESS, m(k \<mapsto> d)))"
| "kv_answer full (Req_add k d) m =
     (if m k \<noteq> None \<or> full then (409, lit_bytes TCP_OPERATION_FAILED, m)
      else (200, lit_bytes TCP_SUCCESS, m(k \<mapsto> d)))"
| "kv_answer full (Req_del k) m =
     (if m k = None then (500, lit_bytes TCP_INTERNAL_ERROR, m)
      else (200, lit_bytes TCP_SUCCESS, m(k := None)))"
| "kv_answer full (Req_exist k) m =
     (200, lit_bytes (if m k = None then TCP_FALSE else TCP_TRUE), m)"
| "kv_answer full (Req_replace k d) m =
     (if m k = None then (500, lit_bytes TCP_INTERNAL_ERROR, m)
      else (200, lit_bytes TCP_SUCCESS, m(k \<mapsto> d)))"
| "kv_answer full Req_clear m = (200, lit_bytes TCP_SUCCESS, Map.empty)"

text \<open>The specification accepts the request and takes the map \<open>m\<close> to \<open>m'\<close>.\<close>

definition agreed :: "bool \<Rightarrow> request \<Rightarrow> store_map \<Rightarrow> store_map \<Rightarrow> bool" where
  "agreed full r m m' \<longleftrightarrow> fst (kv_answer full r m) = 200 \<and> m' = snd (snd (kv_answer full r m))"

lemma agreedI: "kv_answer full r m = (200, msg, m') \<Longrightarrow> agreed full r m m'"
  by (simp add: agreed_def)

section \<open>The server's state\<close>

text \<open>No data of 2 exabytes or more is stored; the size of an entry is computed without wrapping then.\<close>

definition moderate :: "store_map \<Rightarrow> bool" where
  "moderate m \<longleftrightarrow> (\<forall>k d. m k = Some d \<longrightarrow> length d < 2 ^ 61)"

definition serving :: "world \<Rightarrow> server_context \<Rightarrow> hashtable \<Rightarrow> bool" where
  "serving w ctx t \<longleftrightarrow> (\<exists>g. reg ctx = Some g \<and> std_registry g) \<and> database ctx = Some t \<and>
     serves w t \<and> moderate (stored w t)"

definition ctx_ok :: "world \<Rightarrow> server_context \<Rightarrow> bool" where
  "ctx_ok w ctx \<longleftrightarrow> (\<exists>t. serving w ctx t)"

definition view :: "world \<Rightarrow> server_context \<Rightarrow> store_map" where
  "view w ctx = (case database ctx of None \<Rightarrow> Map.empty | Some t \<Rightarrow> stored w t)"

definition request_full :: "server_context \<Rightarrow> request \<Rightarrow> bool" where
  "request_full ctx r = (case database ctx of None \<Rightarrow> False | Some t \<Rightarrow> bucket_full t (request_key r))"

text \<open>
  The blocks the database does not own, and the reply: a block of its own, with at least the bytes that are
  sent.
\<close>

definition beside :: "world \<Rightarrow> server_context \<Rightarrow> nat \<Rightarrow> byte list option" where
  "beside w ctx = (case database ctx of None \<Rightarrow> heap w | Some t \<Rightarrow> outside w t)"

definition ready_reply :: "(nat \<Rightarrow> byte list option) \<Rightarrow> (nat \<Rightarrow> byte list option) \<Rightarrow> execute_result \<Rightarrow> bool" where
  "ready_reply blocks blocks' x \<longleftrightarrow> (\<exists>a bs. body x = Ptr a 0 \<and> blocks' a = Some bs \<and> blocks a = None \<and>
     unat (body_length x) \<le> length bs)"

text \<open>
  The contract of one request: it returns, keeps the state well-formed and the memory outside the database,
  and the map is either unchanged or what the specification says, and a status of 200 is given only for a
  request that the specification accepts and that was carried out; when no allocation is refused the reply
  is the specified one and ready to be sent.
\<close>

definition meets :: "world \<Rightarrow> server_context \<Rightarrow> request \<Rightarrow> fault + (execute_result \<times> server_context \<times> world) \<Rightarrow> bool" where
  "meets w ctx r result \<longleftrightarrow>
     (\<exists>x ctx' w'. result = Inr (x, ctx', w') \<and> ctx_ok w' ctx' \<and> beside w ctx \<subseteq>\<^sub>m beside w' ctx' \<and>
        (view w' ctx' = view w ctx \<or> view w' ctx' = snd (snd (kv_answer (request_full ctx r) r (view w ctx)))) \<and>
        (status_code x = 200 \<longrightarrow> agreed (request_full ctx r) r (view w ctx) (view w' ctx')) \<and>
        (sys_fails w = [] \<longrightarrow> sys_fails w' = [] \<and> ready_reply (beside w ctx) (beside w' ctx') x \<and>
           (status_code x, reply_bytes w' x, view w' ctx') = kv_answer (request_full ctx r) r (view w ctx)))"

lemma kv_answer_moderate:
  "moderate m \<Longrightarrow> request_ok r \<Longrightarrow> moderate (snd (snd (kv_answer full r m)))"
  by (cases r) (auto simp: moderate_def request_ok_def split: option.splits)

lemma serving_simps:
  assumes "serving w ctx t"
  shows "database ctx = Some t" and "db w t" and "locks_cover t" and "moderate (stored w t)"
    and "view w ctx = stored w t" and "request_full ctx r = bucket_full t (request_key r)"
  using assms by (simp_all add: serving_def view_def request_full_def)

text \<open>
  A handler has left the table \<open>t'\<close> in the memory \<open>w2\<close>; what is left is the reply \<open>res\<close>, sent when
  memory allows.
\<close>

definition answers :: "command_result \<Rightarrow> world \<Rightarrow> int \<Rightarrow> byte list \<Rightarrow> bool" where
  "answers res w st txt \<longleftrightarrow> (\<exists>x w'. respond res w = Inr (x, w') \<and> replies w w' x \<and>
     status_code x \<in> {st, 500} \<and> (sys_fails w = [] \<longrightarrow> sends w w' x st txt))"

lemma reply_meets:
  assumes ctx: "serving w ctx t" and ok: "request_ok r"
    and result: "result = Inr (x, ctx\<lparr>database := Some t'\<rparr>, w')" and rep: "replies w2 w' x"
    and srv: "serves w2 t'" and keep: "outside w t \<subseteq>\<^sub>m outside w2 t'"
    and m: "stored w2 t' = stored w t \<or>
      stored w2 t' = snd (snd (kv_answer (bucket_full t (request_key r)) r (stored w t)))"
    and ack: "status_code x = 200 \<Longrightarrow> agreed (bucket_full t (request_key r)) r (stored w t) (stored w2 t')"
    and quiet: "sys_fails w = [] \<Longrightarrow> sys_fails w2 = [] \<and> sends w2 w' x st txt \<and>
      kv_answer (bucket_full t (request_key r)) r (stored w t) = (st, txt, stored w2 t')"
  shows "meets w ctx r result"
proof -
  let ?ctx = "ctx\<lparr>database := Some t'\<rparr>"
  note simps = serving_simps [OF ctx]
  have db': "db w' t'" "stored w' t' = stored w2 t'" using replies_db [OF _ rep, of t'] srv by simp_all
  have "moderate (stored w2 t')" using m simps(4) kv_answer_moderate [OF simps(4) ok] by auto
  then have "serving w' ?ctx t'" using ctx srv db' by (simp add: serving_def)
  then have "ctx_ok w' ?ctx" "view w' ?ctx = stored w2 t'"
    using db'(2) by (auto simp: ctx_ok_def view_def)
  moreover have "sys_fails w' = [] \<and> (status_code x, reply_bytes w' x) = (st, txt)" if "sys_fails w = []"
    using quiet [OF that] sends_bytes [of w2 w' x st] by (auto simp: sends_def)
  moreover have fr: "Ptr (fresh w2) 0 \<notin> footprint t'" "heap w2 (fresh w2) = None" and w2: "world_ok w2"
    using srv fresh_footprint [of _ w2 t'] world_ok_fresh [of w2] by (auto simp: db_ok_def)
  moreover have "beside w ctx \<subseteq>\<^sub>m beside w' ?ctx"
    using map_le_trans [OF keep replies_outside [OF w2 rep]] simps(1) by (simp add: beside_def)
  moreover have "ready_reply (beside w ctx) (beside w' ?ctx) x" if "sys_fails w = []"
  proof -
    have "outside w t (fresh w2) = None"
      using keep fr by (metis domIff map_le_def outside_def)
    with quiet [OF that] fr show ?thesis by (auto simp: ready_reply_def sends_def beside_def outside_def simps(1))
  qed
  ultimately show ?thesis
    using result m ack quiet by (auto simp: meets_def simps(5,6))
qed

lemma respond_meets:
  assumes ctx: "serving w ctx t" and ok: "request_ok r"
    and result: "result = bindE (respond res w2) (\<lambda>(x, w3). Inr (x, ctx\<lparr>database := Some t'\<rparr>, w3))"
    and ans: "answers res w2 st txt" and srv: "serves w2 t'" and keep: "outside w t \<subseteq>\<^sub>m outside w2 t'"
    and m: "stored w2 t' = stored w t \<or>
      stored w2 t' = snd (snd (kv_answer (bucket_full t (request_key r)) r (stored w t)))"
    and ack: "st = 200 \<Longrightarrow> agreed (bucket_full t (request_key r)) r (stored w t) (stored w2 t')"
    and quiet: "sys_fails w = [] \<Longrightarrow> sys_fails w2 = [] \<and>
      kv_answer (bucket_full t (request_key r)) r (stored w t) = (st, txt, stored w2 t')"
  shows "meets w ctx r result"
proof -
  obtain x w' where x: "respond res w2 = Inr (x, w')" "replies w2 w' x" "sys_fails w2 = [] \<Longrightarrow> sends w2 w' x st txt"
    "status_code x \<in> {st, 500}"
    using ans by (auto simp: answers_def)
  then have "result = Inr (x, ctx\<lparr>database := Some t'\<rparr>, w')" using result by simp
  from ctx ok this x(2) srv keep m show ?thesis by (rule reply_meets) (use quiet ack x(3,4) in auto)
qed

lemma answers_done:
  assumes "T \<in> {CMD_TYPE_SET, CMD_TYPE_ADD, CMD_TYPE_DEL, CMD_TYPE_REPLACE, CMD_TYPE_RESIZE, CMD_TYPE_CLEAR}"
  shows "answers \<lparr>rtype = T, outp = Error_output e\<rparr> w (if e = 0 then 200 else 409)
    (lit_bytes (if e = 0 then TCP_SUCCESS else TCP_OPERATION_FAILED))"
proof -
  let ?r = "\<lparr>rtype = T, outp = Error_output e\<rparr>"
  have "respond ?r w = respond_done ?r w" using assms by (auto simp: respond_def)
  then show ?thesis
    by (cases rule: respond_done_ok [of ?r w]) (auto simp: answers_def output_error_def)
qed

lemma answers_empty: "rtype r = CMD_TYPE_EMPTY \<Longrightarrow> answers r w 404 (lit_bytes TCP_KEY_NOT_FOUND)"
  by (cases rule: error_response_replies [OF messages(3,14), of 404 w]) (auto simp: answers_def respond_def)

lemma answers_error: "rtype r = CMD_TYPE_ERROR \<Longrightarrow> answers r w 500 (lit_bytes TCP_INTERNAL_ERROR)"
  by (cases rule: error_response_replies [OF messages(4,15), of 500 w]) (auto simp: answers_def respond_def)

lemma answers_exist:
  "answers \<lparr>rtype = CMD_TYPE_EXIST, outp = Exist_output b\<rparr> w 200 (lit_bytes (if b then TCP_TRUE else TCP_FALSE))"
proof -
  let ?txt = "lit_bytes (if b then TCP_TRUE else TCP_FALSE)"
  have "0 \<notin> set ?txt" "length ?txt < 2 ^ 62"
    using messages by (simp_all add: lit_bytes_def TCP_TRUE_def TCP_FALSE_def)
  then show ?thesis
    by (cases rule: respond_text_ok [of ?txt w]) (auto simp: answers_def respond_def literal_def)
qed

lemma answers_get:
  assumes "world_ok w" and "heap w a = Some (data_entry d)" and "length d < 2 ^ 61"
  shows "answers \<lparr>rtype = CMD_TYPE_GET, outp = Get_output (Ptr a 0)\<rparr> w 200 d"
proof -
  have "length d < 2 ^ 62" using assms(3) by simp
  with assms(1,2) show ?thesis
    by (cases rule: respond_get_ok [of w a d]) (auto simp: answers_def respond_def)
qed

section \<open>Dispatch\<close>

lemma command_index_unique:
  assumes "i < length command_table" and "j < length command_table"
    and "cstr (name (command_table ! i)) = cstr (name (command_table ! j))"
  shows "i = j"
proof -
  have "distinct command_names"
    using command_names_sorted by (auto simp: strict_sorted_iff)
  with assms show ?thesis
    by (metis command_names_def length_map nth_eq_iff_index_eq nth_map)
qed

lemma dispatch:
  assumes "reg ctx = Some g" and "std_registry g" and "terminated key" and "i < length command_table"
    and "cstr (name (command_table ! i)) = cstr key"
  shows "execute_command ctx (Some key) argc argv lens w =
    (let cmd = command_table ! i;
         reply = (\<lambda>msg w. bindE (create_error_response 400 msg w) (\<lambda>(r, w'). Inr (r, ctx, w'))) in
     if arity cmd \<noteq> argc then reply ''Incorrect number of arguments'' w
     else bindE (build_command_data (ctag cmd) argv lens w) (\<lambda>(rc, d, w1).
       if rc \<noteq> 0 then reply ''Invalid argument format'' w1
       else bindE (cproc cmd (database ctx) (Some d) w1) (\<lambda>(r, db', w2).
            bindE (respond r w2) (\<lambda>(x, w3). Inr (x, ctx\<lparr>database := db'\<rparr>, w3)))))"
proof -
  have "find_command_index (Some g) (Some key) = Inr (int i)"
    using assms(2,3)
  proof (cases rule: find_command_spec)
    case (found j)
    with assms(4,5) have "j = i" by (intro command_index_unique) simp_all
    with found show ?thesis by simp
  next
    case missing
    with assms(4,5) show ?thesis by (metis command_names_def length_map nth_map nth_mem)
  qed
  with assms(1,2) show ?thesis by (simp add: execute_command_def std_registry_def Let_def)
qed

section \<open>Arguments\<close>

text \<open>Building the value argument.\<close>

lemma build_value_cases:
  assumes "length d < 2 ^ 61"
  obtains (refused) w1 where "build_value (d @ [0]) (of_nat (length d)) w = Inr (NULL, w1)"
      "heap w1 = heap w" "fresh w1 = fresh w" "sys_fails w \<noteq> []"
  | (built) w1 where "build_value (d @ [0]) (of_nat (length d)) w = Inr (Ptr (fresh w) 0, w1)"
      "heap w1 = (heap w)(fresh w := Some (data_entry d))" "fresh w1 = Suc (fresh w)"
      "sys_fails w1 = tl (sys_fails w)"
proof -
  let ?n = "of_nat sizeof_size_t + of_nat (length d) :: size_t"
  have n: "unat ?n = 8 + length d"
  proof -
    have "?n = of_nat (8 + length d)" by (simp add: sizeof_size_t_def)
    moreover have "(8 + length d) mod 2 ^ 64 = 8 + length d" using assms by simp
    ultimately show ?thesis by (simp only: unat_of_nat) simp
  qed
  have l: "unat (of_nat (length d) :: size_t) = length d" using assms by (intro unat_len) simp
  have "unat ?n < 2 ^ 63" using assms by (simp add: n)
  then show thesis
  proof (cases rule: malloc_text_cases [of _ w])
    case A: (refused w1)
    then show ?thesis by (intro refused [of w1]) (simp_all add: build_value_def)
  next
    case A: (granted w1)
    let ?w1 = "w1\<lparr>heap := (heap w)(fresh w := Some (le_bytes 8 (length d) @ drop 8 (raw w (8 + length d))))\<rparr>"
    let ?w2 = "w1\<lparr>heap := (heap w)(fresh w := Some (data_entry d))\<rparr>"
    have s1: "store (Ptr (fresh w) 0) (le_bytes sizeof_size_t (length d)) w1 = Inr ?w1"
      unfolding sizeof_size_t_def store_def using A(2) by (simp add: n)
    have s2: "store (ptr_add (Ptr (fresh w) 0) sizeof_size_t) d ?w1 = Inr ?w2"
      by (simp add: store_def ptr_add_def sizeof_size_t_def data_entry_def)
    have "build_value (d @ [0]) (of_nat (length d)) w = Inr (Ptr (fresh w) 0, ?w2)"
      unfolding build_value_def A(1) by (simp add: l s1 s2)
    with A show ?thesis by (intro built [of ?w2]) simp_all
  qed
qed

lemma key_arg:
  assumes "key_ok k"
  shows "terminated (k @ [0])" "cstr (k @ [0]) = k" "is_key_valid (Some (k @ [0])) = Inr True" "length k < 255"
  using assms by (cases k; simp add: key_ok_def is_key_valid_terminated)+

lemma build_pair_cases:
  assumes db: "db w t" and key: "key_ok k" and len: "length d < 2 ^ 61"
  obtains (refused) w1 where "build_pair tg [k @ [0], d @ [0]] [n, of_nat (length d)] w =
      Inr (- 1, \<lparr>tag = tg, input = Zero_input\<rparr>, w1)" "db w1 t" "stored w1 t = stored w t" "sys_fails w \<noteq> []"
      "outside w1 t = outside w t"
  | (built) w1 where "build_pair tg [k @ [0], d @ [0]] [n, of_nat (length d)] w =
      Inr (0, \<lparr>tag = tg, input = Pair_input (Some (k @ [0])) (Ptr (fresh w) 0)\<rparr>, w1)"
      "db w1 t" "stored w1 t = stored w t" "new_entry w1 t (fresh w) d" "sys_fails w1 = tl (sys_fails w)"
      "outside w t \<subseteq>\<^sub>m outside w1 t |` (- {fresh w})"
  using len
proof (cases rule: build_value_cases [of _ w])
  case (refused w1)
  note same = db_ok_same_heap [OF db refused(2,3)]
  show ?thesis
    using refused(1,4) same(1,3) contents_stored [OF same(2)] key_arg [OF key]
    by (intro that(1) [of w1]) (simp_all add: build_pair_def arg_def)
next
  case (built w1)
  note alloc = db_ok_alloc [OF db built(2,3)]
  have "new_entry w1 t (fresh w) d"
    using built(2) len fresh_footprint [OF db] by (auto simp: new_value_def footprint_def)
  moreover have "outside w t \<subseteq>\<^sub>m outside w1 t |` (- {fresh w})"
    using world_ok_fresh [OF db_ok_simps(1) [OF db]] by (auto simp: alloc(3) map_le_def restrict_map_def outside_def dom_def)
  ultimately show ?thesis using built(1,4) alloc(1) contents_stored [OF alloc(2)] key_arg [OF key]
    by (intro that(2) [of w1]) (simp_all add: build_pair_def arg_def)
qed

section \<open>Each request\<close>

lemma refused_meets:
  assumes ctx: "serving w ctx t" and ok: "request_ok r"
    and w1: "db w1 t" "stored w1 t = stored w t" and nf: "sys_fails w \<noteq> []" and keep: "outside w1 t = outside w t"
    and result: "result = bindE (create_error_response 400 ''Invalid argument format'' w1) (\<lambda>(r, w'). Inr (r, ctx, w'))"
  shows "meets w ctx r result"
proof -
  obtain x w' where x: "create_error_response 400 ''Invalid argument format'' w1 = Inr (x, w')" "replies w1 w' x" "status_code x \<in> {400, 500}"
    by (rule error_response_replies [OF messages(11)]) (auto simp: lit_bytes_def)
  have "ctx\<lparr>database := Some t\<rparr> = ctx" using serving_simps(1) [OF ctx] by simp
  with x result have "result = Inr (x, ctx\<lparr>database := Some t\<rparr>, w')" by simp
  from ctx ok this x(2) show ?thesis
    by (rule reply_meets) (use w1 serving_simps(3) [OF ctx] nf keep x(3) in auto)
qed

text \<open>The place of each command in the table.\<close>

lemma command_slots:
  "command_table ! 0 = \<lparr>name = literal ''ADD'', ctag = CMD_TYPE_ADD, cproc = cmd_add, arity = 2, flags = ''w''\<rparr>"
  "command_table ! 1 = \<lparr>name = literal ''CLEAR'', ctag = CMD_TYPE_CLEAR, cproc = cmd_clear, arity = 0, flags = ''w''\<rparr>"
  "command_table ! 3 = \<lparr>name = literal ''DEL'', ctag = CMD_TYPE_DEL, cproc = cmd_del, arity = 1, flags = ''w''\<rparr>"
  "command_table ! 4 = \<lparr>name = literal ''EXIST'', ctag = CMD_TYPE_EXIST, cproc = cmd_exist, arity = 1, flags = ''r''\<rparr>"
  "command_table ! 5 = \<lparr>name = literal ''GET'', ctag = CMD_TYPE_GET, cproc = cmd_get, arity = 1, flags = ''ra''\<rparr>"
  "command_table ! 7 = \<lparr>name = literal ''REPLACE'', ctag = CMD_TYPE_REPLACE, cproc = cmd_replace, arity = 2, flags = ''w''\<rparr>"
  "command_table ! 9 = \<lparr>name = literal ''SET'', ctag = CMD_TYPE_SET, cproc = cmd_set, arity = 2, flags = ''w''\<rparr>"
  by (simp_all add: command_table_def)

text \<open>
  A command of the standard table, run on a well-formed server: arguments, handler, reply.
\<close>

lemma run_command:
  assumes "serving w ctx t" and "i < length command_table" and "name (command_table ! i) = literal nm"
    and "0 \<notin> set (lit_bytes nm)" and "arity (command_table ! i) = argc"
    and "build_command_data (ctag (command_table ! i)) argv lens w = Inr (0, d, w1)"
    and "cproc (command_table ! i) (Some t) (Some d) w1 = Inr (res, Some t', w2)"
  shows "execute_command ctx (Some (literal nm)) argc argv lens w =
    bindE (respond res w2) (\<lambda>(x, w3). Inr (x, ctx\<lparr>database := Some t'\<rparr>, w3))"
proof -
  obtain g where "reg ctx = Some g" "std_registry g" "database ctx = Some t"
    using assms(1) by (auto simp: serving_def)
  moreover have "terminated (literal nm)" by (simp add: literal_def)
  ultimately show ?thesis
    using dispatch [of ctx g "literal nm" i argc argv lens w] assms(2-7) by simp
qed

lemma run_refused:
  assumes "serving w ctx t" and "i < length command_table" and "name (command_table ! i) = literal nm"
    and "0 \<notin> set (lit_bytes nm)" and "arity (command_table ! i) = argc"
    and "build_command_data (ctag (command_table ! i)) argv lens w = Inr (rc, d, w1)" and "rc \<noteq> 0"
  shows "execute_command ctx (Some (literal nm)) argc argv lens w =
    bindE (create_error_response 400 ''Invalid argument format'' w1) (\<lambda>(r, w'). Inr (r, ctx, w'))"
proof -
  obtain g where "reg ctx = Some g" "std_registry g" "database ctx = Some t"
    using assms(1) by (auto simp: serving_def)
  moreover have "terminated (literal nm)" by (simp add: literal_def)
  ultimately show ?thesis
    using dispatch [of ctx g "literal nm" i argc argv lens w] assms(2-7) by simp
qed

text \<open>
  What a handler does to the table \<open>t\<close> for the request \<open>r\<close>: it returns a result that has an answer, the
  map is unchanged or as specified, and without refused allocations the answer is the specified one. The
  blocks outside the table stay, except those in \<open>taken\<close>, which the table may take over.
\<close>

lemma restrict_UNIV [simp]: "m |` UNIV = m"
  by (simp add: restrict_map_def)

definition handles :: "nat set \<Rightarrow> world \<Rightarrow> hashtable \<Rightarrow> request \<Rightarrow> fault + (command_result \<times> hashtable option \<times> world) \<Rightarrow> bool" where
  "handles taken w t r result \<longleftrightarrow>
     (\<exists>res t' w' st txt. result = Inr (res, Some t', w') \<and> answers res w' st txt \<and> serves w' t' \<and>
        outside w t |` (- taken) \<subseteq>\<^sub>m outside w' t' \<and>
        (stored w' t' = stored w t \<or>
         stored w' t' = snd (snd (kv_answer (bucket_full t (request_key r)) r (stored w t)))) \<and>
        (st = 200 \<longrightarrow> agreed (bucket_full t (request_key r)) r (stored w t) (stored w' t')) \<and>
        (sys_fails w = [] \<longrightarrow> sys_fails w' = [] \<and>
           kv_answer (bucket_full t (request_key r)) r (stored w t) = (st, txt, stored w' t')))"

lemma handlesI:
  assumes "result = Inr (res, Some t', w')" and "answers res w' st msg" and "serves w' t'"
    and "kv_answer (bucket_full t (request_key r)) r (stored w t) = (st, msg, stored w' t')"
    and "sys_fails w = [] \<longrightarrow> sys_fails w' = []" and "outside w t |` (- taken) \<subseteq>\<^sub>m outside w' t'"
  shows "handles taken w t r result"
  unfolding handles_def using assms
  by (intro exI [of _ res] exI [of _ t'] exI [of _ w'] exI [of _ st] exI [of _ msg]) (auto intro: agreedI)

lemma handled_meets:
  assumes ctx: "serving w ctx t" and ok: "request_ok r"
    and w1: "stored w1 t = stored w t" "sys_fails w = [] \<longrightarrow> sys_fails w1 = []"
      "outside w t \<subseteq>\<^sub>m outside w1 t |` (- taken)"
    and h: "handles taken w1 t r (proc (Some t) (Some d) w1)"
    and result: "\<And>res t' w2. proc (Some t) (Some d) w1 = Inr (res, Some t', w2) \<Longrightarrow>
      result = bindE (respond res w2) (\<lambda>(x, w3). Inr (x, ctx\<lparr>database := Some t'\<rparr>, w3))"
  shows "meets w ctx r result"
proof -
  obtain res t' w2 st msg where H: "proc (Some t) (Some d) w1 = Inr (res, Some t', w2)"
    "answers res w2 st msg" "serves w2 t'" "outside w1 t |` (- taken) \<subseteq>\<^sub>m outside w2 t'"
    "stored w2 t' = stored w1 t \<or> stored w2 t' = snd (snd (kv_answer (bucket_full t (request_key r)) r (stored w1 t)))"
    "st = 200 \<longrightarrow> agreed (bucket_full t (request_key r)) r (stored w1 t) (stored w2 t')"
    "sys_fails w1 = [] \<longrightarrow> sys_fails w2 = [] \<and>
      kv_answer (bucket_full t (request_key r)) r (stored w1 t) = (st, msg, stored w2 t')"
    using h unfolding handles_def by blast
  from ctx ok result [OF H(1)] H(2,3) map_le_trans [OF w1(3) H(4)] show ?thesis
    by (rule respond_meets) (use H(5-7) w1 in auto)
qed

text \<open>The commands with a key and a value, and those with a key.\<close>

locale pair_command =
  fixes i :: nat and nm :: string and T :: cmd_function_type and handler :: command_proc and fg :: string
    and req :: "byte list \<Rightarrow> byte list \<Rightarrow> request"
  assumes slot: "i < length command_table"
      "command_table ! i = \<lparr>name = literal nm, ctag = T, cproc = handler, arity = 2, flags = fg\<rparr>"
      "0 \<notin> set (lit_bytes nm)"
    and parse: "build_command_data T argv lens w = build_pair T argv lens w"
    and calls: "call (req k d) = (literal nm, 2, [k @ [0], d @ [0]], [of_nat (length k), of_nat (length d)])"
    and args: "request_ok (req k d) \<Longrightarrow> key_ok k \<and> length d < 2 ^ 61"
    and handler_ok: "serves w t \<Longrightarrow> key_ok k \<Longrightarrow> new_entry w t a d \<Longrightarrow>
      handles {a} w t (req k d) (handler (Some t) (Some \<lparr>tag = T, input = Pair_input (Some (k @ [0])) (Ptr a 0)\<rparr>) w)"
begin

lemma execute_meets:
  assumes ctx: "serving w ctx t" and ok: "request_ok (req k d)"
  shows "meets w ctx (req k d) (execute (req k d) ctx w)"
proof -
  have key: "key_ok k" and len: "length d < 2 ^ 61" using args [OF ok] by simp_all
  have exec: "execute (req k d) ctx w =
      execute_command ctx (Some (literal nm)) 2 [k @ [0], d @ [0]] [of_nat (length k), of_nat (length d)] w"
    by (simp add: execute_def calls)
  from serving_simps(2) [OF ctx] key len show ?thesis
  proof (cases rule: build_pair_cases [where tg = T and n = "of_nat (length k)"])
    case (refused w1)
    have minus: "- 1 \<noteq> (0 :: int)" by simp
    show ?thesis
      by (rule refused_meets [OF ctx ok refused(2-5)], unfold exec, rule run_refused [OF ctx slot(1) _ _ _ _ minus])
        (use slot parse refused(1) in simp_all)
  next
    case (built w1)
    have "serves w1 t" using built(2) serving_simps(3) [OF ctx] by simp
    from ctx ok built(3) _ built(6) handler_ok [OF this key built(4)] show ?thesis
      by (rule handled_meets, use built(5) in simp, unfold exec, intro run_command [OF ctx slot(1)])
        (use slot parse built(1) in simp_all)
  qed
qed

end

locale key_command =
  fixes i :: nat and nm :: string and T :: cmd_function_type and handler :: command_proc and fg :: string
    and req :: "byte list \<Rightarrow> request"
  assumes slot: "i < length command_table"
      "command_table ! i = \<lparr>name = literal nm, ctag = T, cproc = handler, arity = 1, flags = fg\<rparr>"
      "0 \<notin> set (lit_bytes nm)"
    and parse: "build_command_data T argv lens w = build_key T argv w"
    and calls: "call (req k) = (literal nm, 1, [k @ [0]], [of_nat (length k)])"
    and args: "request_ok (req k) \<Longrightarrow> key_ok k"
    and handler_ok: "serves w t \<Longrightarrow> moderate (stored w t) \<Longrightarrow> key_ok k \<Longrightarrow>
      handles {} w t (req k) (handler (Some t) (Some \<lparr>tag = T, input = Key_input (Some (k @ [0]))\<rparr>) w)"
begin

lemma execute_meets:
  assumes ctx: "serving w ctx t" and ok: "request_ok (req k)"
  shows "meets w ctx (req k) (execute (req k) ctx w)"
proof -
  have key: "key_ok k" using args [OF ok] .
  have exec: "execute (req k) ctx w = execute_command ctx (Some (literal nm)) 1 [k @ [0]] [of_nat (length k)] w"
    by (simp add: execute_def calls)
  have srv: "serves w t" "moderate (stored w t)" using serving_simps [OF ctx] by simp_all
  show ?thesis
    by (rule handled_meets [where proc = handler, OF ctx ok _ _ _ handler_ok [OF srv key]], simp, simp, simp, unfold exec, intro run_command [OF ctx slot(1)])
      (use slot parse key_arg [OF key] in \<open>simp_all add: build_key_def arg_def\<close>)
qed

end

end
