(* ===== verification/Command_Steps.thy ===== *)
theory Command_Steps
  imports Command_Spec
begin

text \<open>
  Each handler of src/src/command.c meets the contract of its command, so every request to a well-formed
  server is answered as the specification says.
\<close>

section \<open>The handlers\<close>

lemma without_taken: "m(a := None) = m |` (- {a})" "m |` (- {a}) \<subseteq>\<^sub>m m"
  by (simp_all add: restrict_complement_singleton_eq map_le_def)

lemma cmd_set_handles:
  assumes "serves w t" and "key_ok k" and "new_entry w t a d"
  shows "handles {a} w t (Req_set k d) (cmd_set (Some t) (Some \<lparr>tag = T, input = Pair_input (Some (k @ [0])) (Ptr a 0)\<rparr>) w)"
proof -
  note key = key_arg [OF assms(2)]
  obtain rc t' w' where R: "table_set (Some t) (Some (k @ [0])) (Ptr a 0) (Some destroy_value_wrapper) w = Inr (rc, Some t', w')"
    "serves w' t'" "sys_fails w' = sys_fails w"
    "if stored w t k = None \<and> bucket_full t k then rc = - 2 \<and> t' = t \<and> w' = w
     else rc = 0 \<and> stored w' t' = (stored w t)(k \<mapsto> d) \<and> outside w' t' = (outside w t)(a := None)"
    using set_spec [OF assms(1) key(1) _ assms(3)] key(2,4) by auto
  then have "cmd_set (Some t) (Some \<lparr>tag = T, input = Pair_input (Some (k @ [0])) (Ptr a 0)\<rparr>) w =
      Inr (\<lparr>rtype = CMD_TYPE_SET, outp = Error_output rc\<rparr>, Some t', w')"
    by (simp add: cmd_set_def input_key_def input_value_def key)
  then show ?thesis
    by (rule handlesI [OF _ answers_done R(2)]) (use R(3,4) in \<open>auto simp: without_taken split: if_splits\<close>)
qed

lemma cmd_add_handles:
  assumes "serves w t" and "key_ok k" and "new_entry w t a d"
  shows "handles {a} w t (Req_add k d) (cmd_add (Some t) (Some \<lparr>tag = T, input = Pair_input (Some (k @ [0])) (Ptr a 0)\<rparr>) w)"
proof -
  note key = key_arg [OF assms(2)]
  obtain rc t' where R: "table_add (Some t) (Some (k @ [0])) (Ptr a 0) = Inr (rc, Some t')" "serves w t'"
    "if stored w t k \<noteq> None then rc = - 3 \<and> t' = t
     else if bucket_full t k then rc = - 2 \<and> t' = t
     else rc = 0 \<and> stored w t' = (stored w t)(k \<mapsto> d) \<and> outside w t' = (outside w t)(a := None)"
    using add_spec [OF assms(1) key(1) _ assms(3)] key(2,4) by auto
  then have "cmd_add (Some t) (Some \<lparr>tag = T, input = Pair_input (Some (k @ [0])) (Ptr a 0)\<rparr>) w =
      Inr (\<lparr>rtype = CMD_TYPE_ADD, outp = Error_output rc\<rparr>, Some t', w)"
    by (simp add: cmd_add_def input_key_def input_value_def key)
  then show ?thesis
    by (rule handlesI [OF _ answers_done R(2)]) (use R(3) in \<open>auto simp: without_taken split: if_splits\<close>)
qed

lemma cmd_replace_handles:
  assumes "serves w t" and "key_ok k" and "new_entry w t a d"
  shows "handles {a} w t (Req_replace k d) (cmd_replace (Some t) (Some \<lparr>tag = T, input = Pair_input (Some (k @ [0])) (Ptr a 0)\<rparr>) w)"
proof -
  note key = key_arg [OF assms(2)]
  obtain rc t' w' where R: "table_replace (Some t) (Some (k @ [0])) (Ptr a 0) (Some destroy_value_wrapper) w = Inr (rc, Some t', w')"
    "serves w' t'" "sys_fails w' = sys_fails w"
    "rc = 0 \<and> stored w t k \<noteq> None \<and> stored w' t' = (stored w t)(k \<mapsto> d) \<and> outside w' t' = (outside w t)(a := None) \<or>
     rc = - 2 \<and> t' = t \<and> w' = w \<and> stored w t k = None"
    using replace_spec [OF assms(1) key(1) assms(3)] key(2) by auto
  from R(4) show ?thesis
  proof (elim disjE)
    assume A: "rc = 0 \<and> stored w t k \<noteq> None \<and> stored w' t' = (stored w t)(k \<mapsto> d) \<and> outside w' t' = (outside w t)(a := None)"
    have "cmd_replace (Some t) (Some \<lparr>tag = T, input = Pair_input (Some (k @ [0])) (Ptr a 0)\<rparr>) w =
        Inr (\<lparr>rtype = CMD_TYPE_REPLACE, outp = Error_output 0\<rparr>, Some t', w')"
      using R(1) A by (simp add: cmd_replace_def input_key_def input_value_def key)
    then show ?thesis
      by (rule handlesI [OF _ answers_done R(2)]) (use R(3) A in \<open>auto simp: without_taken\<close>)
  next
    assume A: "rc = - 2 \<and> t' = t \<and> w' = w \<and> stored w t k = None"
    have "cmd_replace (Some t) (Some \<lparr>tag = T, input = Pair_input (Some (k @ [0])) (Ptr a 0)\<rparr>) w =
        Inr (error_result, Some t', w')"
      using R(1) A by (simp add: cmd_replace_def input_key_def input_value_def key)
    then show ?thesis
      by (rule handlesI [OF _ answers_error R(2)]) (use A in \<open>auto simp: error_result_def without_taken\<close>)
  qed
qed

lemma cmd_del_handles:
  assumes "serves w t" and "key_ok k"
  shows "handles {} w t (Req_del k) (cmd_del (Some t) (Some \<lparr>tag = T, input = Key_input (Some (k @ [0]))\<rparr>) w)"
proof -
  note key = key_arg [OF assms(2)]
  obtain rc t' w' where R: "table_delete (Some t) (Some (k @ [0])) (Some destroy_value_wrapper) w = Inr (rc, Some t', w')"
    "serves w' t'" "sys_fails w' = sys_fails w" "stored w' t' = (stored w t)(k := None)"
    "outside w' t' = outside w t" "if stored w t k = None then rc = - 1 \<and> t' = t \<and> w' = w else rc = 0"
    using delete_spec [OF assms(1) key(1)] key(2) by auto
  have run: "cmd_del (Some t) (Some \<lparr>tag = T, input = Key_input (Some (k @ [0]))\<rparr>) w =
      Inr (\<lparr>rtype = (if rc = 0 then CMD_TYPE_DEL else CMD_TYPE_ERROR), outp = Error_output rc\<rparr>, Some t', w')"
    using R(1) by (simp add: cmd_del_def input_key_def key)
  show ?thesis
  proof (cases "stored w t k = None")
    case True
    with run R(5,6) show ?thesis by (intro handlesI [OF _ answers_error R(2)]) auto
  next
    case False
    with R(6) have "rc = 0" by simp
    with run have "cmd_del (Some t) (Some \<lparr>tag = T, input = Key_input (Some (k @ [0]))\<rparr>) w =
      Inr (\<lparr>rtype = CMD_TYPE_DEL, outp = Error_output 0\<rparr>, Some t', w')" by simp
    then show ?thesis
      by (rule handlesI [OF _ answers_done R(2)]) (use R(3-5) False in auto)
  qed
qed

lemma cmd_exist_handles:
  assumes "serves w t" and "key_ok k"
  shows "handles {} w t (Req_exist k) (cmd_exist (Some t) (Some \<lparr>tag = T, input = Key_input (Some (k @ [0]))\<rparr>) w)"
proof -
  note key = key_arg [OF assms(2)]
  have "cmd_exist (Some t) (Some \<lparr>tag = T, input = Key_input (Some (k @ [0]))\<rparr>) w =
      Inr (\<lparr>rtype = CMD_TYPE_EXIST, outp = Exist_output (stored w t k \<noteq> None)\<rparr>, Some t, w)"
    using exist_spec [OF assms(1) key(1)] by (simp add: cmd_exist_def input_key_def key)
  then show ?thesis
    by (rule handlesI [OF _ answers_exist assms(1)]) auto
qed

lemma cmd_get_handles:
  assumes "serves w t" and "moderate (stored w t)" and "key_ok k"
  shows "handles {} w t (Req_get k) (cmd_get (Some t) (Some \<lparr>tag = T, input = Key_input (Some (k @ [0]))\<rparr>) w)"
proof -
  note key = key_arg [OF assms(3)]
  let ?r = "cmd_get (Some t) (Some \<lparr>tag = T, input = Key_input (Some (k @ [0]))\<rparr>) w"
  obtain p w' where R: "table_get (Some t) (Some (k @ [0])) (Some std_value_sizer) w = Inr (p, Some t, w')"
    "serves w' t" "stored w' t = stored w t" "sys_fails w = [] \<longrightarrow> sys_fails w' = []"
    "case stored w t k of
       None \<Rightarrow> p = NULL \<and> w' = w
     | Some d \<Rightarrow>
         p = NULL \<and> heap w' = heap w \<and> fst (malloc (of_nat (length (data_entry d))) w) = NULL \<or>
         p = Ptr (fresh w) 0 \<and> heap w' = (heap w)(fresh w \<mapsto> data_entry d)"
    using get_spec [OF assms(1) key(1)] key(2) by auto
  have "heap w (fresh w) = None" using assms(1) by (simp add: db_ok_def world_ok_fresh)
  with R(5) have keep: "outside w t \<subseteq>\<^sub>m outside w' t" by (intro outside_grows) (auto split: option.splits)
  show ?thesis
  proof (cases "p = NULL")
    case True
    have run: "?r = Inr (error_result\<lparr>rtype := CMD_TYPE_EMPTY\<rparr>, Some t, w')"
      using R(1) True by (simp add: cmd_get_def input_key_def key)
    have ans: "answers (error_result\<lparr>rtype := CMD_TYPE_EMPTY\<rparr>) w' 404 (lit_bytes TCP_KEY_NOT_FOUND)"
      by (rule answers_empty) simp
    have absent: "stored w t k = None" if "sys_fails w = []"
    proof (rule ccontr)
      assume "stored w t k \<noteq> None"
      then obtain d where d: "stored w t k = Some d" by blast
      then have "length d < 2 ^ 61" using assms(2) by (simp add: moderate_def)
      then have "unat (of_nat (length (data_entry d)) :: size_t) < 2 ^ 63"
        unfolding unat_of_nat by (intro le_less_trans [OF mod_less_eq_dividend]) simp
      from malloc_grants [OF that this] True R(5) d show False by simp
    qed
    show ?thesis unfolding handles_def
      using run ans R(2-4) absent keep by (intro exI conjI) (auto split: option.splits)
  next
    case False
    with R(5) obtain d where d: "stored w t k = Some d" "p = Ptr (fresh w) 0" "heap w' (fresh w) = Some (data_entry d)"
      by (auto split: option.splits)
    have run: "?r = Inr (\<lparr>rtype = CMD_TYPE_GET, outp = Get_output (Ptr (fresh w) 0)\<rparr>, Some t, w')"
      using R(1) d(2) by (simp add: cmd_get_def input_key_def key)
    have "length d < 2 ^ 61" "world_ok w'" using assms(2) d(1) R(2) by (simp_all add: moderate_def db_ok_def)
    from run answers_get [OF this(2) d(3) this(1)] R(2) show ?thesis
      by (rule handlesI) (use R(3,4) d(1) keep in auto)
  qed
qed

section \<open>The commands\<close>

interpretation set_cmd: pair_command 9 "''SET''" CMD_TYPE_SET cmd_set "''w''" Req_set
  by unfold_locales (auto simp: command_slots lit_bytes_def build_command_data_def request_ok_def intro: cmd_set_handles)

interpretation add_cmd: pair_command 0 "''ADD''" CMD_TYPE_ADD cmd_add "''w''" Req_add
  by unfold_locales (auto simp: command_slots lit_bytes_def build_command_data_def request_ok_def intro: cmd_add_handles)

interpretation replace_cmd: pair_command 7 "''REPLACE''" CMD_TYPE_REPLACE cmd_replace "''w''" Req_replace
  by unfold_locales (auto simp: command_slots lit_bytes_def build_command_data_def request_ok_def intro: cmd_replace_handles)

interpretation get_cmd: key_command 5 "''GET''" CMD_TYPE_GET cmd_get "''ra''" Req_get
  by unfold_locales (auto simp: command_slots lit_bytes_def build_command_data_def request_ok_def intro: cmd_get_handles)

interpretation del_cmd: key_command 3 "''DEL''" CMD_TYPE_DEL cmd_del "''w''" Req_del
  by unfold_locales (auto simp: command_slots lit_bytes_def build_command_data_def request_ok_def intro: cmd_del_handles)

interpretation exist_cmd: key_command 4 "''EXIST''" CMD_TYPE_EXIST cmd_exist "''r''" Req_exist
  by unfold_locales (auto simp: command_slots lit_bytes_def build_command_data_def request_ok_def intro: cmd_exist_handles)

lemma execute_clear:
  assumes ctx: "serving w ctx t"
  shows "meets w ctx Req_clear (execute Req_clear ctx w)"
proof -
  have srv: "serves w t" using serving_simps [OF ctx] by simp
  obtain t' w' where R: "table_clear (Some t) (Some destroy_value_wrapper) w = Inr (0, Some t', w')"
    "serves w' t'" "stored w' t' = Map.empty" "sys_fails w' = sys_fails w" "outside w' t' = outside w t"
    using clear_spec [OF srv] by auto
  let ?d = "\<lparr>tag = CMD_TYPE_CLEAR, input = Zero_input\<rparr>"
  have run: "cmd_clear (Some t) (Some ?d) w = Inr (\<lparr>rtype = CMD_TYPE_CLEAR, outp = Error_output 0\<rparr>, Some t', w')"
    using R(1) by (simp add: cmd_clear_def)
  then have h: "handles {} w t Req_clear (cmd_clear (Some t) (Some ?d) w)"
    by (rule handlesI [OF _ answers_done R(2)]) (use R(3-5) in auto)
  have slot: "1 < length command_table" by (simp add: command_table_def)
  have ok: "request_ok Req_clear" by (simp add: request_ok_def)
  show ?thesis
    by (rule handled_meets [where proc = cmd_clear, OF ctx ok _ _ _ h], simp, simp, simp, unfold execute_def call.simps prod.case,
        intro run_command [OF ctx slot])
      (simp_all add: command_slots lit_bytes_def build_command_data_def del: One_nat_def)
qed

lemma every_request_meets:
  assumes "ctx_ok w ctx" and "request_ok r"
  shows "meets w ctx r (execute r ctx w)"
proof -
  from assms(1) obtain t where ctx: "serving w ctx t" by (auto simp: ctx_ok_def)
  show ?thesis
    using assms(2) get_cmd.execute_meets [OF ctx] set_cmd.execute_meets [OF ctx] add_cmd.execute_meets [OF ctx]
      del_cmd.execute_meets [OF ctx] exist_cmd.execute_meets [OF ctx] replace_cmd.execute_meets [OF ctx]
      execute_clear [OF ctx]
    by (cases r) simp_all
qed

end
