(* ===== verification/Kv_Server.thy ===== *)
theory Kv_Server
  imports Command_Steps Samples
begin

text \<open>
  Runs of requests. The locale is the interface of a key-value server: a state with an invariant, the map
  it stands for, and the law of one request. Its lemmas are about sequences of requests; the
  interpretation is the server's context together with the memory.
\<close>

section \<open>Sequences of requests\<close>

type_synonym answer = "int \<times> byte list"

primrec serve_all :: "(request \<Rightarrow> 's \<Rightarrow> fault + (answer \<times> 's)) \<Rightarrow> request list \<Rightarrow> 's \<Rightarrow> fault + (answer list \<times> 's)" where
  "serve_all ex [] s = Inr ([], s)"
| "serve_all ex (r # rs) s =
     bindE (ex r s) (\<lambda>(a, s'). bindE (serve_all ex rs s') (\<lambda>(as, s''). Inr (a # as, s'')))"

text \<open>The same requests on a map that never runs out of room.\<close>

primrec kv_run :: "request list \<Rightarrow> store_map \<Rightarrow> answer list \<times> store_map" where
  "kv_run [] m = ([], m)"
| "kv_run (r # rs) m =
     (case kv_answer False r m of (st, msg, m') \<Rightarrow>
      case kv_run rs m' of (as, m'') \<Rightarrow> ((st, msg) # as, m''))"

fun stores :: "request \<Rightarrow> bool" where
  "stores (Req_set k d) = True"
| "stores (Req_add k d) = True"
| "stores r = False"

fun writes :: "request \<Rightarrow> byte list \<Rightarrow> bool" where
  "writes (Req_set k d) k' = (k = k')"
| "writes (Req_add k d) k' = (k = k')"
| "writes (Req_del k) k' = (k = k')"
| "writes (Req_replace k d) k' = (k = k')"
| "writes Req_clear k' = True"
| "writes r k' = False"

lemma kv_answer_untouched: "\<not> writes r k \<Longrightarrow> snd (snd (kv_answer full r m)) k = m k"
  by (cases r) (auto split: option.splits)

lemma kv_answer_full: "full \<longrightarrow> \<not> stores r \<Longrightarrow> kv_answer full r m = kv_answer False r m"
  by (cases r) (auto split: option.splits)

lemma kv_answer_dom: "dom (snd (snd (kv_answer full r m))) \<subseteq> dom m \<union> (if stores r then {request_key r} else {})"
  by (cases r) (auto split: option.splits if_splits)

lemma kv_answer_card:
  assumes "finite (dom m)"
  shows "card (dom (snd (snd (kv_answer full r m)))) \<le> card (dom m) + (if stores r then 1 else 0)"
proof -
  have "card (dom (snd (snd (kv_answer full r m)))) \<le> card (dom m \<union> (if stores r then {request_key r} else {}))"
    using assms by (intro card_mono kv_answer_dom) simp
  also have "\<dots> \<le> card (dom m) + card (if stores r then {request_key r} else {})" by (rule card_Un_le)
  finally show ?thesis by (simp split: if_splits)
qed

section \<open>The interface\<close>

locale kv_server =
  fixes ok :: "'s \<Rightarrow> bool" and quiet :: "'s \<Rightarrow> bool" and kv :: "'s \<Rightarrow> store_map"
    and full :: "'s \<Rightarrow> request \<Rightarrow> bool" and ex :: "request \<Rightarrow> 's \<Rightarrow> fault + (answer \<times> 's)"
  assumes step: "ok s \<Longrightarrow> request_ok r \<Longrightarrow> \<exists>st msg s'. ex r s = Inr ((st, msg), s') \<and> ok s' \<and>
      (kv s' = kv s \<or> kv s' = snd (snd (kv_answer (full s r) r (kv s)))) \<and>
      (st = 200 \<longrightarrow> agreed (full s r) r (kv s) (kv s')) \<and>
      (quiet s \<longrightarrow> quiet s' \<and> (st, msg, kv s') = kv_answer (full s r) r (kv s))"
    and finite_kv: "ok s \<Longrightarrow> finite (dom (kv s))"
    and full_card: "ok s \<Longrightarrow> full s r \<Longrightarrow> 8 \<le> card (dom (kv s))"
begin

lemma step_cases:
  assumes "ok s" and "request_ok r"
  obtains st msg s' where "ex r s = Inr ((st, msg), s')" "ok s'"
    "kv s' = kv s \<or> kv s' = snd (snd (kv_answer (full s r) r (kv s)))"
    "st = 200 \<Longrightarrow> agreed (full s r) r (kv s) (kv s')"
    "quiet s \<Longrightarrow> quiet s'" "quiet s \<Longrightarrow> (st, msg, kv s') = kv_answer (full s r) r (kv s)"
  using step [OF assms] by blast

lemma runs:
  assumes "ok s" and "\<forall>r \<in> set rs. request_ok r"
  shows "\<exists>as s'. serve_all ex rs s = Inr (as, s') \<and> ok s' \<and> length as = length rs \<and> (quiet s \<longrightarrow> quiet s') \<and>
    (\<forall>k. (\<forall>r \<in> set rs. \<not> writes r k) \<longrightarrow> kv s' k = kv s k)"
  using assms
proof (induction rs arbitrary: s)
  case (Cons r rs)
  then have "ok s" "request_ok r" by simp_all
  then show ?case
  proof (cases rule: step_cases)
    case (1 st msg s1)
    have "\<forall>r \<in> set rs. request_ok r" using Cons.prems(2) by simp
    from Cons.IH [OF 1(2) this] obtain as s2 where 2: "serve_all ex rs s1 = Inr (as, s2)" "ok s2"
      "length as = length rs" "quiet s1 \<longrightarrow> quiet s2"
      "\<forall>k. (\<forall>r \<in> set rs. \<not> writes r k) \<longrightarrow> kv s2 k = kv s1 k" by blast
    have "kv s1 k = kv s k" if "\<not> writes r k" for k using 1(3) kv_answer_untouched [OF that] by auto
    then have "\<forall>k. (\<forall>r \<in> set (r # rs). \<not> writes r k) \<longrightarrow> kv s2 k = kv s k" using 2(5) by simp
    moreover have "serve_all ex (r # rs) s = Inr ((st, msg) # as, s2)" using 1(1) 2(1) by simp
    moreover have "quiet s \<longrightarrow> quiet s2" using 1(5) 2(4) by blast
    ultimately show ?thesis using 2(2,3) by (intro exI [of _ "(st, msg) # as"] exI [of _ s2]) simp
  qed
qed simp

lemma refines:
  assumes "ok s" and "quiet s" and "\<forall>r \<in> set rs. request_ok r"
    and "card (dom (kv s)) + length (filter stores rs) \<le> 8"
  shows "\<exists>as s'. serve_all ex rs s = Inr (as, s') \<and> ok s' \<and> quiet s' \<and> (as, kv s') = kv_run rs (kv s)"
  using assms
proof (induction rs arbitrary: s)
  case (Cons r rs)
  then have s: "ok s" "request_ok r" by simp_all
  then show ?case
  proof (cases rule: step_cases)
    case (1 st msg s1)
    have "full s r \<longrightarrow> \<not> stores r" using full_card [OF s(1), of r] Cons.prems(4) by (intro impI notI) simp
    then have ans: "(st, msg, kv s1) = kv_answer False r (kv s)"
      using 1(6) [OF Cons.prems(2)] kv_answer_full [of "full s r" r "kv s"] by simp
    then have "kv s1 = snd (snd (kv_answer False r (kv s)))" by (metis snd_conv)
    then have "card (dom (kv s1)) + length (filter stores rs) \<le> 8"
      using kv_answer_card [OF finite_kv [OF s(1)], of False r] Cons.prems(4) by (simp split: if_splits)
    moreover have "\<forall>r \<in> set rs. request_ok r" using Cons.prems(3) by simp
    ultimately obtain as s2 where
      2: "serve_all ex rs s1 = Inr (as, s2)" "ok s2" "quiet s2" "(as, kv s2) = kv_run rs (kv s1)"
      using Cons.IH [OF 1(2) 1(5) [OF Cons.prems(2)]] by blast
    have "serve_all ex (r # rs) s = Inr ((st, msg) # as, s2)" using 1(1) 2(1) by simp
    moreover have "kv_run (r # rs) (kv s) = ((st, msg) # as, kv s2)"
      by (simp add: ans [symmetric] 2(4) [symmetric])
    ultimately show ?thesis using 2(2,3) by (intro exI [of _ "(st, msg) # as"] exI [of _ s2]) simp
  qed
qed simp

text \<open>
  A write that was acknowledged stays: after any requests that do not write its key, in whatever way
  memory ran out in between, the data is still stored.
\<close>

lemma acknowledged:
  assumes "ok s" and "request_ok (Req_set k d)" and "\<forall>r \<in> set rs. request_ok r \<and> \<not> writes r k"
    and "ex (Req_set k d) s = Inr ((200, msg), s1)"
  shows "\<exists>as s2. serve_all ex rs s1 = Inr (as, s2) \<and> ok s2 \<and> kv s2 k = Some d"
  using assms(1,2)
proof (cases rule: step_cases)
  case (1 st msg' s')
  with assms(4) have s1: "ok s1" "agreed (full s (Req_set k d)) (Req_set k d) (kv s) (kv s1)" by auto
  then have "kv s1 k = Some d" by (auto simp: agreed_def split: if_splits)
  with s1(1) runs [of s1 rs] assms(3) show ?thesis by auto
qed

end

section \<open>The server\<close>

type_synonym server = "server_context \<times> world"

definition serve :: "request \<Rightarrow> server \<Rightarrow> fault + (answer \<times> server)" where
  "serve r s = bindE (execute r (fst s) (snd s)) (\<lambda>(x, ctx, w). Inr ((status_code x, reply_bytes w x), (ctx, w)))"

definition server_ok :: "server \<Rightarrow> bool" where
  "server_ok s \<longleftrightarrow> ctx_ok (snd s) (fst s)"

definition server_quiet :: "server \<Rightarrow> bool" where
  "server_quiet s \<longleftrightarrow> sys_fails (snd s) = []"

definition server_kv :: "server \<Rightarrow> store_map" where
  "server_kv s = view (snd s) (fst s)"

definition server_full :: "server \<Rightarrow> request \<Rightarrow> bool" where
  "server_full s r = request_full (fst s) r"

lemmas server_defs = server_ok_def server_quiet_def server_kv_def server_full_def

interpretation srv: kv_server server_ok server_quiet server_kv server_full serve
proof
  fix s r assume "server_ok s" "request_ok r"
  then have "meets (snd s) (fst s) r (execute r (fst s) (snd s))" by (simp add: every_request_meets server_ok_def)
  then show "\<exists>st msg s'. serve r s = Inr ((st, msg), s') \<and> server_ok s' \<and>
      (server_kv s' = server_kv s \<or> server_kv s' = snd (snd (kv_answer (server_full s r) r (server_kv s)))) \<and>
      (st = 200 \<longrightarrow> agreed (server_full s r) r (server_kv s) (server_kv s')) \<and>
      (server_quiet s \<longrightarrow> server_quiet s' \<and> (st, msg, server_kv s') = kv_answer (server_full s r) r (server_kv s))"
    by (force simp: meets_def serve_def server_defs)
next
  fix s assume "server_ok s"
  then obtain t where "serving (snd s) (fst s) t" by (auto simp: server_ok_def ctx_ok_def)
  note t = serving_simps [OF this]
  show "finite (dom (server_kv s))" using finite_stored [OF t(2)] by (simp add: server_kv_def t(5))
  fix r assume "server_full s r"
  then show "8 \<le> card (dom (server_kv s))"
    using bucket_full_card [OF t(2)] by (simp add: server_kv_def server_full_def t(5,6))
qed

end
