(* ===== verification/Serving.thy ===== *)
theory Serving
  imports Kv_Server
begin

text \<open>
  The properties of the command layer, src/src/command.c: every request is answered as the map of the
  specification says, over whole runs, and what is answered when memory runs out or a request is malformed.
\<close>

section \<open>A server for the witnesses\<close>

definition registry0 :: command_registry where
  "registry0 = \<lparr>reg_ptr = Ptr 5 0, commands = command_table, reg_count = of_nat (length command_table)\<rparr>"

definition ctx0 :: server_context where
  "ctx0 = \<lparr>reg = Some registry0, database = Some table0\<rparr>"

definition ctx1 :: server_context where
  "ctx1 = \<lparr>reg = Some registry0, database = Some table1\<rparr>"

lemma std_registry0: "std_registry registry0"
  by (simp add: std_registry_def registry0_def)

lemma serving0: "serving world0 ctx0 table0"
  using db0 stored0 std_registry0 by (simp add: serving_def ctx0_def moderate_def)

lemma serving1: "serving world1 ctx1 table1"
  using db2 std_registry0 by (simp add: serving_def ctx1_def moderate_def data_x_def)

lemma ctx_ok_01: "ctx_ok world0 ctx0" "ctx_ok world1 ctx1"
  using serving0 serving1 by (auto simp: ctx_ok_def)

lemma view_01: "view world0 ctx0 = Map.empty" "view world1 ctx1 = [[97] \<mapsto> data_x]"
  using serving_simps(5) [OF serving0] serving_simps(5) [OF serving1] stored0 db2(3) by simp_all

lemma not_full0: "\<not> bucket_full table0 k"
  using free_slot0 free_slot_full [of table0 k] by simp

lemma quiet_01 [simp]: "sys_fails world0 = []" "sys_fails world1 = []"
  by (simp_all add: world1_def world0_def)

section \<open>The dispatcher\<close>

text \<open>C24. \<open>find_command_index\<close>, a binary search over the registry of \<open>registry_create\<close>, returns the
  position of the command with the given name, and -1 exactly when no command has it.\<close>

theorem find_command_index_correct:
  assumes "std_registry g" and "terminated key"
  shows "find_command_index (Some g) (Some key) =
    Inr (case find (\<lambda>i. cstr (name (command_table ! i)) = cstr key) [0..<10] of Some i \<Rightarrow> int i | None \<Rightarrow> - 1)"
  using assms
proof (cases rule: find_command_spec)
  case (found i)
  let ?P = "\<lambda>i. cstr (name (command_table ! i)) = cstr key"
  have "find ?P [0..<10] \<noteq> None" using found(1,2) by (auto simp: find_None_iff)
  then obtain j where j: "find ?P [0..<10] = Some j" by blast
  then have "j < 10" "?P j" by (auto simp: find_Some_iff)
  with found(1,2) have "j = i" by (intro command_index_unique) simp_all
  with found(3) j show ?thesis by simp
next
  case missing
  have "cstr (name (command_table ! i)) \<noteq> cstr key" if "i < 10" for i
  proof -
    have "cstr (name (command_table ! i)) \<in> set command_names" using that by (simp add: command_names_def)
    with missing(1) show ?thesis by metis
  qed
  then have "find (\<lambda>i. cstr (name (command_table ! i)) = cstr key) [0..<10] = None"
    by (auto simp: find_None_iff)
  with missing(2) show ?thesis by simp
qed

theorem find_command_index_correct_witness:
  "find_command_index (Some registry0) (Some (literal ''GET'')) = Inr 5 \<and>
   find_command_index (Some registry0) (Some (literal ''get'')) = Inr (- 1)"
  using find_command_index_correct [OF std_registry0 literal_simps(1), of "''GET''"]
    find_command_index_correct [OF std_registry0 literal_simps(1), of "''get''"]
  by (simp add: upt_rec command_table_def literal_def lit_bytes_def)

section \<open>Refinement of the map\<close>

text \<open>C1. \<open>execute_command\<close> refines one step of the map for every GET, SET, ADD, DEL, EXIST, REPLACE and
  CLEAR with a key of 1 to 254 bytes: it returns, the server stays well-formed, every block the database does not
  own stays as it is, and the map becomes what the specification says with the specified status and text; if an allocation is refused the map may stay as it
  was, and a status of 200 still means that the request was accepted and carried out.\<close>

theorem execute_command_refines:
  assumes "ctx_ok w ctx" and "request_ok r"
  shows "\<exists>x ctx' w'. execute r ctx w = Inr (x, ctx', w') \<and> ctx_ok w' ctx' \<and>
    beside w ctx \<subseteq>\<^sub>m beside w' ctx' \<and>
    (let spec = kv_answer (request_full ctx r) r (view w ctx) in
       (view w' ctx' = view w ctx \<or> view w' ctx' = snd (snd spec)) \<and>
       (status_code x = 200 \<longrightarrow> fst spec = 200 \<and> view w' ctx' = snd (snd spec)) \<and>
       (sys_fails w = [] \<longrightarrow> sys_fails w' = [] \<and> (status_code x, reply_bytes w' x, view w' ctx') = spec))"
  using every_request_meets [OF assms] unfolding meets_def agreed_def Let_def by blast

theorem execute_command_refines_witness:
  "\<exists>x ctx' w'. execute (Req_set [97] data_x) ctx0 world0 = Inr (x, ctx', w') \<and> ctx_ok w' ctx' \<and>
     status_code x = 200 \<and> reply_bytes w' x = lit_bytes ''OK'' \<and> view w' ctx' = [[97] \<mapsto> data_x]"
proof -
  have "request_ok (Req_set [97] data_x)" by (simp add: request_ok_def key_ok_def data_x_def)
  moreover have "\<not> request_full ctx0 (Req_set [97] data_x)" by (simp add: request_full_def ctx0_def not_full0)
  ultimately show ?thesis
    using execute_command_refines [OF ctx_ok_01(1), of "Req_set [97] data_x"] view_01(1)
    by (auto simp: Let_def TCP_SUCCESS_def)
qed

text \<open>C2. Runs refine the map: from a server with \<open>n\<close> keys any requests with at most \<open>8 - n\<close> SET and ADD
  among them are answered, one by one, exactly as by the map that never runs out of room (a bucket holds
  eight keys, so none can fill up), as long as no allocation is refused.\<close>

theorem runs_refine_map:
  assumes "server_ok s" and "server_quiet s" and "\<forall>r \<in> set rs. request_ok r"
    and "card (dom (server_kv s)) + length (filter stores rs) \<le> 8"
  shows "\<exists>as s'. serve_all serve rs s = Inr (as, s') \<and> server_ok s' \<and> server_quiet s' \<and>
    (as, server_kv s') = kv_run rs (server_kv s)"
  using assms by (rule srv.refines)

theorem runs_refine_map_witness:
  "\<exists>s'. serve_all serve [Req_get [97], Req_add [97] [1], Req_add [98] [2], Req_del [97], Req_exist [97]] (ctx1, world1) =
     Inr ([(200, data_x), (409, lit_bytes TCP_OPERATION_FAILED), (200, lit_bytes TCP_SUCCESS),
           (200, lit_bytes TCP_SUCCESS), (200, lit_bytes TCP_FALSE)], s') \<and> server_kv s' = [[98] \<mapsto> [2]]"
proof -
  let ?rs = "[Req_get [97], Req_add [97] [1], Req_add [98] [2], Req_del [97], Req_exist [97]]"
  have kv: "server_kv (ctx1, world1) = [[97] \<mapsto> data_x]" by (simp add: server_kv_def view_01(2))
  have run: "kv_run ?rs [[97] \<mapsto> data_x] = ([(200, data_x), (409, lit_bytes TCP_OPERATION_FAILED),
      (200, lit_bytes TCP_SUCCESS), (200, lit_bytes TCP_SUCCESS), (200, lit_bytes TCP_FALSE)], [[98] \<mapsto> [2]])"
    by (simp add: fun_eq_iff)
  have "\<exists>as s'. serve_all serve ?rs (ctx1, world1) = Inr (as, s') \<and> server_ok s' \<and> server_quiet s' \<and>
      (as, server_kv s') = kv_run ?rs (server_kv (ctx1, world1))"
    by (rule runs_refine_map)
      (simp_all add: kv server_ok_def server_quiet_def ctx_ok_01 request_ok_def key_ok_def)
  then show ?thesis unfolding kv run by auto
qed

text \<open>C7. An acknowledged SET is durable: once it is answered with 200, its data is still stored after any
  requests that do not write its key, whichever allocations are refused before, during or after it.\<close>

theorem acknowledged_set_durable:
  assumes "server_ok s" and "request_ok (Req_set k d)" and "\<forall>r \<in> set rs. request_ok r \<and> \<not> writes r k"
    and "serve (Req_set k d) s = Inr ((200, msg), s1)"
  shows "\<exists>as s2. serve_all serve rs s1 = Inr (as, s2) \<and> server_ok s2 \<and> server_kv s2 k = Some d"
  using assms by (rule srv.acknowledged)

theorem acknowledged_set_durable_witness:
  "\<exists>s1 as s2. serve (Req_set [97] data_x) (ctx0, world0) = Inr ((200, lit_bytes TCP_SUCCESS), s1) \<and>
     serve_all serve [Req_set [98] [], Req_get [97]] s1 = Inr (as, s2) \<and> server_kv s2 [97] = Some data_x"
proof -
  have ok: "request_ok (Req_set [97] data_x)" by (simp add: request_ok_def key_ok_def data_x_def)
  moreover have "\<not> request_full ctx0 (Req_set [97] data_x)" by (simp add: request_full_def ctx0_def not_full0)
  ultimately obtain s1 where s1: "serve (Req_set [97] data_x) (ctx0, world0) = Inr ((200, lit_bytes TCP_SUCCESS), s1)"
    using every_request_meets [OF ctx_ok_01(1) ok] by (auto simp: serve_def meets_def)
  have "server_ok (ctx0, world0)" by (simp add: server_ok_def ctx_ok_01)
  from acknowledged_set_durable [OF this ok _ s1, of "[Req_set [98] [], Req_get [97]]"] s1 show ?thesis
    by (auto simp: request_ok_def key_ok_def)
qed

section \<open>Malformed requests\<close>

lemma error_reply:
  assumes "ctx_ok w ctx" and "0 \<notin> set (lit_bytes msg)" and "length msg < 2 ^ 62"
  shows "\<exists>x w'. bindE (create_error_response st msg w) (\<lambda>(r, w'). Inr (r, ctx, w')) = Inr (x, ctx, w') \<and>
    ctx_ok w' ctx \<and> view w' ctx = view w ctx \<and> status_code x \<in> {st, 500} \<and>
    (sys_fails w = [] \<longrightarrow> status_code x = st \<and> reply_bytes w' x = lit_bytes msg)"
proof -
  from assms(1) obtain t where t: "serving w ctx t" by (auto simp: ctx_ok_def)
  note simps = serving_simps [OF t]
  obtain x w' where x: "create_error_response st msg w = Inr (x, w')" "replies w w' x"
    "sys_fails w = [] \<Longrightarrow> sends w w' x st (lit_bytes msg)" "status_code x \<in> {st, 500}"
    using error_response_replies [OF assms(2,3), of st w] by blast
  have db': "db w' t" "stored w' t = stored w t" using replies_db [OF simps(2) x(2)] by simp_all
  then have t': "serving w' ctx t" using t by (simp add: serving_def)
  then have "ctx_ok w' ctx" "view w' ctx = view w ctx"
    using serving_simps(5) [OF t'] simps(5) db'(2) by (auto simp: ctx_ok_def)
  with x sends_bytes [OF x(3)] show ?thesis by (auto simp: sends_def)
qed

text \<open>C25. A name that is not in the registry is answered with 404 and changes nothing.\<close>

theorem unknown_command_refused:
  assumes "ctx_ok w ctx" and "terminated key" and "cstr key \<notin> set command_names"
  shows "\<exists>x w'. execute_command ctx (Some key) argc argv lens w = Inr (x, ctx, w') \<and>
    ctx_ok w' ctx \<and> view w' ctx = view w ctx \<and> status_code x \<in> {404, 500} \<and>
    (sys_fails w = [] \<longrightarrow> status_code x = 404 \<and> reply_bytes w' x = lit_bytes ''Command not found'')"
proof -
  from assms(1) obtain g where g: "reg ctx = Some g" "std_registry g" by (auto simp: ctx_ok_def serving_def)
  have "find_command_index (Some g) (Some key) = Inr (- 1)"
    using g(2) assms(2)
  proof (cases rule: find_command_spec)
    case (found i)
    then have "cstr key \<in> set command_names" by (metis command_names_def length_map nth_map nth_mem)
    with assms(3) show ?thesis by contradiction
  qed
  then have "execute_command ctx (Some key) argc argv lens w =
      bindE (create_error_response 404 ''Command not found'' w) (\<lambda>(r, w'). Inr (r, ctx, w'))"
    using g(1) by (simp add: execute_command_def)
  then show ?thesis using error_reply [OF assms(1) messages(9), of 404] by simp
qed

theorem unknown_command_refused_witness:
  "\<exists>x w'. execute_command ctx1 (Some (literal ''get'')) 1 [key_a] [1] world1 = Inr (x, ctx1, w') \<and>
     status_code x = 404 \<and> view w' ctx1 = [[97] \<mapsto> data_x]"
proof -
  have "cstr (literal ''get'') \<notin> set command_names" by (simp add: command_names_eq literal_def lit_bytes_def)
  from unknown_command_refused [OF ctx_ok_01(2) literal_simps(1) this, of 1 "[key_a]" "[1]"] view_01(2)
  show ?thesis by auto
qed

text \<open>C26. A known command with the wrong number of arguments is answered with 400 before any argument is
  looked at, and changes nothing.\<close>

theorem wrong_arity_refused:
  assumes "ctx_ok w ctx" and "terminated key" and "i < length command_table"
    and "cstr (name (command_table ! i)) = cstr key" and "arity (command_table ! i) \<noteq> argc"
  shows "\<exists>x w'. execute_command ctx (Some key) argc argv lens w = Inr (x, ctx, w') \<and>
    ctx_ok w' ctx \<and> view w' ctx = view w ctx \<and> status_code x \<in> {400, 500} \<and>
    (sys_fails w = [] \<longrightarrow> status_code x = 400 \<and> reply_bytes w' x = lit_bytes ''Incorrect number of arguments'')"
proof -
  from assms(1) obtain g where g: "reg ctx = Some g" "std_registry g" by (auto simp: ctx_ok_def serving_def)
  have "execute_command ctx (Some key) argc argv lens w =
      bindE (create_error_response 400 ''Incorrect number of arguments'' w) (\<lambda>(r, w'). Inr (r, ctx, w'))"
    using dispatch [OF g assms(2-4)] assms(5) by simp
  then show ?thesis using error_reply [OF assms(1) messages(10), of 400] by simp
qed

theorem wrong_arity_refused_witness:
  "\<exists>x w'. execute_command ctx1 (Some (literal ''SET'')) 1 [] [] world1 = Inr (x, ctx1, w') \<and>
     status_code x = 400 \<and> view w' ctx1 = [[97] \<mapsto> data_x]"
proof -
  have "cstr (name (command_table ! 9)) = cstr (literal ''SET'')" "arity (command_table ! 9) \<noteq> 1"
    by (simp_all add: command_slots)
  from wrong_arity_refused [OF ctx_ok_01(2) literal_simps(1) _ this, of "[]" "[]"] view_01(2)
  show ?thesis by auto
qed

section \<open>Memory\<close>

lemma free_reply:
  assumes "world_ok w" and "sends w w' x st msg"
  shows "free (body x) w' = Inr (w'\<lparr>heap := heap w\<rparr>)"
proof -
  obtain pad where "heap w' = (heap w)(fresh w \<mapsto> msg @ pad)" "body x = Ptr (fresh w) 0"
    using assms(2) by (auto simp: sends_def)
  moreover have "heap w (fresh w) = None" using assms(1) unfolding world_ok_def by blast
  then have "(heap w)(fresh w := None) = heap w" by (simp add: fun_upd_idem)
  ultimately show ?thesis by (simp add: free_def)
qed

text \<open>C40. GET leaks: of the two blocks allocated for a key that is present, the copy of the entry made by
  \<open>table_get\<close> and the reply, only the reply is ever freed; after it the memory is as before the request
  plus that copy, to which nothing points any more.\<close>

theorem get_leaks_copy:
  assumes "ctx_ok w ctx" and "key_ok k" and "view w ctx k = Some d" and "sys_fails w = []"
  shows "\<exists>x w' w''. execute (Req_get k) ctx w = Inr (x, ctx, w') \<and>
    free_execute_result (Some x) w' = Inr (Some (x\<lparr>body := NULL, body_length := 0\<rparr>), w'') \<and>
    heap w'' = (heap w)(fresh w \<mapsto> data_entry d)"
proof -
  from assms(1) obtain t where t: "serving w ctx t" by (auto simp: ctx_ok_def)
  note simps = serving_simps [OF t] and key = key_arg [OF assms(2)]
  have d: "stored w t k = Some d" "length d < 2 ^ 61"
    using assms(3) simps(4,5) by (auto simp: moderate_def)
  have "unat (of_nat (length (data_entry d)) :: size_t) < 2 ^ 63"
    unfolding unat_of_nat using d(2) by (intro le_less_trans [OF mod_less_eq_dividend]) simp
  from malloc_grants [OF assms(4) this] get_spec [of w t "k @ [0]"] simps(2,3) key(1,2) d(1) obtain w1 where
    get: "table_get (Some t) (Some (k @ [0])) (Some std_value_sizer) w = Inr (Ptr (fresh w) 0, Some t, w1)"
    "serves w1 t" "sys_fails w1 = []" "heap w1 = (heap w)(fresh w \<mapsto> data_entry d)"
    using assms(4) by auto
  have w1: "world_ok w1" using get(2) by (simp add: db_ok_def)
  let ?r = "\<lparr>rtype = CMD_TYPE_GET, outp = Get_output (Ptr (fresh w) 0)\<rparr>"
  obtain x w' where x: "respond ?r w1 = Inr (x, w')" "sends w1 w' x 200 d"
    using answers_get [OF w1 _ d(2), of "fresh w"] get(3,4) by (auto simp: answers_def)
  let ?d = "\<lparr>tag = CMD_TYPE_GET, input = Key_input (Some (k @ [0]))\<rparr>"
  have "cmd_get (Some t) (Some ?d) w = Inr (?r, Some t, w1)" using get(1) key by (simp add: cmd_get_def input_key_def)
  then have "execute (Req_get k) ctx w = bindE (respond ?r w1) (\<lambda>(x, w3). Inr (x, ctx\<lparr>database := Some t\<rparr>, w3))"
    unfolding execute_def call.simps prod.case
    by (intro run_command [OF t get_cmd.slot(1), where d = ?d])
      (use key in \<open>simp_all add: command_slots lit_bytes_def build_command_data_def build_key_def arg_def\<close>)
  moreover have "ctx\<lparr>database := Some t\<rparr> = ctx" using simps(1) by simp
  ultimately show ?thesis
    using x(1) free_reply [OF w1 x(2)] get(4) by (simp add: free_execute_result_def)
qed

theorem get_leaks_copy_witness:
  "\<exists>x w' w''. execute (Req_get [97]) ctx1 world1 = Inr (x, ctx1, w') \<and>
     free_execute_result (Some x) w' = Inr (Some (x\<lparr>body := NULL, body_length := 0\<rparr>), w'') \<and>
     heap w'' = (heap world1)(4 \<mapsto> data_entry data_x)"
proof -
  have "fresh world1 = 4" by (simp add: world1_def)
  then show ?thesis
    using get_leaks_copy [OF ctx_ok_01(2), of "[97]" data_x] view_01(2) by (simp add: key_ok_def)
qed

end
