(* ===== verification/Counters.thy ===== *)
theory Counters
  imports Serving
begin

text \<open>
  The commands that report numbers, COUNT and LOADFACTOR, and RESIZE, which takes one: what the text of the
  reply says about the database, and how the numbers survive printing and parsing.
\<close>

section \<open>Printing and parsing\<close>

lemma strtoul_fmt_zu: "strtoul (fmt_zu n @ [0]) = Inr (n, length (fmt_zu n))"
proof -
  obtain c s where cs: "fmt_zu n = c # s" by (cases "fmt_zu n") (simp_all add: fmt_zu_def nat_digits.simps [of "unat n"] split: if_splits)
  have dig: "\<forall>x \<in> set (fmt_zu n). is_digit x" using nat_digits_are_digits by (auto simp: fmt_zu_def)
  then have "is_digit c" by (simp add: cs)
  then have c: "\<not> isspace c" "c \<noteq> 43" "c \<noteq> 45"
    by (auto simp: is_digit_def isspace_def word_le_nat_alt dest: arg_cong [of _ _ unat])
  have zero: "\<not> is_digit 0" by (simp add: is_digit_def)
  then have split: "takeWhile is_digit (c # s @ [0]) = c # s" "dropWhile is_digit (c # s @ [0]) = [0]"
    using dig by (simp_all add: cs)
  have "dropWhile isspace (c # s @ [0]) = c # s @ [0]" using c by simp
  moreover have "digits_value (fmt_zu n) 0 = unat n" by (simp add: fmt_zu_def nat_digits_value)
  moreover have "unat n < 2 ^ 64" by (rule unat_size_t_less)
  ultimately show ?thesis using split c zero
    by (simp add: strtoul_def cs Let_def del: takeWhile.simps dropWhile.simps digits_value.simps)
qed

text \<open>What COUNT prints, RESIZE reads back: the decimal text of a counter, passed as the argument of
  RESIZE, is parsed to the same number.\<close>

theorem resize_reads_counts:
  "build_command_data CMD_TYPE_RESIZE [fmt_zu n @ [0]] lens w =
    Inr (0, \<lparr>tag = CMD_TYPE_RESIZE, input = Size_input n\<rparr>, w)"
proof -
  have "fmt_zu n \<noteq> []" by (simp add: fmt_zu_def nat_digits.simps [of "unat n"])
  then show ?thesis
    by (simp add: build_command_data_def arg_def strtoul_fmt_zu nth_append)
qed

section \<open>COUNT\<close>

lemma number_slots:
  "command_table ! 2 = \<lparr>name = literal ''COUNT'', ctag = CMD_TYPE_COUNT, cproc = cmd_count, arity = 1, flags = ''r''\<rparr>"
  "command_table ! 6 = \<lparr>name = literal ''LOADFACTOR'', ctag = CMD_TYPE_LOADFACTOR, cproc = cmd_load_factor, arity = 0, flags = ''r''\<rparr>"
  "command_table ! 8 = \<lparr>name = literal ''RESIZE'', ctag = CMD_TYPE_RESIZE, cproc = cmd_resize, arity = 1, flags = ''w''\<rparr>"
  by (simp_all add: command_table_def)

lemma count_kinds:
  "stocmdcount (Some (literal ''CAPACITY'')) True = Inr (Some CMD_COUNT_CAPACITY)"
  "stocmdcount (Some (literal ''MEMORY_USAGE'')) True = Inr (Some CMD_COUNT_MEMORY_USAGE)"
  "stocmdcount (Some (literal ''TOTAL_ELEM'')) True = Inr (Some CMD_COUNT_TOTAL_ELEM)"
  "stocmdcount (Some (literal ''OCCUPIED_BUCKET'')) True = Inr (Some CMD_COUNT_OCCUPIED_BUCKET)"
  by (simp_all add: stocmdcount_def literal_def lit_bytes_def toupper_def strcmp_bytes terminated_def)

text \<open>A command that leaves the database alone and answers with a text.\<close>

lemma reading_command:
  assumes ctx: "serving w ctx t" and quiet: "sys_fails w = []" and i: "i < length command_table"
    and nm: "name (command_table ! i) = literal nm" "0 \<notin> set (lit_bytes nm)" "arity (command_table ! i) = argc"
    and d: "build_command_data (ctag (command_table ! i)) argv lens w = Inr (0, d, w)"
    and res: "cproc (command_table ! i) (Some t) (Some d) w = Inr (res, Some t, w)"
    and rep: "respond res w = Inr (x, w')" "sends w w' x 200 msg"
  shows "execute_command ctx (Some (literal nm)) argc argv lens w = Inr (x, ctx, w')"
    and "ctx_ok w' ctx" and "view w' ctx = view w ctx" and "status_code x = 200" and "reply_bytes w' x = msg"
proof -
  note simps = serving_simps [OF ctx]
  have "ctx\<lparr>database := Some t\<rparr> = ctx" using simps(1) by simp
  then show "execute_command ctx (Some (literal nm)) argc argv lens w = Inr (x, ctx, w')"
    using run_command [OF ctx i nm d res] rep(1) by simp
  have db': "db w' t" "stored w' t = stored w t" using sends_db [OF simps(2) rep(2)] by simp_all
  then have t': "serving w' ctx t" using ctx by (simp add: serving_def)
  then show "ctx_ok w' ctx" "view w' ctx = view w ctx"
    using serving_simps(5) [OF t'] simps(5) db'(2) by (auto simp: ctx_ok_def)
  show "status_code x = 200" "reply_bytes w' x = msg" using rep(2) sends_bytes [OF rep(2)] by (simp_all add: sends_def)
qed

lemma count_reply:
  assumes ctx: "serving w ctx t" and quiet: "sys_fails w = []"
    and kind: "stocmdcount (Some s) True = Inr (Some c)"
    and h: "cmd_count (Some t) (Some \<lparr>tag = CMD_TYPE_COUNT, input = Count_input c\<rparr>) w =
      Inr (\<lparr>rtype = CMD_TYPE_COUNT, outp = Count_output CMD_COUNT_CAPACITY n\<rparr>, Some t, w)"
  shows "\<exists>x w'. execute_command ctx (Some (literal ''COUNT'')) 1 [s] lens w = Inr (x, ctx, w') \<and>
    ctx_ok w' ctx \<and> view w' ctx = view w ctx \<and> status_code x = 200 \<and> reply_bytes w' x = fmt_zu n"
proof -
  let ?r = "\<lparr>rtype = CMD_TYPE_COUNT, outp = Count_output CMD_COUNT_CAPACITY n\<rparr>"
  have "length (fmt_zu n) < 64" using length_fmt_zu [of n] by simp
  then obtain x w' where x: "respond ?r w = Inr (x, w')" "sends w w' x 200 (fmt_zu n)"
    using quiet by (cases rule: respond_count_ok [of "fmt_zu n" w]) (auto simp: respond_def)
  have d: "build_command_data (ctag (command_table ! 2)) [s] lens w =
      Inr (0, \<lparr>tag = CMD_TYPE_COUNT, input = Count_input c\<rparr>, w)"
    using kind by (simp add: number_slots build_command_data_def arg_def)
  have h': "cproc (command_table ! 2) (Some t) (Some \<lparr>tag = CMD_TYPE_COUNT, input = Count_input c\<rparr>) w =
      Inr (?r, Some t, w)" using h by (simp add: number_slots)
  have i: "2 < length command_table" and nm: "name (command_table ! 2) = literal ''COUNT''"
    "0 \<notin> set (lit_bytes ''COUNT'')" "arity (command_table ! 2) = 1"
    by (simp_all add: number_slots lit_bytes_def)
  note A = reading_command [OF ctx quiet i nm d h' x]
  then show ?thesis by blast
qed

lemma counter_values:
  assumes ctx: "serving w ctx t" and "length (buckets t) < 2 ^ 60"
    and "(kind, n) \<in> {(''TOTAL_ELEM'', card (dom (view w ctx))), (''CAPACITY'', 8 * length (buckets t)),
      (''MEMORY_USAGE'', (sizeof_hashtable + unat (buckets_count t) * sizeof_bucket + unat (lock_count t) * sizeof_rwlock
         + (\<Sum>e \<in># entries (buckets t). length (block w (entry_value e)))) mod 2 ^ 64)}"
  shows "\<exists>c v. stocmdcount (Some (literal kind)) True = Inr (Some c) \<and>
      cmd_count (Some t) (Some \<lparr>tag = CMD_TYPE_COUNT, input = Count_input c\<rparr>) w =
      Inr (\<lparr>rtype = CMD_TYPE_COUNT, outp = Count_output CMD_COUNT_CAPACITY v\<rparr>, Some t, w) \<and> unat v = n"
proof -
  note simps = serving_simps [OF ctx]
  have wf: "table_wf t" using simps(2) by (simp add: db_ok_def)
  have len: "unat (buckets_count t) = length (buckets t)" using wf by (simp add: table_wf_def table_shape_def)
  show ?thesis
    using assms(3)
  proof (elim insertE emptyE)
    assume A: "(kind, n) = (''TOTAL_ELEM'', card (dom (view w ctx)))"
    have le: "card (dom (stored w t)) \<le> 8 * length (buckets t)"
      using size_entries_le [of "buckets t"] entries_card [OF wf, of w] by simp
    have "elem_count t = of_nat (card (dom (stored w t)))"
      using wf entries_card [OF wf, of w] by (simp add: table_wf_def)
    with le assms(2) have "unat (elem_count t) = card (dom (stored w t))" by (simp add: unat_of_nat)
    with A show ?thesis
      by (intro exI [of _ CMD_COUNT_TOTAL_ELEM] exI [of _ "elem_count t"])
        (simp add: count_kinds cmd_count_def input_count_def table_total_elem_def simps(5))
  next
    assume A: "(kind, n) = (''CAPACITY'', 8 * length (buckets t))"
    have "unat (table_capacity (Some t)) = 8 * length (buckets t)"
      using assms(2) by (simp add: table_capacity_def unat_word_ariths len)
    with A show ?thesis
      by (intro exI [of _ CMD_COUNT_CAPACITY] exI [of _ "table_capacity (Some t)"])
        (simp add: count_kinds cmd_count_def input_count_def)
  next
    let ?m = "sizeof_hashtable + unat (buckets_count t) * sizeof_bucket + unat (lock_count t) * sizeof_rwlock
         + (\<Sum>e \<in># entries (buckets t). length (block w (entry_value e)))"
    assume A: "(kind, n) = (''MEMORY_USAGE'', ?m mod 2 ^ 64)"
    have "table_memory_usage (Some t) (Some std_value_sizer) w = Inr (of_nat ?m, Some t)"
      using dv.memory_usage_ok [OF simps(2,3)] by (simp add: total_bytes_def)
    moreover have "unat (of_nat ?m :: size_t) = ?m mod 2 ^ 64" unfolding unat_of_nat by simp
    ultimately show ?thesis using A
      by (intro exI [of _ CMD_COUNT_MEMORY_USAGE] exI [of _ "of_nat ?m"])
        (simp only: count_kinds cmd_count_def input_count_def prod.inject, simp)
  qed
qed

text \<open>C27. COUNT TOTAL_ELEM, CAPACITY and MEMORY_USAGE answer 200 with a decimal text that reads back as the
  number of keys, as eight times the number of buckets, and as the size of the table's structs and stored
  entries; nothing changes.\<close>

theorem count_answers:
  assumes "ctx_ok w ctx" and "sys_fails w = []" and "database ctx = Some t" and "length (buckets t) < 2 ^ 60"
    and "(kind, n) \<in> {(''TOTAL_ELEM'', card (dom (view w ctx))), (''CAPACITY'', 8 * length (buckets t)),
      (''MEMORY_USAGE'', (sizeof_hashtable + unat (buckets_count t) * sizeof_bucket + unat (lock_count t) * sizeof_rwlock
         + (\<Sum>e \<in># entries (buckets t). length (block w (entry_value e)))) mod 2 ^ 64)}"
  shows "\<exists>x w' v. execute_command ctx (Some (literal ''COUNT'')) 1 [literal kind] lens w = Inr (x, ctx, w') \<and>
    ctx_ok w' ctx \<and> view w' ctx = view w ctx \<and> status_code x = 200 \<and>
    strtoul (reply_bytes w' x @ [0]) = Inr (v, length (reply_bytes w' x)) \<and> unat v = n"
proof -
  from assms(1,3) have ctx: "serving w ctx t" by (auto simp: ctx_ok_def serving_def)
  show ?thesis
    using counter_values [OF ctx assms(4,5)] count_reply [OF ctx assms(2), where lens = lens] by (metis strtoul_fmt_zu)
qed

theorem count_answers_witness:
  "\<exists>x w' v. execute_command ctx1 (Some (literal ''COUNT'')) 1 [literal ''TOTAL_ELEM''] [10] world1 = Inr (x, ctx1, w') \<and>
    status_code x = 200 \<and> strtoul (reply_bytes w' x @ [0]) = Inr (v, length (reply_bytes w' x)) \<and> unat v = 1"
proof -
  have "length (buckets table1) = 1"
    by (simp add: table1_def inserted_def with_bucket_def) (simp add: table0_def)
  moreover have "database ctx1 = Some table1" by (simp add: ctx1_def)
  ultimately show ?thesis
    using count_answers [OF ctx_ok_01(2), of table1 "''TOTAL_ELEM''" 1 "[10]"] view_01(2) by auto
qed

text \<open>COUNT OCCUPIED_BUCKET should answer the share of used buckets with two decimals, but
  \<open>cmd_count\<close> never sets the type of its output, so \<open>execute_command\<close> prints the 64 bits of the double as
  an integer.\<close>

theorem count_occupied_prints_bits:
  assumes "ctx_ok w ctx" and "sys_fails w = []" and "database ctx = Some t"
  shows "\<exists>share x w'. table_occupied_bucket_counter (Some t) = Inr (share, Some t) \<and>
    share = double_div (double_of_size (of_nat (occupied_count (buckets t)))) (double_of_size (buckets_count t)) \<and>
    execute_command ctx (Some (literal ''COUNT'')) 1 [literal ''OCCUPIED_BUCKET''] lens w = Inr (x, ctx, w') \<and>
    ctx_ok w' ctx \<and> view w' ctx = view w ctx \<and> status_code x = 200 \<and> reply_bytes w' x = fmt_zu (double_bits share)"
proof -
  from assms(1,3) have ctx: "serving w ctx t" by (auto simp: ctx_ok_def serving_def)
  note simps = serving_simps [OF ctx]
  let ?share = "double_div (double_of_size (of_nat (occupied_count (buckets t)))) (double_of_size (buckets_count t))"
  have occ: "table_occupied_bucket_counter (Some t) = Inr (?share, Some t)"
    using simps(2,3) by (intro occupied_counter_result) (simp_all add: db_ok_def table_wf_def)
  then have "cmd_count (Some t) (Some \<lparr>tag = CMD_TYPE_COUNT, input = Count_input CMD_COUNT_OCCUPIED_BUCKET\<rparr>) w =
      Inr (\<lparr>rtype = CMD_TYPE_COUNT, outp = Count_output CMD_COUNT_CAPACITY (double_bits ?share)\<rparr>, Some t, w)"
    by (simp add: cmd_count_def input_count_def)
  from count_reply [OF ctx assms(2) count_kinds(4) this, of lens] occ show ?thesis by blast
qed

lemma occupied1: "occupied_count (buckets table1) = 1" "buckets_count table1 = 1"
proof -
  have "\<exists>row. buckets table1 = [fill_slot zero_bucket 0 (djb2 [97]) row (Ptr 3 0)]"
    by (simp add: table1_def inserted_def with_bucket_def bucket0) (auto simp: table0_def bucket_index_def key_index_def)
  then show "occupied_count (buckets table1) = 1"
    by (auto simp: occupied_count_def bucket_occupied_def slots_Cons fill_slot_def zero_bucket_def)
  show "buckets_count table1 = 1" by (simp add: table1_def inserted_def with_bucket_def) (simp add: table0_def)
qed

theorem count_occupied_prints_bits_witness:
  "\<exists>x w'. execute_command ctx1 (Some (literal ''COUNT'')) 1 [literal ''OCCUPIED_BUCKET''] [15] world1 = Inr (x, ctx1, w') \<and>
    status_code x = 200 \<and> reply_bytes w' x = lit_bytes ''4607182418800017408''"
proof -
  have "round_double 1 1 = Double (2 ^ 52) (- 52)"
    by (simp add: round_double_def lg2.simps [of 1] scaled_def round_even_def)
  moreover have "round_double (2 ^ 52) (2 ^ 52) = Double (2 ^ 52) (- 52)"
    by (simp add: round_double_def scaled_def round_even_def)
  ultimately have "double_div (double_of_size 1) (double_of_size 1) = Double (2 ^ 52) (- 52)"
    by (simp add: double_of_size_def)
  moreover have "fmt_zu (double_bits (Double (2 ^ 52) (- 52))) = lit_bytes ''4607182418800017408''"
    by (simp add: fmt_zu_def nat_digits.simps lit_bytes_def)
  moreover have "database ctx1 = Some table1" by (simp add: ctx1_def)
  ultimately show ?thesis
    using count_occupied_prints_bits [OF ctx_ok_01(2), of table1 "[15]"] by (simp add: occupied1) blast
qed

section \<open>LOADFACTOR\<close>

text \<open>The text of a load factor: at most six characters, and what it says.\<close>

lemma load_factor_text:
  assumes "db w t" and "length (buckets t) < 2 ^ 50"
  obtains n where "fmt_f 4 (table_load_factor (Some t)) = nat_digits (n div 10 ^ 4) @ 46 # pad_digits 4 (n mod 10 ^ 4)"
    and "length (fmt_f 4 (table_load_factor (Some t))) < 64" and "0 \<notin> set (fmt_f 4 (table_load_factor (Some t)))"
    and "\<bar>real n / 10 ^ 4 - real (card (dom (stored w t))) / real (8 * length (buckets t))\<bar> \<le> 1 / 20000 + 1 / 2 ^ 53"
proof -
  have wf: "table_wf t" using assms(1) by (simp add: db_ok_def)
  have len: "unat (buckets_count t) = length (buckets t)" and nz: "buckets_count t \<noteq> 0"
    using wf by (simp_all add: table_wf_def table_shape_def is_pow2_def)
  define cap where "cap = buckets_count t * 8"
  have cap: "unat cap = 8 * length (buckets t)"
    using assms(2) by (simp add: cap_def unat_word_ariths len)
  have pos: "0 < unat cap" using nz len by (simp add: cap unat_eq_0 [symmetric])
  have le: "card (dom (stored w t)) \<le> 8 * length (buckets t)"
    using size_entries_le [of "buckets t"] entries_card [OF wf, of w] by simp
  have "elem_count t = of_nat (card (dom (stored w t)))"
    using wf entries_card [OF wf, of w] by (simp add: table_wf_def)
  with le assms(2) have el: "unat (elem_count t) = card (dom (stored w t))" by (simp add: unat_of_nat)
  define n where "n = fixed_units 4 (double_div (double_of_size (elem_count t)) (double_of_size cap))"
  have "unat (elem_count t) \<le> unat cap" "unat cap < 2 ^ 53" using el le cap assms(2) by simp_all
  note n = ratio_printed [OF this(1) pos this(2) n_def]
  define msg where "msg = nat_digits (n div 10 ^ 4) @ 46 # pad_digits 4 (n mod 10 ^ 4)"
  have "cap \<noteq> 0" using pos by auto
  then have fmt: "fmt_f 4 (table_load_factor (Some t)) = msg"
    by (simp add: table_load_factor_def fmt_f_def n_def msg_def Let_def flip: cap_def)
  have digits: "length (nat_digits (n div 10 ^ 4)) \<le> 1" "length (nat_digits (n mod 10 ^ 4)) \<le> 4"
    using n(2) by (intro length_nat_digits; simp)+
  then have short: "length msg < 64" by (simp add: msg_def pad_digits_def)
  have nozero: "0 \<notin> set msg" using nat_digits_nonzero by (auto simp: msg_def pad_digits_def)
  from n(1) have "\<bar>real n / 10 ^ 4 - real (card (dom (stored w t))) / real (8 * length (buckets t))\<bar>
      \<le> 1 / 20000 + 1 / 2 ^ 53" unfolding el cap .
  with fmt short nozero show thesis by (intro that [of n]) (simp_all only: msg_def not_False_eq_True)
qed

text \<open>C28. LOADFACTOR answers 200 with the number of keys over the number of slots, printed with four decimals
  and off by at most half of the last one plus the rounding of the double division; nothing changes.\<close>

theorem load_factor_answers:
  assumes "ctx_ok w ctx" and "sys_fails w = []" and "database ctx = Some t" and "length (buckets t) < 2 ^ 50"
  shows "\<exists>x w' n. execute_command ctx (Some (literal ''LOADFACTOR'')) 0 [] [] w = Inr (x, ctx, w') \<and>
    ctx_ok w' ctx \<and> view w' ctx = view w ctx \<and> status_code x = 200 \<and>
    reply_bytes w' x = nat_digits (n div 10 ^ 4) @ 46 # pad_digits 4 (n mod 10 ^ 4) \<and>
    \<bar>real n / 10 ^ 4 - real (card (dom (view w ctx))) / real (8 * length (buckets t))\<bar> \<le> 1 / 20000 + 1 / 2 ^ 53"
proof -
  from assms(1,3) have ctx: "serving w ctx t" by (auto simp: ctx_ok_def serving_def)
  note simps = serving_simps [OF ctx]
  let ?msg = "fmt_f 4 (table_load_factor (Some t))"
  obtain n where n: "?msg = nat_digits (n div 10 ^ 4) @ 46 # pad_digits 4 (n mod 10 ^ 4)" "length ?msg < 64" "0 \<notin> set ?msg"
    "\<bar>real n / 10 ^ 4 - real (card (dom (stored w t))) / real (8 * length (buckets t))\<bar> \<le> 1 / 20000 + 1 / 2 ^ 53"
    using simps(2) assms(4) by (rule load_factor_text)
  let ?r = "\<lparr>rtype = CMD_TYPE_LOADFACTOR, outp = Load_output (table_load_factor (Some t))\<rparr>"
  have "length ?msg < 2 ^ 62" using n(2) by simp
  with n(3) obtain x w' where x: "respond ?r w = Inr (x, w')" "sends w w' x 200 ?msg"
    using assms(2) n(2) unfolding respond_def respond_load_factor_def
    by (cases rule: ustrdup_cases [of ?msg w]) (auto simp: sends_def unat_len)
  have d: "build_command_data (ctag (command_table ! 6)) [] [] w =
      Inr (0, \<lparr>tag = CMD_TYPE_LOADFACTOR, input = Zero_input\<rparr>, w)"
    by (simp add: number_slots build_command_data_def)
  have h: "cproc (command_table ! 6) (Some t) (Some \<lparr>tag = CMD_TYPE_LOADFACTOR, input = Zero_input\<rparr>) w =
      Inr (?r, Some t, w)" by (simp add: number_slots cmd_load_factor_def)
  have i: "6 < length command_table" and nm: "name (command_table ! 6) = literal ''LOADFACTOR''"
    "0 \<notin> set (lit_bytes ''LOADFACTOR'')" "arity (command_table ! 6) = 0"
    by (simp_all add: number_slots lit_bytes_def)
  note A = reading_command [OF ctx assms(2) i nm d h x]
  with n(1,4) show ?thesis unfolding simps(5) by metis
qed

theorem load_factor_answers_witness:
  "\<exists>x w' n. execute_command ctx1 (Some (literal ''LOADFACTOR'')) 0 [] [] world1 = Inr (x, ctx1, w') \<and>
    status_code x = 200 \<and> reply_bytes w' x = nat_digits (n div 10 ^ 4) @ 46 # pad_digits 4 (n mod 10 ^ 4) \<and>
    \<bar>real n / 10 ^ 4 - 1 / 8\<bar> \<le> 1 / 20000 + 1 / 2 ^ 53"
proof -
  have "length (buckets table1) = 1"
    by (simp add: table1_def inserted_def with_bucket_def) (simp add: table0_def)
  moreover have "database ctx1 = Some table1" by (simp add: ctx1_def)
  moreover have "card (dom (view world1 ctx1)) = 1" using view_01(2) by simp
  ultimately show ?thesis
    using load_factor_answers [OF ctx_ok_01(2) quiet_01(2), of table1] by simp blast
qed

section \<open>RESIZE\<close>

text \<open>C29. RESIZE with the decimal text of a number never loses a key: the map is as before and foreign memory is kept,
  whichever allocations are refused. It answers 200 only when the table has the number rounded up to a power of two of
  buckets, and 500 otherwise; unless that outgrows the locks, the server is ready for the next request.\<close>

theorem resize_command_answers:
  assumes "ctx_ok w ctx" and "database ctx = Some t" and "n \<noteq> 0" and "unat n \<le> 2 ^ 63"
  shows "\<exists>x t' w'. execute_command ctx (Some (literal ''RESIZE'')) 1 [fmt_zu n @ [0]] lens w =
      Inr (x, ctx\<lparr>database := Some t'\<rparr>, w') \<and>
    db w' t' \<and> view w' (ctx\<lparr>database := Some t'\<rparr>) = view w ctx \<and> elem_count t' = elem_count t \<and>
    outside w t \<subseteq>\<^sub>m outside w' t' \<and> status_code x \<in> {200, 500} \<and>
    (status_code x = 200 \<longrightarrow> buckets_count t' = adjust_capacity n) \<and>
    (buckets_count t' = adjust_capacity n \<or> t' = t) \<and>
    (adjust_capacity n \<le> lock_count t \<longrightarrow> ctx_ok w' (ctx\<lparr>database := Some t'\<rparr>))"
proof -
  from assms(1,2) have ctx: "serving w ctx t" by (auto simp: ctx_ok_def serving_def)
  note simps = serving_simps [OF ctx]
  let ?d = "\<lparr>tag = CMD_TYPE_RESIZE, input = Size_input n\<rparr>"
  from simps(2) assms(3,4) show ?thesis
  proof (rule dv.resize_ok)
    fix rc t' w1 assume R: "table_resize (Some t) n w = Inr (rc, Some t', w1)" "db w1 t'" "contents w1 t' = contents w t"
      "rc = - 1 \<and> t' = t \<and> heap w1 = heap w \<or> rc = 0 \<and> buckets_count t' = adjust_capacity n"
      "elem_count t' = elem_count t" "lock_count t' = lock_count t" "outside w1 t' = outside w t"
    define res where "res = (if rc = 0 then \<lparr>rtype = CMD_TYPE_RESIZE, outp = Error_output 0\<rparr> else error_result)"
    have run: "cmd_resize (Some t) (Some ?d) w = Inr (res, Some t', w1)"
      using R(1) assms(3) by (simp add: cmd_resize_def input_size_def res_def)
    have "answers res w1 (if rc = 0 then 200 else 500) (lit_bytes (if rc = 0 then TCP_SUCCESS else TCP_INTERNAL_ERROR))"
      using answers_done [of CMD_TYPE_RESIZE 0 w1] answers_error [of error_result w1] by (simp add: res_def error_result_def)
    then obtain x w' where x: "respond res w1 = Inr (x, w')" "replies w1 w' x" "status_code x \<in> {200, 500}"
      "status_code x = 200 \<longrightarrow> rc = 0"
      by (auto simp: answers_def split: if_splits)
    have exec: "execute_command ctx (Some (literal ''RESIZE'')) 1 [fmt_zu n @ [0]] lens w =
        Inr (x, ctx\<lparr>database := Some t'\<rparr>, w')"
      using run_command [OF ctx, of 8 "''RESIZE''" 1 "[fmt_zu n @ [0]]" lens ?d w res t' w1] run x(1)
      by (simp add: number_slots resize_reads_counts lit_bytes_def length_command_table)
    have db': "db w' t'" and st: "stored w' t' = stored w t"
      using replies_db [OF R(2) x(2)] contents_stored [OF R(3)] by simp_all
    have out: "outside w t \<subseteq>\<^sub>m outside w' t'" using replies_outside [OF db_ok_simps(1) [OF R(2)] x(2), of t'] R(7) by simp
    have vw: "view w' (ctx\<lparr>database := Some t'\<rparr>) = view w ctx" using st simps(5) by (simp add: view_def)
    have "ctx_ok w' (ctx\<lparr>database := Some t'\<rparr>)" if "adjust_capacity n \<le> lock_count t"
    proof -
      have "locks_cover t'" using R(4,6) simps(3) that by (auto simp: locks_cover_def)
      with ctx db' st show ?thesis by (auto simp: ctx_ok_def serving_def)
    qed
    with exec db' vw out R(4,5) x(3,4) show ?thesis by (intro exI [of _ x] exI [of _ t'] exI [of _ w']) auto
  qed
qed

theorem resize_command_answers_witness:
  "\<exists>x t' w'. execute_command ctx1 (Some (literal ''RESIZE'')) 1 [fmt_zu 1 @ [0]] [1] world1 =
      Inr (x, ctx1\<lparr>database := Some t'\<rparr>, w') \<and>
    ctx_ok w' (ctx1\<lparr>database := Some t'\<rparr>) \<and> view w' (ctx1\<lparr>database := Some t'\<rparr>) = [[97] \<mapsto> data_x]"
proof -
  have "lock_count table1 = 1" by (simp add: table1_def inserted_def with_bucket_def table0_def)
  moreover have "database ctx1 = Some table1" by (simp add: ctx1_def)
  ultimately show ?thesis
    using resize_command_answers [OF ctx_ok_01(2), of table1 1 "[1]"] view_01(2) by auto
qed

end
