(* ===== verification/Server.thy ===== *)
theory Server
  imports Command
begin

text \<open>
  The server, src/src/server.c and server.h: the context of a client, the growing buffer of unread bytes,
  the parser of requests, and the callbacks libuv makes for a connection.

  libuv is not part of the sources. The calls the server makes to it (closing a handle, starting and
  stopping the timer, writing) are recorded in order in the field \<open>calls\<close> of the client's context; what
  libuv answers (whether a handle is closing, whether a connection was accepted, the status of a write)
  is an argument of the callback that asks. The sizes of the structs that contain libuv's handles and the
  number of bytes behind a block of a given size that belong to nobody are in the record \<open>platform\<close>.

  A context keeps the argument vector and the vector of lengths as lists next to the pointers to their
  blocks, as the hash table does for its arrays; the read buffer and the arguments are blocks of the heap.
\<close>

section \<open>Data\<close>

record platform =
  sizeof_client_context :: nat
  sizeof_write_req :: nat
  spare :: "nat \<Rightarrow> nat"

datatype parser_state = PARSE_STATE_EXPECT_TYPE | PARSE_STATE_EXPECT_LENGTH | PARSE_STATE_EXPECT_DATA

record write_req =
  req_ptr :: ptr
  buf_base :: ptr
  buf_len :: nat

datatype uv_call =
    Uv_close_client
  | Uv_close_timer
  | Uv_timer_start
  | Uv_timer_stop
  | Uv_write write_req

record client_context =
  ctx_ptr :: ptr
  buffer :: ptr
  buffer_used :: size_t
  buffer_capacity :: size_t
  pstate :: parser_state
  args_total :: size_t
  args_parsed :: size_t
  data_to_read :: size_t
  temp_argv :: ptr
  argv_slots :: "ptr list"
  temp_arg_lengths :: ptr
  length_slots :: "size_t list"
  calls :: "uv_call list"

definition uv_call :: "uv_call \<Rightarrow> client_context \<Rightarrow> client_context" where
  "uv_call u c = c\<lparr>calls := calls c @ [u]\<rparr>"

section \<open>Releasing a client\<close>

fun free_all :: "ptr list \<Rightarrow> nat \<Rightarrow> nat \<Rightarrow> world \<Rightarrow> fault + world" where
  "free_all ps i 0 w = Inr w"
| "free_all ps i (Suc n) w =
     (if i < length ps then bindE (free (ps ! i) w) (free_all ps (Suc i) n) else Inl ArgvOverrun)"

definition free_parser_resources :: "client_context \<Rightarrow> world \<Rightarrow> fault + (client_context \<times> world)" where
  "free_parser_resources c w =
     bindE
       (if temp_argv c = NULL then Inr (c, w)
        else
          bindE (free_all (argv_slots c) 0 (unat (args_parsed c)) w) (\<lambda>w1.
          bindE (free (temp_argv c) w1) (\<lambda>w2.
          Inr (c\<lparr>temp_argv := NULL, argv_slots := []\<rparr>, w2))))
       (\<lambda>(c1, w1).
          if temp_arg_lengths c1 = NULL then Inr (c1, w1)
          else
            bindE (free (temp_arg_lengths c1) w1) (\<lambda>w2.
            Inr (c1\<lparr>temp_arg_lengths := NULL, length_slots := []\<rparr>, w2)))"

definition reset_parser :: "client_context \<Rightarrow> client_context" where
  "reset_parser c = c\<lparr>pstate := PARSE_STATE_EXPECT_TYPE, args_total := 0, args_parsed := 0, data_to_read := 0\<rparr>"

definition on_close_after_failure :: "ptr \<Rightarrow> world \<Rightarrow> fault + world" where
  "on_close_after_failure handle_data w = free handle_data w"

definition on_timer_close :: "client_context \<Rightarrow> world \<Rightarrow> fault + world" where
  "on_timer_close c w =
     bindE (if buffer c = NULL then Inr w else free (buffer c) w) (\<lambda>w1. free (ctx_ptr c) w1)"

text \<open>
  The timer is initialised just before it is first started. \<open>uv_close\<close> on a handle that was never initialised
  is outside libuv's contract.
\<close>

definition on_client_close :: "bool \<Rightarrow> client_context \<Rightarrow> world \<Rightarrow> fault + (client_context \<times> world)" where
  "on_client_close timer_is_closing c w =
     (if \<not> timer_is_closing \<and> Uv_timer_start \<notin> set (calls c) then Inl BadHandle
      else
        bindE (free_parser_resources (if timer_is_closing then c else uv_call Uv_close_timer c) w) (\<lambda>(c1, w1).
        Inr (reset_parser c1, w1)))"

definition on_client_timeout :: "client_context \<Rightarrow> client_context" where
  "on_client_timeout c = uv_call Uv_close_client c"

text \<open>The failed branch reads \<open>req->handle\<close> after \<open>free(wr)\<close>, and \<open>req\<close> is \<open>wr\<close>.\<close>

definition on_write_complete :: "write_req \<Rightarrow> int \<Rightarrow> world \<Rightarrow> fault + world" where
  "on_write_complete wr status w =
     bindE (free (buf_base wr) w) (\<lambda>w1.
     bindE (free (req_ptr wr) w1) (\<lambda>w2.
     if status < 0 then (if live w2 (req_ptr wr) then Inr w2 else Inl DanglingAccess) else Inr w2))"

definition alloc_buffer :: "size_t \<Rightarrow> world \<Rightarrow> (ptr \<times> size_t) \<times> world" where
  "alloc_buffer suggested_size w =
     (let (p, w1) = malloc suggested_size w in ((p, if p \<noteq> NULL then suggested_size else 0), w1))"

section \<open>The buffer of unread bytes\<close>

definition append_to_buffer :: "client_context \<Rightarrow> ptr \<Rightarrow> size_t \<Rightarrow> world \<Rightarrow> fault + (client_context \<times> world)" where
  "append_to_buffer c data len w =
     bindE
       (if buffer_used c + len > buffer_capacity c
        then
          let doubled = (if buffer_capacity c = 0 then 1024 else buffer_capacity c * 2);
              new_capacity = (if doubled < buffer_used c + len then buffer_used c + len else doubled) in
          bindE (realloc (buffer c) new_capacity w) (\<lambda>(p, w1).
          if p = NULL then Inr (None, w1)
          else Inr (Some (c\<lparr>buffer := p, buffer_capacity := new_capacity\<rparr>), w1))
        else Inr (Some c, w))
       (\<lambda>(grown, w1).
          case grown of
            None \<Rightarrow> Inr (uv_call Uv_close_client c, w1)
          | Some c1 \<Rightarrow>
              bindE (memcpy (ptr_add (buffer c1) (unat (buffer_used c1))) data (unat len) w1) (\<lambda>w2.
              Inr (c1\<lparr>buffer_used := buffer_used c1 + len\<rparr>, w2)))"

text \<open>The first \<open>consumed\<close> bytes leave the buffer (\<open>memmove\<close> to its start).\<close>

definition consume :: "size_t \<Rightarrow> client_context \<Rightarrow> world \<Rightarrow> fault + (client_context \<times> world)" where
  "consume consumed c w =
     bindE (memcpy (buffer c) (ptr_add (buffer c) (unat consumed)) (unat (buffer_used c - consumed)) w) (\<lambda>w1.
     Inr (c\<lparr>buffer_used := buffer_used c - consumed\<rparr>, w1))"

section \<open>Parsing\<close>

text \<open>
  Each step of the loop of \<open>parse_buffer\<close> returns whether the loop goes on; \<open>break\<close> and \<open>return\<close> end it.
\<close>

fun skip_newlines :: "byte list \<Rightarrow> nat \<Rightarrow> fault + nat" where
  "skip_newlines bs 0 = Inr 0"
| "skip_newlines [] (Suc n) = Inl BufferOverrun"
| "skip_newlines (b # bs) (Suc n) =
     (if b = 13 \<or> b = 10 then bindE (skip_newlines bs n) (\<lambda>k. Inr (Suc k)) else Inr 0)"

definition first_byte :: "client_context \<Rightarrow> world \<Rightarrow> fault + byte" where
  "first_byte c w = bindE (load (buffer c) 1 w) (\<lambda>bs. Inr (hd bs))"

text \<open>The first CR, if the LF after it has arrived.\<close>

definition find_crlf :: "client_context \<Rightarrow> world \<Rightarrow> fault + nat option" where
  "find_crlf c w =
     bindE (memchr (block w (buffer c)) 13 (unat (buffer_used c))) (\<lambda>crlf.
     case crlf of
       None \<Rightarrow> Inr None
     | Some i \<Rightarrow>
         if unat (buffer_used c) \<le> i + 1 then Inr None
         else bindE (load (ptr_add (buffer c) (i + 1)) 1 w) (\<lambda>bs. Inr (if hd bs = 10 then Some i else None)))"

definition parse_type :: "client_context \<Rightarrow> world \<Rightarrow> fault + (bool \<times> client_context \<times> world)" where
  "parse_type c w =
     bindE (skip_newlines (block w (buffer c)) (unat (buffer_used c))) (\<lambda>leading.
     bindE (if leading > 0 then consume (of_nat leading) c w else Inr (c, w)) (\<lambda>(c1, w1).
     if buffer_used c1 < 1 then Inr (False, c1, w1)
     else
       bindE (first_byte c1 w1) (\<lambda>b.
       if b \<noteq> 42 then Inr (False, uv_call Uv_close_client c1, w1)
       else
         bindE (find_crlf c1 w1) (\<lambda>crlf.
         case crlf of
           None \<Rightarrow> Inr (False, c1, w1)
         | Some i \<Rightarrow>
             bindE (strtol (drop 1 (block w1 (buffer c1)))) (\<lambda>n_args.
             if sint n_args \<le> 0 \<or> sint n_args > 1024 then Inr (False, uv_call Uv_close_client c1, w1)
             else
               let (total, err) = long_to_sizet n_args (Some False);
                   c2 = c1\<lparr>args_total := total\<rparr> in
               if err = Some True then Inr (False, uv_call Uv_close_client c2, w1)
               else
                 bindE (consume (of_nat (i + 2)) (c2\<lparr>args_parsed := 0, pstate := PARSE_STATE_EXPECT_LENGTH\<rparr>) w1)
                   (\<lambda>(c3, w2). Inr (True, c3, w2)))))))"

definition parse_length :: "client_context \<Rightarrow> world \<Rightarrow> fault + (bool \<times> client_context \<times> world)" where
  "parse_length c w =
     (if buffer_used c < 1 then Inr (False, c, w)
      else
        bindE (first_byte c w) (\<lambda>b.
        if b \<noteq> 36 then Inr (False, uv_call Uv_close_client c, w)
        else
          bindE (find_crlf c w) (\<lambda>crlf.
          case crlf of
            None \<Rightarrow> Inr (False, c, w)
          | Some i \<Rightarrow>
              bindE (strtol (drop 1 (block w (buffer c)))) (\<lambda>len.
              if sint len < 0 \<or> sint len > 8192 then Inr (False, uv_call Uv_close_client c, w)
              else
                let (n, err) = long_to_sizet len (Some False); c1 = c\<lparr>data_to_read := n\<rparr> in
                if err = Some True then Inr (False, uv_call Uv_close_client c1, w)
                else
                  bindE (consume (of_nat (i + 2)) (c1\<lparr>pstate := PARSE_STATE_EXPECT_DATA\<rparr>) w)
                    (\<lambda>(c2, w1). Inr (True, c2, w1))))))"

text \<open>Giving up on a request: its resources are freed and the connection closed.\<close>

definition give_up :: "client_context \<Rightarrow> world \<Rightarrow> fault + (client_context \<times> world)" where
  "give_up c w = bindE (free_parser_resources c w) (\<lambda>(c1, w1). Inr (uv_call Uv_close_client c1, w1))"

text \<open>The two vectors, allocated before the first argument; None if memory is refused.\<close>

definition alloc_vectors :: "client_context \<Rightarrow> world \<Rightarrow> client_context \<times> world \<times> bool" where
  "alloc_vectors c w =
     (let n = unat (args_total c * 8);
          (p, w1) = alloc_struct n w;
          (q, w2) = alloc_struct n w1 in
      (c\<lparr>temp_argv := p, argv_slots := replicate (n div 8) NULL,
         temp_arg_lengths := q, length_slots := replicate (n div 8) 0\<rparr>, w2, p \<noteq> NULL \<and> q \<noteq> NULL))"

text \<open>The next argument, copied out of the buffer with a terminator; the flag tells whether memory was granted.\<close>

definition take_argument :: "client_context \<Rightarrow> world \<Rightarrow> fault + (client_context \<times> world \<times> bool)" where
  "take_argument c w =
     (let i = unat (args_parsed c); n = unat (data_to_read c);
          (p, w1) = malloc (data_to_read c + 1) w in
      if temp_argv c = NULL then Inl NullDeref
      else if length (argv_slots c) \<le> i then Inl ArgvOverrun
      else
        let c1 = c\<lparr>argv_slots := (argv_slots c)[i := p]\<rparr> in
        if p = NULL then Inr (c1, w1, False)
        else
          bindE (memcpy p (buffer c) n w1) (\<lambda>w2.
          bindE (store (ptr_add p n) [0] w2) (\<lambda>w3.
          if temp_arg_lengths c = NULL then Inl NullDeref
          else if length (length_slots c) \<le> i then Inl ArgvOverrun
          else Inr (c1\<lparr>length_slots := (length_slots c)[i := data_to_read c],
                       args_parsed := args_parsed c + 1\<rparr>, w3, True))))"

section \<open>The reply\<close>

text \<open>
  The reply is moved to a block of one byte more than its text, and CR and LF are written behind the text: the
  CR is the last byte of the block, the LF is outside it. In C that store is undefined. What it does depends on the
  allocator: when the block has spare bytes behind it, which belong to nobody, the LF is lost in them; otherwise
  it is written over foreign memory, the fault. With \<open>spare pf = (\<lambda>n. 0)\<close> every store outside a block is
  the fault.
\<close>

definition store_behind :: "platform \<Rightarrow> ptr \<Rightarrow> nat \<Rightarrow> byte \<Rightarrow> world \<Rightarrow> fault + world" where
  "store_behind pf p n b w =
     (let len = length (block w p) in
      if live w p \<and> len \<le> n \<and> n < len + spare pf len then Inr w else store (ptr_add p n) [b] w)"

definition send_reply ::
    "platform \<Rightarrow> execute_result \<Rightarrow> client_context \<Rightarrow> world \<Rightarrow> fault + (bool \<times> client_context \<times> world)" where
  "send_reply pf result c w =
     (let body_len = body_length result in
      bindE (realloc (body result) (body_len + 1) w) (\<lambda>(p, w1).
      if p = NULL
      then bindE (free (body result) w1) (\<lambda>w2. bindE (give_up c w2) (\<lambda>(c1, w3). Inr (False, c1, w3)))
      else
        bindE (store (ptr_add p (unat body_len)) [13] w1) (\<lambda>w2.
        bindE (store_behind pf p (unat (body_len + 1)) 10 w2) (\<lambda>w3.
        let (req, w4) = alloc_struct (sizeof_write_req pf) w3 in
        if req = NULL
        then bindE (free p w4) (\<lambda>w5. bindE (give_up c w5) (\<lambda>(c1, w6). Inr (False, c1, w6)))
        else
          let (write_len, err) = sizet_to_uint (body_len + 1) (Some False) in
          if err = Some True
          then bindE (free p w4) (\<lambda>w5. bindE (free req w5) (\<lambda>w6.
               bindE (give_up c w6) (\<lambda>(c1, w7). Inr (False, c1, w7))))
          else Inr (True, uv_call (Uv_write \<lparr>req_ptr = req, buf_base = p, buf_len = unat write_len\<rparr>) c, w4)))))"

definition run_request ::
    "platform \<Rightarrow> server_context \<Rightarrow> client_context \<Rightarrow> world \<Rightarrow>
     fault + (bool \<times> server_context \<times> client_context \<times> world)" where
  "run_request pf sctx c w =
     (let command_name = block w (argv_slots c ! 0);
          (argc, err) = sizet_to_int (args_total c - 1) (Some False) in
      if err = Some True then bindE (give_up c w) (\<lambda>(c1, w1). Inr (False, sctx, c1, w1))
      else
        let argv = (if 0 < sint argc then map (block w) (tl (argv_slots c)) else []);
            lens = (if 0 < sint argc then tl (length_slots c) else []) in
        bindE (execute_command sctx (Some command_name) (sint argc) argv lens w) (\<lambda>(result, sctx', w1).
        bindE (send_reply pf result c w1) (\<lambda>(go, c1, w2). Inr (go, sctx', c1, w2))))"

text \<open>The last phase: an argument and, after the last one, the request.\<close>

definition parse_data ::
    "platform \<Rightarrow> server_context \<Rightarrow> client_context \<Rightarrow> world \<Rightarrow>
     fault + (bool \<times> server_context \<times> client_context \<times> world)" where
  "parse_data pf sctx c w =
     (if buffer_used c < data_to_read c + 2 then Inr (False, sctx, c, w)
      else
        let (c1, w1, granted) = (if args_parsed c = 0 then alloc_vectors c w else (c, w, True)) in
        if \<not> granted then bindE (give_up c1 w1) (\<lambda>(c2, w2). Inr (False, sctx, c2, w2))
        else
          bindE (take_argument c1 w1) (\<lambda>(c2, w2, granted').
          if \<not> granted' then bindE (give_up c2 w2) (\<lambda>(c3, w3). Inr (False, sctx, c3, w3))
          else
            bindE (consume (data_to_read c + 2) c2 w2) (\<lambda>(c3, w3).
            if args_parsed c3 = args_total c3 then run_request pf sctx c3 w3
            else Inr (True, sctx, c3\<lparr>pstate := PARSE_STATE_EXPECT_LENGTH\<rparr>, w3))))"

definition parse_step ::
    "platform \<Rightarrow> server_context \<Rightarrow> client_context \<Rightarrow> world \<Rightarrow>
     fault + (bool \<times> server_context \<times> client_context \<times> world)" where
  "parse_step pf sctx c w =
     (case pstate c of
        PARSE_STATE_EXPECT_TYPE \<Rightarrow> bindE (parse_type c w) (\<lambda>(go, c1, w1). Inr (go, sctx, c1, w1))
      | PARSE_STATE_EXPECT_LENGTH \<Rightarrow> bindE (parse_length c w) (\<lambda>(go, c1, w1). Inr (go, sctx, c1, w1))
      | PARSE_STATE_EXPECT_DATA \<Rightarrow> parse_data pf sctx c w)"

text \<open>
  The loop. Every round that goes on takes at least two bytes out of the buffer, so one round more than
  there are unread bytes is enough; a loop that is not over by then is the fault \<open>Looping\<close>.
\<close>

fun parse_loop ::
    "nat \<Rightarrow> platform \<Rightarrow> server_context \<Rightarrow> client_context \<Rightarrow> world \<Rightarrow>
     fault + (server_context \<times> client_context \<times> world)" where
  "parse_loop 0 pf sctx c w = Inl Looping"
| "parse_loop (Suc n) pf sctx c w =
     bindE (parse_step pf sctx c w) (\<lambda>(go, sctx1, c1, w1).
     if go then parse_loop n pf sctx1 c1 w1 else Inr (sctx1, c1, w1))"

definition parse_buffer ::
    "platform \<Rightarrow> server_context \<Rightarrow> client_context \<Rightarrow> world \<Rightarrow>
     fault + (server_context \<times> client_context \<times> world)" where
  "parse_buffer pf sctx c w = parse_loop (Suc (unat (buffer_used c))) pf sctx c w"

section \<open>Connections\<close>

definition on_read ::
    "platform \<Rightarrow> server_context \<Rightarrow> client_context \<Rightarrow> 64 word \<Rightarrow> ptr \<Rightarrow> world \<Rightarrow>
     fault + (server_context \<times> client_context \<times> world)" where
  "on_read pf sctx c nread base w =
     (let release = (\<lambda>(sctx', c', w'). bindE (if base = NULL then Inr w' else free base w') (\<lambda>w''.
            Inr (sctx', c', w''))) in
      if sint nread > 0
      then
        let c1 = uv_call Uv_timer_start c; (len, err) = ssizet_to_sizet nread (Some False) in
        bindE (append_to_buffer c1 base len w) (\<lambda>(c2, w1).
        if err = Some True then Inr (sctx, c2, w1)
        else bindE (parse_buffer pf sctx c2 w1) release)
      else if sint nread < 0
      then release (sctx, uv_call Uv_close_client (uv_call Uv_timer_stop c), w)
      else release (sctx, c, w))"

definition zero_context :: "ptr \<Rightarrow> client_context" where
  "zero_context p =
     \<lparr>ctx_ptr = p, buffer = NULL, buffer_used = 0, buffer_capacity = 0, pstate = PARSE_STATE_EXPECT_TYPE,
      args_total = 0, args_parsed = 0, data_to_read = 0, temp_argv = NULL, argv_slots = [],
      temp_arg_lengths = NULL, length_slots = [], calls = []\<rparr>"

definition on_new_connection :: "platform \<Rightarrow> int \<Rightarrow> bool \<Rightarrow> world \<Rightarrow> client_context option \<times> world" where
  "on_new_connection pf status accepted w =
     (if status < 0 then (None, w)
      else
        let (p, w1) = alloc_struct (sizeof_client_context pf) w in
        if p = NULL then (None, w1)
        else if accepted then (Some (uv_call Uv_timer_start (reset_parser (zero_context p))), w1)
        else (Some (uv_call Uv_close_client (zero_context p)), w1))"

text \<open>What \<open>main\<close> sets up before it listens: the registry and the table of the size given on the command line.\<close>

definition start_server :: "cbuf \<Rightarrow> world \<Rightarrow> fault + (server_context option \<times> world)" where
  "start_server size_arg w =
     (let (r, w1) = registry_create w in
      bindE (strtoul size_arg) (\<lambda>(db_size, endptr).
      if db_size = 0 then Inr (None, w1)
      else bindE (table_create db_size w1) (\<lambda>(t, w2).
           Inr (case t of None \<Rightarrow> None | Some t' \<Rightarrow> Some \<lparr>reg = r, database = Some t'\<rparr>, w2))))"

text \<open>What \<open>main\<close> tears down after the event loop ends.\<close>

definition stop_server :: "server_context \<Rightarrow> world \<Rightarrow> fault + world" where
  "stop_server sctx w =
     bindE (registry_destroy (Some (reg sctx)) w) (\<lambda>(rc, r, w1).
     bindE (table_destroy (database sctx) (Some destroy_value_wrapper) w1) (\<lambda>(rc, w2). Inr w2))"

text \<open>
  \<open>main\<close>. What libuv answers to binding the address, to the file number and to listening is given; \<open>uv_run\<close> is
  the event loop, which calls the callbacks and returns its result. The socket option and TCP_NODELAY are
  asked for, but what is answered is only logged.
\<close>

definition server_main ::
    "int \<Rightarrow> cbuf \<Rightarrow> int \<Rightarrow> int \<Rightarrow> int \<Rightarrow> (server_context \<Rightarrow> world \<Rightarrow> fault + (int \<times> server_context \<times> world)) \<Rightarrow> world \<Rightarrow>
     fault + (int \<times> world)" where
  "server_main argc size_arg bind_err fileno_err listen_err uv_run w =
     (if argc \<noteq> 2 then Inr (- 1, w)
      else
        bindE (start_server size_arg w) (\<lambda>(s, w1).
        case s of
          None \<Rightarrow> Inr (- 1, w1)
        | Some sctx \<Rightarrow>
            if bind_err \<noteq> 0 then Inr (1, w1)
            else if fileno_err \<noteq> 0 then Inr (1, w1)
            else if listen_err \<noteq> 0 then Inr (1, w1)
            else
              bindE (uv_run sctx w1) (\<lambda>(run_result, sctx', w2).
              bindE (stop_server sctx' w2) (\<lambda>w3. Inr (run_result, w3)))))"

end
