(* ===== verification/Server_Buffer.thy ===== *)
theory Server_Buffer
  imports Server Kv_Server
begin

text \<open>
  The read buffer of a connection: the bytes it holds, what consuming and appending do to them, the
  tokens found in them, and how changes outside a database leave the server alone.
\<close>

section \<open>Memory outside the database\<close>

lemma serving_outside:
  assumes "serving w sctx t" and "world_ok w'" and "\<And>a. Ptr a 0 \<in> footprint t \<Longrightarrow> heap w' a = heap w a"
  shows "serving w' sctx t" and "stored w' t = stored w t"
proof -
  note simps = serving_simps [OF assms(1)]
  note out = db_ok_outside [OF simps(2) assms(2,3)]
  show st: "stored w' t = stored w t" using contents_stored [OF out(2)] .
  show "serving w' sctx t" using assms(1) out(1) st by (simp add: serving_def)
qed

section \<open>The unread bytes\<close>

definition pending :: "world \<Rightarrow> client_context \<Rightarrow> byte list" where
  "pending w c = take (unat (buffer_used c)) (block w (buffer c))"

definition buffer_ok :: "world \<Rightarrow> client_context \<Rightarrow> bool" where
  "buffer_ok w c \<longleftrightarrow>
     (case buffer c of
        NULL \<Rightarrow> buffer_used c = 0 \<and> buffer_capacity c = 0
      | Ptr a off \<Rightarrow> off = 0 \<and> buffer_used c \<le> buffer_capacity c \<and>
          (\<exists>bs. heap w a = Some bs \<and> length bs = unat (buffer_capacity c)))"

lemma buffer_ok_block:
  assumes "buffer_ok w c"
  shows "unat (buffer_used c) \<le> length (block w (buffer c))" and "length (pending w c) = unat (buffer_used c)"
proof -
  show 1: "unat (buffer_used c) \<le> length (block w (buffer c))"
    using assms by (auto simp: buffer_ok_def block_def word_le_nat_alt split: ptr.splits)
  then show "length (pending w c) = unat (buffer_used c)" by (simp add: pending_def)
qed

lemma buffer_ok_Ptr:
  assumes "buffer_ok w c" and "pending w c \<noteq> []"
  obtains a bs where "buffer c = Ptr a 0" and "heap w a = Some bs" and "length bs = unat (buffer_capacity c)"
    and "unat (buffer_used c) \<le> length bs" and "pending w c = take (unat (buffer_used c)) bs" and "block w (buffer c) = bs"
  using assms by (auto simp: buffer_ok_def pending_def block_def word_le_nat_alt split: ptr.splits)

text \<open>Taking \<open>k\<close> bytes out of the buffer.\<close>

lemma consume_ok:
  assumes ok: "buffer_ok w c" and k: "0 < k" "k \<le> length (pending w c)"
  obtains a bs where "consume (of_nat k) c w = Inr (c\<lparr>buffer_used := buffer_used c - of_nat k\<rparr>, w\<lparr>heap := (heap w)(a \<mapsto> bs)\<rparr>)"
    and "buffer c = Ptr a 0" and "heap w a \<noteq> None"
    and "buffer_ok (w\<lparr>heap := (heap w)(a \<mapsto> bs)\<rparr>) (c\<lparr>buffer_used := buffer_used c - of_nat k\<rparr>)"
    and "pending (w\<lparr>heap := (heap w)(a \<mapsto> bs)\<rparr>) (c\<lparr>buffer_used := buffer_used c - of_nat k\<rparr>) = drop k (pending w c)"
    and "unat (buffer_used c - of_nat k) = unat (buffer_used c) - k"
proof -
  have "pending w c \<noteq> []" using k by auto
  with ok obtain a bs where a: "buffer c = Ptr a 0" "heap w a = Some bs" "length bs = unat (buffer_capacity c)"
    "unat (buffer_used c) \<le> length bs" "pending w c = take (unat (buffer_used c)) bs" "block w (buffer c) = bs"
    by (rule buffer_ok_Ptr)
  let ?u = "unat (buffer_used c)"
  have ku: "k \<le> ?u" using k(2) a(5) by simp
  then have "k < 2 ^ 64" using unat_size_t_less [of "buffer_used c"] by simp
  then have uk: "unat (of_nat k :: size_t) = k" by (simp add: unat_of_nat)
  then have le: "of_nat k \<le> buffer_used c" using ku by (simp add: word_le_nat_alt)
  then have sub: "unat (buffer_used c - of_nat k) = ?u - k" by (simp add: unat_sub uk)
  let ?bs = "drop k (pending w c) @ drop (?u - k) bs"
  have "load (ptr_add (buffer c) k) (?u - k) w = Inr (drop k (pending w c))"
    using a ku by (simp add: load_def ptr_add_def drop_take)
  moreover have "store (buffer c) (drop k (pending w c)) w = Inr (w\<lparr>heap := (heap w)(a \<mapsto> ?bs)\<rparr>)"
    using a ku by (simp add: store_def)
  ultimately have "consume (of_nat k) c w = Inr (c\<lparr>buffer_used := buffer_used c - of_nat k\<rparr>, w\<lparr>heap := (heap w)(a \<mapsto> ?bs)\<rparr>)"
    by (simp add: consume_def memcpy_def uk sub)
  moreover have "buffer_ok (w\<lparr>heap := (heap w)(a \<mapsto> ?bs)\<rparr>) (c\<lparr>buffer_used := buffer_used c - of_nat k\<rparr>)"
  proof -
    have "buffer_used c - of_nat k \<le> buffer_capacity c"
      using a(3,4) sub by (simp add: word_le_nat_alt)
    moreover have "length ?bs = length bs" using a(4,5) ku by simp
    ultimately show ?thesis using a(1,3) by (simp add: buffer_ok_def)
  qed
  moreover have "pending (w\<lparr>heap := (heap w)(a \<mapsto> ?bs)\<rparr>) (c\<lparr>buffer_used := buffer_used c - of_nat k\<rparr>) = drop k (pending w c)"
    using a ku by (simp add: pending_def block_def sub)
  ultimately show thesis using a(1,2) sub by (intro that [of a ?bs]) simp_all
qed

section \<open>Tokens\<close>

lemma memchr_spec:
  "n \<le> length bs \<Longrightarrow>
   memchr bs c n = Inr (if c \<in> set (take n bs) then Some (length (takeWhile (\<lambda>b. b \<noteq> c) bs)) else None)"
  by (induction bs c n rule: memchr.induct) auto

text \<open>A token ends at the first CR; it is found when the LF has arrived, too.\<close>

lemma find_crlf_token:
  assumes ok: "buffer_ok w c" and tok: "pending w c @ future = D @ 13 # 10 # rest" "13 \<notin> set D" and ne: "pending w c \<noteq> []"
  shows "find_crlf c w = Inr (if length D + 2 \<le> length (pending w c) then Some (length D) else None)"
proof -
  from ok ne obtain a bs where a: "buffer c = Ptr a 0" "heap w a = Some bs" "length bs = unat (buffer_capacity c)"
    "unat (buffer_used c) \<le> length bs" "pending w c = take (unat (buffer_used c)) bs" "block w (buffer c) = bs"
    by (rule buffer_ok_Ptr)
  let ?u = "unat (buffer_used c)"
  have len: "length (pending w c) = ?u" using a(4,5) by simp
  have p: "take ?u bs = take ?u (D @ 13 # 10 # rest)"
  proof -
    have "take ?u bs = take ?u (pending w c @ future)" using a(4,5) by simp
    also have "\<dots> = take ?u (D @ 13 # 10 # rest)" by (simp only: tok(1))
    finally show ?thesis .
  qed
  show ?thesis
  proof (cases "?u \<le> length D")
    case True
    then have "13 \<notin> set (take ?u bs)" using p tok(2) by (auto dest: in_set_takeD)
    with True show ?thesis using a(4,6) by (simp add: find_crlf_def memchr_spec len)
  next
    case False
    have cut: "take (length D + 1) bs = D @ [13]"
    proof -
      have "take (length D + 1) bs = take (length D + 1) (take ?u bs)" using False by (simp add: min_def)
      also have "\<dots> = D @ [13]" using False by (simp add: p min_def)
      finally show ?thesis .
    qed
    then obtain tl where tl: "bs = D @ 13 # tl" by (metis append_Cons append_Nil append_assoc append_take_drop_id)
    then have idx: "13 \<in> set (take ?u bs)" "length (takeWhile (\<lambda>b. b \<noteq> 13) bs) = length D"
      using False tok(2) by (auto simp: takeWhile_append take_Cons' Suc_diff_le)
    show ?thesis
    proof (cases "?u = length D + 1")
      case True
      then show ?thesis using a(4,6) idx by (simp add: find_crlf_def memchr_spec len)
    next
      case More: False
      have "bs ! (length D + 1) = (take ?u bs) ! (length D + 1)" using False More by simp
      also have "\<dots> = 10" using False More by (simp add: p nth_append)
      finally have "load (ptr_add (buffer c) (length D + 1)) 1 w = Inr [10]"
        using a(1,2,4) False More by (simp add: load_def ptr_add_def take_Suc_conv_app_nth [of 0] Cons_nth_drop_Suc [symmetric])
      with False More show ?thesis using a(4,6) idx by (simp add: find_crlf_def memchr_spec len)
    qed
  qed
qed

lemma strtol_digits:
  assumes "n < 2 ^ 63" and "\<not> is_digit b"
  shows "strtol (nat_digits n @ b # s) = Inr (of_nat n)"
proof -
  obtain c ds where cs: "nat_digits n = c # ds" by (cases "nat_digits n") (simp_all add: nat_digits.simps [of n] split: if_splits)
  have dig: "\<forall>x \<in> set (nat_digits n). is_digit x" using nat_digits_are_digits by auto
  then have "is_digit c" by (simp add: cs)
  then have c: "\<not> isspace c" "c \<noteq> 43" "c \<noteq> 45"
    by (auto simp: is_digit_def isspace_def word_le_nat_alt dest: arg_cong [of _ _ unat])
  have split: "takeWhile is_digit (c # ds @ b # s) = c # ds" "dropWhile is_digit (c # ds @ b # s) = b # s"
    using dig assms(2) by (simp_all add: cs)
  have "dropWhile isspace (c # ds @ b # s) = c # ds @ b # s" using c by simp
  moreover have "digits_value (c # ds) 0 = n" using nat_digits_value [of n] by (simp add: cs)
  ultimately show ?thesis using split c assms
    by (simp add: strtol_def cs Let_def del: takeWhile.simps dropWhile.simps digits_value.simps)
qed

lemma small_long: "n \<le> 8192 \<Longrightarrow> sint (of_nat n :: 64 word) = int n"
  by (simp add: signed_of_nat signed_take_bit_int_eq_self)

section \<open>Growing the buffer\<close>

definition without :: "ptr \<Rightarrow> (nat \<Rightarrow> byte list option) \<Rightarrow> nat \<Rightarrow> byte list option" where
  "without p h = (case p of NULL \<Rightarrow> h | Ptr a off \<Rightarrow> h(a := None))"

lemma without_other: "p \<noteq> Ptr a 0 \<Longrightarrow> (\<And>b off. p = Ptr b off \<Longrightarrow> off = 0) \<Longrightarrow> without p h a = h a"
  by (cases p) (auto simp: without_def)

lemma realloc_grants:
  assumes ok: "world_ok w" and quiet: "sys_fails w = []" and n: "0 < unat n" "unat n < 2 ^ 63"
    and p: "p = NULL \<or> live w p"
  obtains w' where "realloc p n w = Inr (Ptr (fresh w) 0, w')"
    and "heap w' = (without p (heap w))(fresh w \<mapsto> take (unat n) (block w p) @ drop (length (block w p)) (raw w (unat n)))"
    and "fresh w' = Suc (fresh w)" and "sys_fails w' = []" and "world_ok w'"
proof (cases p)
  case NULL
  let ?w = "w\<lparr>heap := (heap w)(fresh w := Some (raw w (unat n))), fresh := Suc (fresh w)\<rparr>"
  have "world_ok ?w" using ok by (auto simp: world_ok_def less_Suc_eq)
  with NULL quiet n show thesis
    by (intro that [of ?w]) (simp_all add: realloc_def malloc_no_fails without_def block_def)
next
  case (Ptr a off)
  with p obtain bs where off: "off = 0" and bs: "heap w a = Some bs" by auto
  have a: "a \<noteq> fresh w" using bs ok by (auto simp: world_ok_def)
  let ?k = "min (unat n) (length bs)"
  let ?new = "take ?k bs @ drop ?k (raw w (unat n))"
  let ?w = "w\<lparr>heap := (heap w)(fresh w \<mapsto> ?new, a := None), fresh := Suc (fresh w)\<rparr>"
  have "realloc p n w = Inr (Ptr (fresh w) 0, ?w)"
    using Ptr off bs a quiet n
    by (simp add: realloc_def malloc_no_fails block_def store_def free_def Let_def unat_eq_0 [symmetric])
  moreover have "?new = take (unat n) bs @ drop (length bs) (raw w (unat n))" by (simp add: min_def)
  moreover have "world_ok ?w" using ok by (auto simp: world_ok_def less_Suc_eq)
  ultimately show thesis using Ptr off bs a quiet
    by (intro that [of ?w]) (simp_all add: without_def block_def fun_upd_twist)
qed

text \<open>The new bytes are written behind the unread ones of a block that has room.\<close>

lemma write_tail:
  assumes a: "heap w a = Some bs" and room: "u + length chunk \<le> length bs"
    and src: "heap w b = Some ds" "take (length chunk) ds = chunk"
  shows "memcpy (ptr_add (Ptr a 0) u) (Ptr b 0) (length chunk) w =
    Inr (w\<lparr>heap := (heap w)(a \<mapsto> take u bs @ chunk @ drop (u + length chunk) bs)\<rparr>)"
proof -
  have "length chunk \<le> length ds" using src(2) by (metis length_take min.cobounded1)
  then show ?thesis using assms by (simp add: memcpy_def load_def store_def ptr_add_def)
qed

text \<open>
  Appending, when memory is granted: the new bytes follow the unread ones; of the other blocks only the
  old buffer may be gone.
\<close>

text \<open>The bytes of a chunk, copied behind those that are there.\<close>

lemma append_tail:
  fixes c :: client_context and cap len :: size_t and a b :: nat
  defines "c' \<equiv> c\<lparr>buffer := Ptr a 0, buffer_capacity := cap, buffer_used := buffer_used c + len\<rparr>"
  assumes un: "unat (buffer_used c + len) = unat (buffer_used c) + length chunk" and u: "length bytes = unat (buffer_used c)"
    and bs: "heap w a = Some bs" "length bs = unat cap" "unat (buffer_used c) + length chunk \<le> length bs"
      "take (unat (buffer_used c)) bs = bytes"
    and src: "heap w b = Some ds" "take (length chunk) ds = chunk" and ok: "world_ok w"
  obtains w' where "bindE (memcpy (ptr_add (Ptr a 0) (unat (buffer_used c))) (Ptr b 0) (length chunk) w) (\<lambda>w2. Inr (c', w2)) = Inr (c', w')"
    and "buffer_ok w' c'" and "pending w' c' = bytes @ chunk" and "world_ok w'" and "sys_fails w' = sys_fails w"
    and "fresh w' = fresh w" and "\<And>x. x \<noteq> a \<Longrightarrow> heap w' x = heap w x"
proof -
  let ?u = "unat (buffer_used c)" and ?n = "length chunk"
  let ?new = "take ?u bs @ chunk @ drop (?u + ?n) bs"
  let ?w = "w\<lparr>heap := (heap w)(a \<mapsto> ?new)\<rparr>"
  have "buffer_ok ?w c'" using bs(2,3) un by (simp add: buffer_ok_def word_le_nat_alt c'_def)
  moreover have "pending ?w c' = bytes @ chunk"
  proof -
    have "pending ?w c' = take (length bytes + ?n) (bytes @ chunk @ drop (?u + ?n) bs)"
      unfolding pending_def by (simp add: block_def un u bs(4) c'_def)
    then show ?thesis by simp
  qed
  moreover have "world_ok ?w" using ok bs(1) by (auto simp: world_ok_def)
  ultimately show thesis using write_tail [OF bs(1,3) src] by (intro that [of ?w]) simp_all
qed

text \<open>The capacity is doubled, or made as large as is needed.\<close>

lemma grown_capacity:
  fixes cap need :: size_t
  defines "doubled \<equiv> if cap = 0 then 1024 else cap * 2"
  defines "new \<equiv> if doubled < need then need else doubled"
  assumes "cap < need" and "unat need < 2 ^ 30"
  shows "unat new < 2 ^ 32" and "need \<le> new"
proof -
  have "unat cap < 2 ^ 30" using assms(3,4) by (simp add: word_less_nat_alt)
  then have "unat doubled < 2 ^ 32" by (simp add: doubled_def unat_word_ariths)
  then show "unat new < 2 ^ 32" using assms(4) by (simp add: new_def)
  show "need \<le> new" by (simp add: new_def not_less)
qed

lemma append_ok:
  assumes ok: "world_ok w" and quiet: "sys_fails w = []" and buf: "buffer_ok w c" and ne: "chunk \<noteq> []"
    and src: "heap w b = Some ds" "take (length chunk) ds = chunk" "buffer c \<noteq> Ptr b 0"
    and size: "length (pending w c) + length chunk < 2 ^ 30" "unat (buffer_capacity c) < 2 ^ 32"
  obtains (appended) p cap w' where "append_to_buffer c (Ptr b 0) (of_nat (length chunk)) w =
      Inr (c\<lparr>buffer := p, buffer_capacity := cap, buffer_used := buffer_used c + of_nat (length chunk)\<rparr>, w')"
    and "buffer_ok w' (c\<lparr>buffer := p, buffer_capacity := cap, buffer_used := buffer_used c + of_nat (length chunk)\<rparr>)"
    and "pending w' (c\<lparr>buffer := p, buffer_capacity := cap, buffer_used := buffer_used c + of_nat (length chunk)\<rparr>) = pending w c @ chunk"
    and "p = buffer c \<or> p = Ptr (fresh w) 0" and "unat cap < 2 ^ 32" and "world_ok w'" and "sys_fails w' = []"
    and "\<And>a. buffer c \<noteq> Ptr a 0 \<Longrightarrow> a \<noteq> fresh w \<Longrightarrow> heap w' a = heap w a" and "fresh w \<le> fresh w'"
proof -
  let ?n = "length chunk" and ?u = "unat (buffer_used c)" and ?cap = "unat (buffer_capacity c)"
  let ?len = "of_nat ?n :: size_t"
  have u: "length (pending w c) = ?u" using buffer_ok_block [OF buf] by simp
  have n: "unat ?len = ?n" using size(1) by (simp add: unat_of_nat)
  have un: "unat (buffer_used c + ?len) = ?u + ?n" using size(1) u n by (simp add: unat_word_ariths)
  have pos: "0 < ?n" using ne by simp
  have fin: thesis if run: "append_to_buffer c (Ptr b 0) ?len w =
        bindE (memcpy (ptr_add (Ptr a 0) ?u) (Ptr b 0) ?n w1)
          (\<lambda>w2. Inr (c\<lparr>buffer := Ptr a 0, buffer_capacity := cap, buffer_used := buffer_used c + ?len\<rparr>, w2))"
      and bs: "heap w1 a = Some bs" "length bs = unat cap" "?u + ?n \<le> length bs" "take ?u bs = pending w c"
      and p: "Ptr a 0 = buffer c \<or> a = fresh w" and cap: "unat cap < 2 ^ 32" and ok1: "world_ok w1" "sys_fails w1 = []"
      and frame: "\<And>a. buffer c \<noteq> Ptr a 0 \<Longrightarrow> a \<noteq> fresh w \<Longrightarrow> heap w1 a = heap w a" and fr: "fresh w \<le> fresh w1"
      for a bs cap w1
  proof -
    have "b \<noteq> fresh w" using src(1) ok by (auto simp: world_ok_def)
    then have b: "heap w1 b = Some ds" using src(1,3) frame by simp
    from un u bs b src(2) ok1(1) show thesis
    proof (rule append_tail)
      fix w' assume A: "bindE (memcpy (ptr_add (Ptr a 0) ?u) (Ptr b 0) ?n w1)
          (\<lambda>w2. Inr (c\<lparr>buffer := Ptr a 0, buffer_capacity := cap, buffer_used := buffer_used c + ?len\<rparr>, w2)) =
          Inr (c\<lparr>buffer := Ptr a 0, buffer_capacity := cap, buffer_used := buffer_used c + ?len\<rparr>, w')"
        "buffer_ok w' (c\<lparr>buffer := Ptr a 0, buffer_capacity := cap, buffer_used := buffer_used c + ?len\<rparr>)"
        "pending w' (c\<lparr>buffer := Ptr a 0, buffer_capacity := cap, buffer_used := buffer_used c + ?len\<rparr>) = pending w c @ chunk"
        "world_ok w'" "sys_fails w' = sys_fails w1" "fresh w' = fresh w1" "\<And>x. x \<noteq> a \<Longrightarrow> heap w' x = heap w1 x"
      have "heap w' x = heap w x" if "buffer c \<noteq> Ptr x 0" "x \<noteq> fresh w" for x
        using A(7) [of x] frame [OF that] that p by metis
      with A(1-6) run p cap ok1(2) fr show thesis by (intro appended [where p = "Ptr a 0" and cap = cap and w' = w']) auto
    qed
  qed
  show thesis
  proof (cases "buffer_used c + ?len > buffer_capacity c")
    case False
    then have room: "?u + ?n \<le> ?cap" using un by (simp add: word_less_nat_alt)
    then obtain a bs where a: "buffer c = Ptr a 0" "heap w a = Some bs" "length bs = ?cap"
      using buf pos by (auto simp: buffer_ok_def split: ptr.splits)
    have "take ?u bs = pending w c" using a by (simp add: pending_def block_def)
    moreover have "append_to_buffer c (Ptr b 0) ?len w =
        bindE (memcpy (ptr_add (Ptr a 0) ?u) (Ptr b 0) ?n w)
          (\<lambda>w2. Inr (c\<lparr>buffer := Ptr a 0, buffer_capacity := buffer_capacity c, buffer_used := buffer_used c + ?len\<rparr>, w2))"
      unfolding append_to_buffer_def a(1) [symmetric] using False n by simp
    ultimately show thesis
      using a room size(2) ok quiet by (intro fin [where a = a and cap = "buffer_capacity c" and ?w1.0 = w and bs = bs]) simp_all
  next
    case True
    define doubled where "doubled = (if buffer_capacity c = 0 then 1024 else buffer_capacity c * 2)"
    define cap where "cap = (if doubled < buffer_used c + ?len then buffer_used c + ?len else doubled)"
    have "unat (buffer_used c + ?len) < 2 ^ 30" using un u size(1) by simp
    note grown = grown_capacity [OF True this, folded doubled_def, folded cap_def]
    have cap: "unat cap < 2 ^ 32" "?u + ?n \<le> unat cap" using grown un by (simp_all add: word_le_nat_alt)
    have "0 < unat cap" using cap(2) pos by linarith
    moreover have "unat cap < 2 ^ 63" using cap(1) by simp
    moreover have "buffer c = NULL \<or> live w (buffer c)" using buf by (auto simp: buffer_ok_def split: ptr.splits)
    ultimately obtain w1 where w1: "realloc (buffer c) cap w = Inr (Ptr (fresh w) 0, w1)"
      "heap w1 = (without (buffer c) (heap w))(fresh w \<mapsto> take (unat cap) (block w (buffer c)) @ drop (length (block w (buffer c))) (raw w (unat cap)))"
      "fresh w1 = Suc (fresh w)" "sys_fails w1 = []" "world_ok w1"
      using ok quiet by (rule_tac realloc_grants [of w cap "buffer c"]) auto
    let ?bs = "take (unat cap) (block w (buffer c)) @ drop (length (block w (buffer c))) (raw w (unat cap))"
    have "?u \<le> length (block w (buffer c))" by (rule buffer_ok_block [OF buf])
    then have "take ?u ?bs = pending w c" using cap(2) by (simp add: pending_def min_def)
    moreover have "heap w1 a = heap w a" if "buffer c \<noteq> Ptr a 0" "a \<noteq> fresh w" for a
      using that w1(2) buf without_other [of "buffer c" a "heap w"] by (auto simp: buffer_ok_def split: ptr.splits)
    ultimately show thesis
      using True w1 cap n by (intro fin [where a = "fresh w" and cap = cap and ?w1.0 = w1 and bs = ?bs])
        (simp_all add: append_to_buffer_def Let_def flip: doubled_def cap_def)
  qed
qed

end
