(* ===== verification/Parser_Loop.thy ===== *)
theory Parser_Loop
  imports Server_Buffer
begin

text \<open>
  The loop of \<open>parse_buffer\<close> on any bytes whatever: it ends, and the numbers the parser keeps stay within the
  limits it checks. Nothing is assumed of the memory or of the commands here.
\<close>

section \<open>Progress of a round\<close>

definition bounded :: "client_context \<Rightarrow> bool" where
  "bounded c \<longleftrightarrow> unat (args_total c) \<le> 1024 \<and> unat (data_to_read c) \<le> 8192"

definition used :: "client_context \<Rightarrow> nat" where
  "used c = unat (buffer_used c)"

lemma bounded_fields [simp]:
  "bounded (uv_call u c) = bounded c" "bounded (c\<lparr>buffer_used := n\<rparr>) = bounded c" "bounded (c\<lparr>pstate := s\<rparr>) = bounded c"
  "bounded (c\<lparr>args_parsed := n\<rparr>) = bounded c" "bounded (c\<lparr>argv_slots := ps\<rparr>) = bounded c"
  "bounded (c\<lparr>length_slots := ns\<rparr>) = bounded c" "bounded (c\<lparr>temp_argv := p\<rparr>) = bounded c"
  "bounded (c\<lparr>temp_arg_lengths := p\<rparr>) = bounded c" "bounded (c\<lparr>buffer := p\<rparr>) = bounded c"
  "bounded (c\<lparr>buffer_capacity := n\<rparr>) = bounded c"
  "used (uv_call u c) = used c" "used (c\<lparr>pstate := s\<rparr>) = used c" "used (c\<lparr>args_parsed := n\<rparr>) = used c"
  "used (c\<lparr>argv_slots := ps\<rparr>) = used c" "used (c\<lparr>length_slots := ns\<rparr>) = used c" "used (c\<lparr>temp_argv := p\<rparr>) = used c"
  "used (c\<lparr>temp_arg_lengths := p\<rparr>) = used c" "used (c\<lparr>args_total := n\<rparr>) = used c" "used (c\<lparr>data_to_read := n\<rparr>) = used c"
  by (simp_all add: bounded_def used_def uv_call_def)

lemma consume_used:
  assumes "consume k c w = Inr (c', w')" and "k \<le> buffer_used c"
  shows "c' = c\<lparr>buffer_used := buffer_used c - k\<rparr>" and "used c' = used c - unat k"
  using assms by (auto simp: consume_def bindE_eq_Inr used_def unat_sub)

lemma bindE_InrE: "bindE m f = Inr y \<Longrightarrow> (\<And>x. m = Inr x \<Longrightarrow> f x = Inr y \<Longrightarrow> P) \<Longrightarrow> P"
  by (cases m) auto

lemma of_nat_le_used:
  assumes "k \<le> used c"
  shows "of_nat k \<le> buffer_used c" and "unat (of_nat k :: size_t) = k"
proof -
  have "k < 2 ^ 64" using assms unat_size_t_less [of "buffer_used c"] by (simp add: used_def)
  then show "unat (of_nat k :: size_t) = k" by (simp add: unat_of_nat)
  with assms show "of_nat k \<le> buffer_used c" by (simp add: word_le_nat_alt used_def)
qed

lemma find_crlf_used:
  assumes "find_crlf c w = Inr (Some i)"
  shows "i + 2 \<le> used c"
  using assms unfolding find_crlf_def used_def
  by (elim bindE_InrE) (auto elim!: bindE_InrE split: option.split_asm if_split_asm)

lemma skip_newlines_le: "skip_newlines bs n = Inr k \<Longrightarrow> k \<le> n"
  by (induction bs n arbitrary: k rule: skip_newlines.induct) (auto simp: bindE_eq_Inr split: if_splits)

text \<open>The operations that leave the numbers of the parser alone.\<close>

definition same_numbers :: "client_context \<Rightarrow> client_context \<Rightarrow> bool" where
  "same_numbers c c' \<longleftrightarrow> bounded c' = bounded c \<and> used c' = used c"

lemma same_numbers_refl [simp, intro]: "same_numbers c c" "same_numbers c (uv_call u c)"
  by (simp_all add: same_numbers_def)

lemma free_parser_resources_numbers:
  assumes "free_parser_resources c w = Inr (c', w')"
  shows "same_numbers c c'"
  using assms unfolding free_parser_resources_def same_numbers_def
  by (cases "temp_argv c = NULL"; cases "temp_arg_lengths c = NULL") (auto elim!: bindE_InrE)

lemma give_up_numbers:
  assumes "give_up c w = Inr (c', w')"
  shows "same_numbers c c'"
  using assms unfolding give_up_def
  by (auto elim!: bindE_InrE dest: free_parser_resources_numbers simp: same_numbers_def)

text \<open>The rounds that go on take bytes out of the buffer.\<close>

definition shrinks :: "client_context \<Rightarrow> bool \<Rightarrow> client_context \<Rightarrow> bool" where
  "shrinks c go c' \<longleftrightarrow> bounded c' \<and> (go \<longrightarrow> used c' < used c)"

lemma long_in_range:
  fixes l :: "64 word"
  assumes "0 \<le> sint l" and "sint l \<le> int n" and "n < 2 ^ 63"
  shows "unat l \<le> n"
proof -
  have "sint l < 2 ^ 64" using assms(2,3) by simp
  then have "uint l = sint l" using assms(1) by (simp add: uint_sint take_bit_int_eq_self)
  with assms(2) show ?thesis by (simp add: unat_eq_nat_uint)
qed

lemma nonneg_long: "0 \<le> sint l \<Longrightarrow> long_to_sizet l (Some f) = (l, Some False)"
  by (simp add: long_to_sizet_def word_not_simps)

lemma header_taken:
  assumes "consume (2 + of_nat i) c w = Inr (c', w')" and "find_crlf c1 w1 = Inr (Some i)" and "buffer_used c = buffer_used c1"
  shows "bounded c' = bounded c" and "used c' < used c1"
proof -
  have i: "i + 2 \<le> used c1" using assms(2) by (rule find_crlf_used)
  have "i + 2 \<le> used c" using i assms(3) by (simp add: used_def)
  note le = of_nat_le_used [OF this]
  have eq: "of_nat (i + 2) = (2 + of_nat i :: size_t)" by simp
  note run = consume_used [OF assms(1) le(1) [unfolded eq]]
  show "bounded c' = bounded c" using run(1) by simp
  show "used c' < used c1" using run(2) le(2) [unfolded eq] i assms(3) by (simp add: used_def)
qed

lemma type_shrinks:
  assumes b: "bounded c" and run: "parse_type c w = Inr (go, c', w')"
  shows "shrinks c go c'"
proof -
  obtain k c1 w1 where k: "k \<le> used c" "(if k > 0 then consume (of_nat k) c w else Inr (c, w)) = Inr (c1, w1)"
    and rest: "(if buffer_used c1 < 1 then Inr (False, c1, w1)
     else
       bindE (first_byte c1 w1) (\<lambda>b.
       if b \<noteq> 42 then Inr (False, uv_call Uv_close_client c1, w1)
       else
         bindE (find_crlf c1 w1) (\<lambda>crlf.
         case crlf of
           None \<Rightarrow> Inr (False, c1, w1)
         | Some i \<Rightarrow>
             bindE (strtol (drop 1 (block w1 (buffer c1)))) (\<lambda>n_args.
             if sint n_args \<le> 0 \<or> sint n_args > 1024 then Inr (False, uv_call Uv_close_client c1, w1)
             else
               let (total, err) = long_to_sizet n_args (Some False);
                   c2 = c1\<lparr>args_total := total\<rparr> in
               if err = Some True then Inr (False, uv_call Uv_close_client c2, w1)
               else
                 bindE (consume (of_nat (i + 2)) (c2\<lparr>args_parsed := 0, pstate := PARSE_STATE_EXPECT_LENGTH\<rparr>) w1)
                   (\<lambda>(c3, w2). Inr (True, c3, w2)))))) = Inr (go, c', w')"
    using run unfolding parse_type_def used_def by (auto simp: bindE_eq_Inr dest: skip_newlines_le)
  have c1: "bounded c1" "used c1 \<le> used c"
    using k b consume_used [of "of_nat k" c w c1 w1] of_nat_le_used(1) [OF k(1)] by (auto split: if_splits)
  have total: "bounded (c1\<lparr>args_total := l\<rparr>)" if "\<not> sint l \<le> 0" "\<not> 1024 < sint l" for l
    using long_in_range [of l 1024] that c1(1) by (simp add: bounded_def)
  have taken: "bounded c' \<and> used c' < used c" if "\<not> sint l \<le> 0" "\<not> 1024 < sint l" "find_crlf c1 w1 = Inr (Some i)"
    "consume (2 + of_nat i) (c1\<lparr>args_total := l, args_parsed := 0, pstate := PARSE_STATE_EXPECT_LENGTH\<rparr>) w1 = Inr (c', w')"
    for l i
    using header_taken [OF that(4,3)] total [OF that(1,2)] c1(2) by simp
  show ?thesis
    using rest c1 by (auto simp: bindE_eq_Inr shrinks_def nonneg_long split: if_splits option.splits
        intro!: total) (blast dest: taken)+
qed

lemma length_shrinks:
  assumes b: "bounded c" and run: "parse_length c w = Inr (go, c', w')"
  shows "shrinks c go c'"
proof -
  have len: "bounded (c\<lparr>data_to_read := l\<rparr>)" if "\<not> sint l < 0" "\<not> 8192 < sint l" for l
    using long_in_range [of l 8192] that b by (simp add: bounded_def)
  have taken: "bounded c' \<and> used c' < used c" if "\<not> sint l < 0" "\<not> 8192 < sint l" "find_crlf c w = Inr (Some i)"
    "consume (2 + of_nat i) (c\<lparr>data_to_read := l, pstate := PARSE_STATE_EXPECT_DATA\<rparr>) w = Inr (c', w')" for l i
    using header_taken [OF that(4,3)] len [OF that(1,2)] by simp
  show ?thesis
    using run b unfolding parse_length_def
    by (auto simp: bindE_eq_Inr shrinks_def nonneg_long split: if_splits option.splits intro!: len) (blast dest: taken)+
qed

lemma send_reply_numbers:
  assumes "send_reply pf x c w = Inr (go, c', w')"
  shows "same_numbers c c'"
  using assms unfolding send_reply_def Let_def case_prod_unfold
  by (auto elim!: bindE_InrE split: if_split_asm) (blast dest: give_up_numbers)+

lemma run_request_numbers:
  assumes "run_request pf sctx c w = Inr (go, sctx', c', w')"
  shows "same_numbers c c'"
proof (cases "sizet_to_int (args_total c - 1) (Some False)")
  case (Pair argc err)
  show ?thesis
  proof (cases "err = Some True")
    case True
    then show ?thesis using assms Pair unfolding run_request_def
      by (auto elim!: bindE_InrE) (blast dest: give_up_numbers)
  next
    case False
    with Pair assms obtain x w1 where "send_reply pf x c w1 = Inr (go, c', w')"
      unfolding run_request_def by (auto elim!: bindE_InrE simp only: Let_def split: prod.split_asm if_split_asm)
    then show ?thesis by (rule send_reply_numbers)
  qed
qed

lemma alloc_vectors_numbers: "alloc_vectors c w = (c', w', granted) \<Longrightarrow> same_numbers c c'"
  by (auto simp: alloc_vectors_def Let_def same_numbers_def bounded_def used_def split: prod.split_asm)

lemma take_argument_numbers:
  assumes "take_argument c w = Inr (c', w', granted)"
  shows "same_numbers c c'"
  using assms unfolding take_argument_def Let_def case_prod_unfold
  by (auto elim!: bindE_InrE split: if_split_asm simp: same_numbers_def)

lemma same_numbers_trans: "same_numbers c c1 \<Longrightarrow> same_numbers c1 c2 \<Longrightarrow> same_numbers c c2"
  by (simp add: same_numbers_def)

lemma data_shrinks:
  assumes b: "bounded c" and run: "parse_data pf sctx c w = Inr (go, sctx', c', w')"
  shows "shrinks c go c'"
proof (cases "buffer_used c < data_to_read c + 2")
  case True
  with run b show ?thesis by (simp add: parse_data_def shrinks_def)
next
  case enough: False
  obtain c1 w1 granted where A: "(if args_parsed c = 0 then alloc_vectors c w else (c, w, True)) = (c1, w1, granted)"
    by (cases "if args_parsed c = 0 then alloc_vectors c w else (c, w, True)") auto
  then have s1: "same_numbers c c1" using alloc_vectors_numbers by (auto split: if_splits)
  have given: "shrinks c False d" if "same_numbers c d" for d using that b by (simp add: shrinks_def same_numbers_def)
  show ?thesis
  proof (cases granted)
    case False
    with run enough A obtain w2 where "give_up c1 w1 = Inr (c', w2)" "go = False"
      by (auto simp: parse_data_def elim!: bindE_InrE)
    with given same_numbers_trans [OF s1 give_up_numbers] show ?thesis by blast
  next
    case True
    with run enough A obtain c2 w2 g2 where B: "take_argument c1 w1 = Inr (c2, w2, g2)"
      and rest: "(if \<not> g2 then bindE (give_up c2 w2) (\<lambda>(c3, w3). Inr (False, sctx, c3, w3))
          else
            bindE (consume (data_to_read c + 2) c2 w2) (\<lambda>(c3, w3).
            if args_parsed c3 = args_total c3 then run_request pf sctx c3 w3
            else Inr (True, sctx, c3\<lparr>pstate := PARSE_STATE_EXPECT_LENGTH\<rparr>, w3))) = Inr (go, sctx', c', w')"
      by (auto simp: parse_data_def elim!: bindE_InrE)
    have s2: "same_numbers c c2" using s1 take_argument_numbers [OF B] by (rule same_numbers_trans)
    show ?thesis
    proof (cases g2)
      case False
      with rest obtain w3 where "give_up c2 w2 = Inr (c', w3)" "go = False" by (auto elim!: bindE_InrE)
      with given same_numbers_trans [OF s2 give_up_numbers] show ?thesis by blast
    next
      case True
      with rest obtain c3 w3 where C: "consume (data_to_read c + 2) c2 w2 = Inr (c3, w3)"
        and fin: "(if args_parsed c3 = args_total c3 then run_request pf sctx c3 w3
            else Inr (True, sctx, c3\<lparr>pstate := PARSE_STATE_EXPECT_LENGTH\<rparr>, w3)) = Inr (go, sctx', c', w')"
        by (auto elim!: bindE_InrE)
      have two: "2 \<le> unat (data_to_read c + 2)" using b by (simp add: bounded_def unat_word_ariths)
      have "buffer_used c2 = buffer_used c" using s2 by (simp add: same_numbers_def used_def word_unat_eq_iff)
      then have le: "data_to_read c + 2 \<le> buffer_used c2" using enough by simp
      then have "unat (data_to_read c + 2) \<le> used c2" by (simp add: used_def word_le_nat_alt)
      then have "bounded c3" "used c3 < used c" using consume_used [OF C le] s2 b two by (simp_all add: same_numbers_def)
      moreover have "same_numbers c3 c'" using fin run_request_numbers [of pf sctx c3 w3 go sctx' c' w']
        by (auto simp: same_numbers_def split: if_split_asm)
      ultimately show ?thesis by (simp add: shrinks_def same_numbers_def)
    qed
  qed
qed

lemma step_shrinks:
  assumes "bounded c" and "parse_step pf sctx c w = Inr (go, sctx', c', w')"
  shows "shrinks c go c'"
  using assms type_shrinks length_shrinks data_shrinks unfolding parse_step_def
  by (cases "pstate c") (fastforce elim!: bindE_InrE)+

section \<open>The loop ends\<close>

text \<open>
  The loop as the source has it, without a counter: \<open>parses pf s r\<close> holds when \<open>while (true)\<close>, entered in the
  state \<open>s\<close>, is left with \<open>r\<close>.
\<close>

inductive parses ::
    "platform \<Rightarrow> server_context \<times> client_context \<times> world \<Rightarrow> fault + (server_context \<times> client_context \<times> world) \<Rightarrow> bool"
  for pf where
  leaves: "parse_step pf sctx c w = Inr (False, s) \<Longrightarrow> parses pf (sctx, c, w) (Inr s)"
| faults: "parse_step pf sctx c w = Inl e \<Longrightarrow> parses pf (sctx, c, w) (Inl e)"
| repeats: "parse_step pf sctx c w = Inr (True, s) \<Longrightarrow> parses pf s r \<Longrightarrow> parses pf (sctx, c, w) r"

inductive_cases parsesE: "parses pf (sctx, c, w) r"

lemma parses_loop:
  assumes "bounded c" and "used c < n"
  shows "parses pf (sctx, c, w) (parse_loop n pf sctx c w)"
  using assms
proof (induction n arbitrary: sctx c w)
  case (Suc n)
  show ?case
  proof (cases "parse_step pf sctx c w")
    case (Inl e)
    then show ?thesis by (simp add: parses.faults)
  next
    case (Inr x)
    obtain go sctx' c' w' where x: "x = (go, sctx', c', w')" by (cases x)
    have sh: "shrinks c go c'" using Suc.prems(1) Inr x by (intro step_shrinks) simp_all
    show ?thesis
    proof (cases go)
      case True
      then have "bounded c'" "used c' < n" using sh Suc.prems(2) by (simp_all add: shrinks_def)
      with True Inr x Suc.IH show ?thesis by (auto intro: parses.repeats)
    next
      case False
      with Inr x show ?thesis by (simp add: parses.leaves)
    qed
  qed
qed simp

lemma parses_unique: "parses pf s r \<Longrightarrow> parses pf s r' \<Longrightarrow> r = r'"
proof (induction arbitrary: r' rule: parses.induct)
  case (repeats sctx c w s r)
  from repeats.prems show ?case
    by (rule parsesE) (use repeats.hyps(1) repeats.IH in simp_all)
qed (erule parsesE; simp)+

text \<open>C23. The loop of \<open>parse_buffer\<close> always ends, whatever bytes are in the buffer and whatever the memory and
  the commands do, as long as the number of bytes it waits for is within the limit it checks: it is left
  with exactly one result, the one of \<open>parse_buffer\<close>, and any larger number of rounds gives the same.\<close>

theorem parse_buffer_ends:
  assumes "unat (args_total c) \<le> 1024" and "unat (data_to_read c) \<le> 8192" and "unat (buffer_used c) < n"
  shows "(parses pf (sctx, c, w) r \<longleftrightarrow> r = parse_buffer pf sctx c w) \<and>
    parse_loop n pf sctx c w = parse_buffer pf sctx c w"
proof -
  have b: "bounded c" using assms by (simp add: bounded_def)
  have run: "parses pf (sctx, c, w) (parse_buffer pf sctx c w)"
    unfolding parse_buffer_def by (rule parses_loop [OF b]) (simp add: used_def)
  moreover have "parses pf (sctx, c, w) (parse_loop n pf sctx c w)"
    using assms(3) by (intro parses_loop [OF b]) (simp add: used_def)
  ultimately show ?thesis by (metis parses_unique)
qed

text \<open>The spare bytes of a 64-bit allocator with blocks of 24, 40, 56, ... usable bytes.\<close>

definition platform0 :: platform where
  "platform0 = \<lparr>sizeof_client_context = 552, sizeof_write_req = 216, spare = (\<lambda>n. if n \<le> 24 then 24 - n else (8 + 15 * n) mod 16)\<rparr>"

definition junk_client :: client_context where
  "junk_client = (zero_context (Ptr 7 0))\<lparr>buffer := Ptr 4 0, buffer_used := 3, buffer_capacity := 3\<rparr>"

definition junk_world :: world where
  "junk_world = \<lparr>heap = [4 \<mapsto> [10, 88, 10]], fresh = 8, sys_fails = [], junk = (\<lambda>a k. 0)\<rparr>"

text \<open>A line break is skipped, and the connection is closed at the first byte that is no asterisk.\<close>

theorem parse_buffer_ends_witness:
  "\<forall>pf sctx. parses pf (sctx, junk_client, junk_world)
     (Inr (sctx, junk_client\<lparr>buffer_used := 2, calls := [Uv_close_client]\<rparr>, junk_world\<lparr>heap := [4 \<mapsto> [88, 10, 10]]\<rparr>))"
proof (intro allI)
  fix pf sctx
  let ?c = "junk_client\<lparr>buffer_used := 2\<rparr>" and ?w = "junk_world\<lparr>heap := [4 \<mapsto> [88, 10, 10]]\<rparr>"
  have start: "pstate junk_client = PARSE_STATE_EXPECT_TYPE"
    and shut: "uv_call Uv_close_client ?c = junk_client\<lparr>buffer_used := 2, calls := [Uv_close_client]\<rparr>"
    by (simp_all add: junk_client_def zero_context_def uv_call_def)
  have "skip_newlines [10, 88, 10] 3 = Inr 1" by (simp add: numeral_3_eq_3)
  moreover have "block junk_world (buffer junk_client) = [10, 88, 10]" "buffer_used junk_client = 3"
    by (simp_all add: junk_client_def junk_world_def block_def)
  moreover have "consume 1 junk_client junk_world = Inr (?c, ?w)"
    by (simp add: consume_def memcpy_def load_def store_def ptr_add_def junk_client_def junk_world_def)
  moreover have "first_byte ?c ?w = Inr 88" by (simp add: first_byte_def load_def junk_client_def)
  ultimately have "parse_type junk_client junk_world = Inr (False, uv_call Uv_close_client ?c, ?w)"
    by (simp add: parse_type_def)
  then have "parse_buffer pf sctx junk_client junk_world =
      Inr (sctx, junk_client\<lparr>buffer_used := 2, calls := [Uv_close_client]\<rparr>, ?w)"
    by (simp add: parse_buffer_def parse_step_def start shut)
  then show "parses pf (sctx, junk_client, junk_world)
     (Inr (sctx, junk_client\<lparr>buffer_used := 2, calls := [Uv_close_client]\<rparr>, junk_world\<lparr>heap := [4 \<mapsto> [88, 10, 10]]\<rparr>))"
    using parse_buffer_ends [of junk_client 4] by (simp add: junk_client_def zero_context_def)
qed

section \<open>The states of a connection\<close>

text \<open>
  The states a connection can get into: it is opened, bytes or errors are read, it times out, it is closed;
  meanwhile other connections may change the database and the memory in any way.
\<close>

inductive reached :: "platform \<Rightarrow> server_context \<Rightarrow> client_context \<Rightarrow> world \<Rightarrow> bool" for pf where
  opened: "on_new_connection pf status accepted w = (Some c, w') \<Longrightarrow> reached pf sctx c w'"
| reads: "reached pf sctx c w \<Longrightarrow> on_read pf sctx c nread base w = Inr (sctx', c', w') \<Longrightarrow> reached pf sctx' c' w'"
| timed_out: "reached pf sctx c w \<Longrightarrow> reached pf sctx (on_client_timeout c) w"
| closed: "reached pf sctx c w \<Longrightarrow> on_client_close timer_is_closing c w = Inr (c', w') \<Longrightarrow> reached pf sctx c' w'"
| elsewhere: "reached pf sctx c w \<Longrightarrow> reached pf sctx' c w'"

lemma parse_loop_bounded: "parse_loop n pf sctx c w = Inr (sctx', c', w') \<Longrightarrow> bounded c \<Longrightarrow> bounded c'"
proof (induction n arbitrary: sctx c w)
  case (Suc n)
  then obtain go sctx1 c1 w1 where step: "parse_step pf sctx c w = Inr (go, sctx1, c1, w1)"
    and rest: "(if go then parse_loop n pf sctx1 c1 w1 else Inr (sctx1, c1, w1)) = Inr (sctx', c', w')"
    by (auto elim!: bindE_InrE)
  have "bounded c1" using step_shrinks [OF Suc.prems(2) step] by (simp add: shrinks_def)
  with rest Suc.IH [of sctx1 c1 w1] show ?case by (auto split: if_split_asm)
qed simp

lemma append_bounded: "append_to_buffer c data len w = Inr (c', w') \<Longrightarrow> bounded c' = bounded c"
  unfolding append_to_buffer_def Let_def case_prod_unfold
  by (auto elim!: bindE_InrE split: if_split_asm)

lemma on_read_bounded:
  assumes "bounded c" and "on_read pf sctx c nread base w = Inr (sctx', c', w')"
  shows "bounded c'"
proof (cases "sint nread > 0")
  case True
  obtain len err where conv: "ssizet_to_sizet nread (Some False) = (len, err)" by (cases "ssizet_to_sizet nread (Some False)")
  with True assms(2) obtain c2 w1 where app: "append_to_buffer (uv_call Uv_timer_start c) base len w = Inr (c2, w1)"
    and rest: "c' = c2 \<or> (\<exists>w2. parse_buffer pf sctx c2 w1 = Inr (sctx', c', w2))"
    unfolding on_read_def by (auto elim!: bindE_InrE split: if_split_asm)
  have "bounded c2" using append_bounded [OF app] assms(1) by simp
  with rest parse_loop_bounded show ?thesis unfolding parse_buffer_def by blast
next
  case False
  with assms show ?thesis unfolding on_read_def Let_def by (auto elim!: bindE_InrE split: if_split_asm)
qed

text \<open>C22. In every state a connection can get into, whatever the other connections do and however memory runs
  out, at most 1024 arguments of at most 8192 bytes are expected, and the parser, entered in this state, ends.\<close>

theorem reached_bounded:
  assumes "reached pf sctx c w"
  shows "unat (args_total c) \<le> 1024 \<and> unat (data_to_read c) \<le> 8192 \<and> (\<exists>!r. parses pf (sctx, c, w) r)"
proof -
  have "bounded c" using assms
  proof induction
    case (opened status accepted w c w' sctx)
    then show ?case
      by (auto simp: on_new_connection_def case_prod_unfold Let_def bounded_def uv_call_def reset_parser_def zero_context_def
          split: if_split_asm)
  next
    case (reads sctx c w nread base sctx' c' w')
    from reads.IH reads.hyps(2) show ?case by (rule on_read_bounded)
  next
    case (closed sctx c w b c' w')
    then show ?case
      by (auto simp: on_client_close_def bounded_def reset_parser_def split: if_split_asm elim!: bindE_InrE)
  qed (simp_all add: on_client_timeout_def)
  moreover from this have "parses pf (sctx, c, w) (parse_buffer pf sctx c w)"
    unfolding parse_buffer_def by (rule parses_loop) (simp add: used_def)
  ultimately show ?thesis using parses_unique by (auto simp: bounded_def)
qed

theorem reached_bounded_witness:
  "\<forall>sctx. \<exists>c. reached platform0 sctx (on_client_timeout c) junk_world \<and>
     unat (args_total (on_client_timeout c)) \<le> 1024 \<and> (\<exists>!r. parses platform0 (sctx, on_client_timeout c, junk_world) r)"
proof
  fix sctx
  let ?w = "junk_world\<lparr>heap := heap junk_world, fresh := 7\<rparr>"
  obtain c w' where "on_new_connection platform0 0 True ?w = (Some c, w')"
    by (simp add: on_new_connection_def heap_simps junk_world_def platform0_def)
  then have "reached platform0 sctx c w'" by (rule reached.opened)
  then have "reached platform0 sctx (on_client_timeout c) junk_world" by (intro reached.timed_out) (rule reached.elsewhere)
  with reached_bounded [OF this]
  show "\<exists>c. reached platform0 sctx (on_client_timeout c) junk_world \<and>
     unat (args_total (on_client_timeout c)) \<le> 1024 \<and> (\<exists>!r. parses platform0 (sctx, on_client_timeout c, junk_world) r)"
    by blast
qed

end
