(* ===== verification/Framing.thy ===== *)
theory Framing
  imports Parser_Loop
begin

text \<open>
  The framing of requests. \<open>encode\<close> is the format of a request on the wire (an array header, then every
  word with its length); \<open>receiving\<close> relates the state of the parser to a request of which some bytes are
  still to come. Each round of the parser either waits for more bytes, takes one token, or has the whole
  request, however the bytes were cut into reads.
\<close>

section \<open>The wire format\<close>

definition header :: "byte \<Rightarrow> nat \<Rightarrow> byte list" where
  "header mark n = mark # nat_digits n @ [13, 10]"

definition bulk :: "byte list \<Rightarrow> byte list" where
  "bulk a = header 36 (length a) @ a @ [13, 10]"

definition encode :: "byte list list \<Rightarrow> byte list" where
  "encode args = header 42 (length args) @ concat (map bulk args)"

definition words_ok :: "byte list list \<Rightarrow> bool" where
  "words_ok args \<longleftrightarrow> args \<noteq> [] \<and> length args \<le> 1024 \<and> (\<forall>a \<in> set args. length a \<le> 8192)"

section \<open>The state of the parser\<close>

text \<open>The blocks of a client: its arguments, the two vectors, the buffer and the context.\<close>

definition arguments :: "client_context \<Rightarrow> ptr list" where
  "arguments c = (if temp_argv c = NULL then [] else take (unat (args_parsed c)) (argv_slots c))"

definition client_blocks :: "client_context \<Rightarrow> ptr list" where
  "client_blocks c = arguments c @ filter (\<lambda>p. p \<noteq> NULL) [temp_argv c, temp_arg_lengths c, buffer c] @ [ctx_ptr c]"

definition owns_blocks :: "world \<Rightarrow> client_context \<Rightarrow> bool" where
  "owns_blocks w c \<longleftrightarrow> distinct (client_blocks c) \<and> (\<forall>p \<in> set (client_blocks c). live w p) \<and>
     (temp_argv c \<noteq> NULL \<longrightarrow> unat (args_parsed c) \<le> length (argv_slots c))"

text \<open>\<open>X\<close> are blocks that belong to others; \<open>foot\<close> are those of the table.\<close>

definition apart :: "nat set \<Rightarrow> client_context \<Rightarrow> bool" where
  "apart X c \<longleftrightarrow> (\<forall>a \<in> X. Ptr a 0 \<notin> set (client_blocks c))"

definition tidy :: "nat set \<Rightarrow> world \<Rightarrow> client_context \<Rightarrow> bool" where
  "tidy X w c \<longleftrightarrow> owns_blocks w c \<and> apart X c \<and> (\<forall>a \<in> X. a < fresh w)"

definition foot :: "hashtable \<Rightarrow> nat set" where
  "foot t = {a. Ptr a 0 \<in> footprint t}"

lemma client_blocks_fields [simp]:
  "client_blocks (c\<lparr>pstate := s\<rparr>) = client_blocks c" "client_blocks (c\<lparr>args_total := x\<rparr>) = client_blocks c"
  "client_blocks (c\<lparr>data_to_read := x\<rparr>) = client_blocks c" "client_blocks (c\<lparr>calls := us\<rparr>) = client_blocks c"
  "client_blocks (c\<lparr>buffer_used := x\<rparr>) = client_blocks c" "client_blocks (c\<lparr>buffer_capacity := x\<rparr>) = client_blocks c"
  by (simp_all add: client_blocks_def arguments_def cong: if_cong)

lemma tidy_fields [simp]:
  "tidy X w (c\<lparr>pstate := s\<rparr>) = tidy X w c" "tidy X w (c\<lparr>args_total := x\<rparr>) = tidy X w c"
  "tidy X w (c\<lparr>data_to_read := x\<rparr>) = tidy X w c" "tidy X w (c\<lparr>calls := us\<rparr>) = tidy X w c"
  "tidy X w (c\<lparr>buffer_used := x\<rparr>) = tidy X w c" "tidy X w (c\<lparr>buffer_capacity := x\<rparr>) = tidy X w c"
  by (simp_all add: tidy_def owns_blocks_def apart_def)

text \<open>The first \<open>i\<close> words are stored in the argument vector.\<close>

definition no_vectors :: "client_context \<Rightarrow> bool" where
  "no_vectors c \<longleftrightarrow> temp_argv c = NULL \<and> temp_arg_lengths c = NULL"

definition vectors :: "client_context \<Rightarrow> nat \<Rightarrow> bool" where
  "vectors c m \<longleftrightarrow> temp_argv c \<noteq> NULL \<and> temp_arg_lengths c \<noteq> NULL \<and>
     length (argv_slots c) = m \<and> length (length_slots c) = m"

definition held :: "world \<Rightarrow> client_context \<Rightarrow> byte list list \<Rightarrow> nat \<Rightarrow> bool" where
  "held w c args i \<longleftrightarrow>
     args_parsed c = of_nat i \<and> args_total c = of_nat (length args) \<and>
     (if i = 0 then no_vectors c else vectors c (length args)) \<and>
     (\<forall>j < i. length_slots c ! j = of_nat (length (args ! j)) \<and>
        (\<exists>a. argv_slots c ! j = Ptr a 0 \<and> heap w a = Some (args ! j @ [0])))"

text \<open>\<open>rest\<close> are the bytes of the request that the parser has not taken yet.\<close>

definition expects :: "world \<Rightarrow> client_context \<Rightarrow> byte list list \<Rightarrow> byte list \<Rightarrow> bool" where
  "expects w c args rest \<longleftrightarrow>
     (case pstate c of
        PARSE_STATE_EXPECT_TYPE \<Rightarrow> no_vectors c \<and> rest = encode args
      | PARSE_STATE_EXPECT_LENGTH \<Rightarrow>
          \<exists>i < length args. held w c args i \<and> rest = concat (map bulk (drop i args))
      | PARSE_STATE_EXPECT_DATA \<Rightarrow>
          \<exists>i < length args. held w c args i \<and> data_to_read c = of_nat (length (args ! i)) \<and>
            rest = args ! i @ [13, 10] @ concat (map bulk (drop (Suc i) args)))"

text \<open>A server with its memory granted, and a connection whose buffer is its own.\<close>

definition connected :: "world \<Rightarrow> server_context \<Rightarrow> hashtable \<Rightarrow> client_context \<Rightarrow> bool" where
  "connected w sctx t c \<longleftrightarrow>
     serving w sctx t \<and> sys_fails w = [] \<and> buffer_ok w c \<and> buffer c \<notin> footprint t \<and>
     unat (buffer_capacity c) < 2 ^ 32"

definition receiving ::
    "nat set \<Rightarrow> world \<Rightarrow> server_context \<Rightarrow> hashtable \<Rightarrow> client_context \<Rightarrow> byte list list \<Rightarrow> byte list \<Rightarrow> bool" where
  "receiving X w sctx t c args future \<longleftrightarrow>
     connected w sctx t c \<and> words_ok args \<and> tidy (foot t \<union> X) w c \<and> expects w c args (pending w c @ future)"

text \<open>The buffer is not touched by changes of the other fields.\<close>

lemma buffer_frame [simp]:
  "buffer_ok w (c\<lparr>args_total := x\<rparr>) = buffer_ok w c" "buffer_ok w (c\<lparr>args_parsed := x\<rparr>) = buffer_ok w c"
  "buffer_ok w (c\<lparr>pstate := s\<rparr>) = buffer_ok w c" "buffer_ok w (c\<lparr>data_to_read := x\<rparr>) = buffer_ok w c"
  "buffer_ok w (c\<lparr>temp_argv := p\<rparr>) = buffer_ok w c" "buffer_ok w (c\<lparr>argv_slots := ps\<rparr>) = buffer_ok w c"
  "buffer_ok w (c\<lparr>temp_arg_lengths := p\<rparr>) = buffer_ok w c" "buffer_ok w (c\<lparr>length_slots := ns\<rparr>) = buffer_ok w c"
  "buffer_ok w (c\<lparr>calls := us\<rparr>) = buffer_ok w c"
  "pending w (c\<lparr>args_total := x\<rparr>) = pending w c" "pending w (c\<lparr>args_parsed := x\<rparr>) = pending w c"
  "pending w (c\<lparr>pstate := s\<rparr>) = pending w c" "pending w (c\<lparr>data_to_read := x\<rparr>) = pending w c"
  "pending w (c\<lparr>temp_argv := p\<rparr>) = pending w c" "pending w (c\<lparr>argv_slots := ps\<rparr>) = pending w c"
  "pending w (c\<lparr>temp_arg_lengths := p\<rparr>) = pending w c" "pending w (c\<lparr>length_slots := ns\<rparr>) = pending w c"
  "pending w (c\<lparr>calls := us\<rparr>) = pending w c"
  by (simp_all add: buffer_ok_def pending_def split: ptr.split)

lemma connected_frame:
  assumes "connected w sctx t c" and "world_ok w'" and "sys_fails w' = []" and "buffer_ok w' c'" and "buffer c' \<notin> footprint t"
    and "unat (buffer_capacity c') < 2 ^ 32"
    and "\<And>a. Ptr a 0 \<in> footprint t \<Longrightarrow> heap w' a = heap w a"
  shows "connected w' sctx t c'" and "stored w' t = stored w t"
  using assms serving_outside [of w sctx t w'] by (simp_all add: connected_def)

text \<open>Consuming on a connection.\<close>

lemma consume_connected:
  assumes con: "connected w sctx t c" and k: "0 < k" "k \<le> length (pending w c)"
  obtains (consumed) w' where "consume (of_nat k) c w = Inr (c\<lparr>buffer_used := buffer_used c - of_nat k\<rparr>, w')"
    and "connected w' sctx t (c\<lparr>buffer_used := buffer_used c - of_nat k\<rparr>)"
    and "stored w' t = stored w t" and "pending w' (c\<lparr>buffer_used := buffer_used c - of_nat k\<rparr>) = drop k (pending w c)"
    and "unat (buffer_used c - of_nat k) = unat (buffer_used c) - k"
    and "\<And>a. buffer c \<noteq> Ptr a 0 \<Longrightarrow> heap w' a = heap w a" and "fresh w' = fresh w"
proof -
  have buf: "buffer_ok w c" and ok: "world_ok w" and out: "buffer c \<notin> footprint t" and quiet: "sys_fails w = []"
    and cap: "unat (buffer_capacity c) < 2 ^ 32"
    using con by (simp_all add: connected_def serving_def db_ok_def)
  let ?c = "c\<lparr>buffer_used := buffer_used c - of_nat k\<rparr>"
  from buf k obtain a bs where a: "consume (of_nat k) c w = Inr (?c, w\<lparr>heap := (heap w)(a \<mapsto> bs)\<rparr>)"
    "buffer c = Ptr a 0" "heap w a \<noteq> None" "buffer_ok (w\<lparr>heap := (heap w)(a \<mapsto> bs)\<rparr>) ?c"
    "pending (w\<lparr>heap := (heap w)(a \<mapsto> bs)\<rparr>) ?c = drop k (pending w c)"
    "unat (buffer_used c - of_nat k) = unat (buffer_used c) - k" by (rule consume_ok)
  let ?w = "w\<lparr>heap := (heap w)(a \<mapsto> bs)\<rparr>"
  have "world_ok ?w" using ok a(3) by (auto simp: world_ok_def)
  moreover have "heap ?w a' = heap w a'" if "Ptr a' 0 \<in> footprint t" for a' using that a(2) out by auto
  ultimately have "connected ?w sctx t ?c" "stored ?w t = stored w t"
    using connected_frame [OF con, of ?w ?c] quiet a(4) out cap by simp_all
  with a show thesis by (intro consumed [of ?w]) simp_all
qed

section \<open>Looking at the buffer\<close>

lemma first_byte_pending:
  assumes "buffer_ok w c" and "pending w c \<noteq> []"
  shows "first_byte c w = Inr (hd (pending w c))"
proof -
  from assms obtain a bs where "buffer c = Ptr a 0" "heap w a = Some bs" "unat (buffer_used c) \<le> length bs"
    "pending w c = take (unat (buffer_used c)) bs" by (rule buffer_ok_Ptr)
  with assms(2) show ?thesis by (cases bs) (auto simp: first_byte_def load_def)
qed

lemma skip_newlines_none:
  assumes "buffer_ok w c" and "pending w c \<noteq> [] \<Longrightarrow> hd (pending w c) \<noteq> 13 \<and> hd (pending w c) \<noteq> 10"
  shows "skip_newlines (block w (buffer c)) (unat (buffer_used c)) = Inr 0"
proof (cases "unat (buffer_used c)")
  case (Suc n)
  with buffer_ok_block [OF assms(1)] obtain b bs where "block w (buffer c) = b # bs" by (cases "block w (buffer c)") auto
  with Suc assms(2) show ?thesis by (simp add: pending_def)
qed simp

lemma prefix_of_block:
  assumes "buffer_ok w c" and "pending w c @ future = h @ rest" and "length h \<le> length (pending w c)"
  shows "\<exists>tl. block w (buffer c) = h @ tl" and "drop (length h) (pending w c) @ future = rest"
proof -
  have p: "take (length h) (pending w c) = h" using assms(2,3) by (metis append_eq_append_conv_if)
  have "take (length h) (block w (buffer c)) = take (length h) (take (unat (buffer_used c)) (block w (buffer c)))"
    using buffer_ok_block [OF assms(1)] assms(3) by (simp add: min_def)
  also have "\<dots> = h" using p by (simp add: pending_def)
  finally show "\<exists>tl. block w (buffer c) = h @ tl" by (metis append_take_drop_id)
  show "drop (length h) (pending w c) @ future = rest" using assms(2,3) by (metis append_eq_append_conv_if)
qed

text \<open>A header, once it is complete: its CRLF is found and its number read.\<close>

lemma header_token:
  assumes buf: "buffer_ok w c" and tok: "pending w c @ future = header mark n @ rest" and n: "n \<le> 8192" and mark: "mark \<noteq> 13"
    and ne: "pending w c \<noteq> []"
  shows "hd (pending w c) = mark"
    and "length (pending w c) < length (header mark n) \<Longrightarrow> find_crlf c w = Inr None"
    and "length (header mark n) \<le> length (pending w c) \<Longrightarrow>
      find_crlf c w = Inr (Some (length (header mark n) - 2)) \<and> strtol (drop 1 (block w (buffer c))) = Inr (of_nat n)"
proof -
  let ?D = "mark # nat_digits n"
  have "13 \<notin> set ?D" using nat_digits_are_digits [of 13 n] mark by (auto simp: is_digit_def)
  moreover have tok': "pending w c @ future = ?D @ 13 # 10 # rest" using tok by (simp add: header_def)
  ultimately have crlf: "find_crlf c w = Inr (if length ?D + 2 \<le> length (pending w c) then Some (length ?D) else None)"
    using buf ne by (intro find_crlf_token) simp_all
  have len: "length (header mark n) = length ?D + 2" by (simp add: header_def)
  show "hd (pending w c) = mark" using tok' ne by (metis append_Cons hd_append list.sel(1))
  show "length (pending w c) < length (header mark n) \<Longrightarrow> find_crlf c w = Inr None" using crlf len by simp
  assume le: "length (header mark n) \<le> length (pending w c)"
  obtain tl where "block w (buffer c) = header mark n @ tl" using prefix_of_block(1) [OF buf tok le] by blast
  then have "drop 1 (block w (buffer c)) = nat_digits n @ 13 # 10 # tl" by (simp add: header_def)
  moreover have "\<not> is_digit 13" by (simp add: is_digit_def)
  ultimately have "strtol (drop 1 (block w (buffer c))) = Inr (of_nat n)" using n by (simp add: strtol_digits)
  with crlf len le show "find_crlf c w = Inr (Some (length (header mark n) - 2)) \<and> strtol (drop 1 (block w (buffer c))) = Inr (of_nat n)"
    by simp
qed

end
