(* ===== verification/Parsing.thy ===== *)
theory Parsing
  imports Framing
begin

text \<open>
  The parser on the bytes of a request: a round of the loop of \<open>parse_buffer\<close> waits for more bytes, or takes
  one token out of the buffer, or has the whole request and runs it.
\<close>

section \<open>Frames\<close>

lemma connected_fields [simp]:
  "connected w sctx t (c\<lparr>args_total := x\<rparr>) = connected w sctx t c"
  "connected w sctx t (c\<lparr>args_parsed := x\<rparr>) = connected w sctx t c"
  "connected w sctx t (c\<lparr>pstate := s\<rparr>) = connected w sctx t c"
  "connected w sctx t (c\<lparr>data_to_read := x\<rparr>) = connected w sctx t c"
  "connected w sctx t (c\<lparr>temp_argv := p\<rparr>) = connected w sctx t c"
  "connected w sctx t (c\<lparr>argv_slots := ps\<rparr>) = connected w sctx t c"
  "connected w sctx t (c\<lparr>temp_arg_lengths := p\<rparr>) = connected w sctx t c"
  "connected w sctx t (c\<lparr>length_slots := ns\<rparr>) = connected w sctx t c"
  "connected w sctx t (c\<lparr>calls := us\<rparr>) = connected w sctx t c"
  by (simp_all add: connected_def)

lemma connected_simps:
  assumes "connected w sctx t c"
  shows "serving w sctx t" and "sys_fails w = []" and "buffer_ok w c" and "buffer c \<notin> footprint t" and "world_ok w"
    and "unat (buffer_capacity c) < 2 ^ 32" and "database sctx = Some t" and "db w t"
  using assms by (simp_all add: connected_def serving_def db_ok_def)

text \<open>The first arguments are among the blocks of the client, and none of them is the buffer.\<close>

lemma slot_in_blocks:
  assumes "temp_argv c \<noteq> NULL" and "j < unat (args_parsed c)" and "unat (args_parsed c) \<le> length (argv_slots c)"
  shows "argv_slots c ! j \<in> set (arguments c)"
  using assms by (auto simp: arguments_def in_set_conv_nth intro!: exI [of _ j])

lemma argument_in_blocks:
  assumes "held w c args i" and "j < i" and "i \<le> length args" and "length args \<le> 1024"
  shows "argv_slots c ! j \<in> set (arguments c)"
  by (rule slot_in_blocks) (use assms in \<open>simp_all add: held_def vectors_def unat_of_nat\<close>)

lemma argument_not_buffer:
  assumes "owns_blocks w c" and "p \<in> set (arguments c)" and "live w p"
  shows "buffer c \<noteq> p"
  using assms by (auto simp: owns_blocks_def client_blocks_def split: if_split_asm)

lemma held_frame:
  assumes "held w c args i"
    and "\<And>a j. j < i \<Longrightarrow> argv_slots c ! j = Ptr a 0 \<Longrightarrow> heap w' a = heap w a"
    and "args_parsed c' = args_parsed c" "args_total c' = args_total c" "temp_argv c' = temp_argv c"
      "argv_slots c' = argv_slots c" "temp_arg_lengths c' = temp_arg_lengths c" "length_slots c' = length_slots c"
  shows "held w' c' args i"
proof -
  have "\<exists>a. argv_slots c' ! j = Ptr a 0 \<and> heap w' a = Some (args ! j @ [0])" if j: "j < i" for j
  proof -
    obtain a where "argv_slots c ! j = Ptr a 0" "heap w a = Some (args ! j @ [0])"
      using j assms(1) unfolding held_def by blast
    with assms(2) [OF j, of a] assms(6) show ?thesis by simp
  qed
  with assms(1,3-8) show ?thesis by (simp add: held_def vectors_def no_vectors_def split: if_splits)
qed

text \<open>
  What the parser may change on its way: its own fields, the buffer's block, and new blocks.
\<close>

definition moved :: "world \<Rightarrow> client_context \<Rightarrow> hashtable \<Rightarrow> world \<Rightarrow> client_context \<Rightarrow> bool" where
  "moved w c t w' c' \<longleftrightarrow> stored w' t = stored w t \<and> calls c' = calls c \<and> buffer c' = buffer c \<and> ctx_ptr c' = ctx_ptr c \<and>
     fresh w \<le> fresh w' \<and> (\<forall>a. buffer c \<noteq> Ptr a 0 \<longrightarrow> heap w a \<noteq> None \<longrightarrow> heap w' a = heap w a)"

lemma held_moved:
  assumes "held w c args i" and "owns_blocks w c" and "i \<le> length args" "length args \<le> 1024" and "moved w c t w' c'"
    and "args_parsed c' = args_parsed c" and "args_total c' = args_total c"
    and "temp_argv c' = temp_argv c" and "argv_slots c' = argv_slots c" and "temp_arg_lengths c' = temp_arg_lengths c"
    and "length_slots c' = length_slots c"
  shows "held w' c' args i"
proof (rule held_frame [OF assms(1)])
  fix a j assume j: "j < i" and a: "argv_slots c ! j = Ptr a 0"
  have "heap w a \<noteq> None" using assms(1) j a by (auto simp: held_def)
  moreover have "buffer c \<noteq> Ptr a 0"
    using argument_not_buffer [OF assms(2) argument_in_blocks [OF assms(1) j assms(3,4)]] a \<open>heap w a \<noteq> None\<close> by auto
  ultimately show "heap w' a = heap w a" using assms(5) by (simp add: moved_def)
qed (use assms in auto)

lemma buffer_ok_live: "buffer_ok w c \<Longrightarrow> buffer c \<noteq> NULL \<Longrightarrow> live w (buffer c)"
  by (auto simp: buffer_ok_def split: ptr.splits)

lemma moved_live:
  assumes "moved w c t w' c'" and "buffer_ok w' c'" and "live w p"
  shows "live w' p"
proof (cases "p = buffer c")
  case True
  moreover have "p \<noteq> NULL" using assms(3) by auto
  ultimately show ?thesis using buffer_ok_live [OF assms(2)] assms(1) by (simp add: moved_def)
next
  case False
  with assms(1,3) show ?thesis by (cases p) (auto simp: moved_def)
qed

lemma tidy_moved:
  assumes "tidy X w c" and "moved w c t w' c'" and "buffer_ok w' c'" and "client_blocks c' = client_blocks c"
    and "temp_argv c' \<noteq> NULL \<Longrightarrow> unat (args_parsed c') \<le> length (argv_slots c')"
  shows "tidy X w' c'"
  using assms moved_live [OF assms(2,3)] unfolding tidy_def apart_def owns_blocks_def by (force simp: moved_def)

lemma tidy_own: "tidy X w c \<Longrightarrow> owns_blocks w c"
  by (simp add: tidy_def)

lemma tidy_slots: "tidy X w c \<Longrightarrow> temp_argv c \<noteq> NULL \<Longrightarrow> unat (args_parsed c) \<le> length (argv_slots c)"
  by (simp add: tidy_def owns_blocks_def)

lemma moved_trans: "moved w c t w1 c1 \<Longrightarrow> moved w1 c1 t w2 c2 \<Longrightarrow> moved w c t w2 c2"
  by (auto simp: moved_def)

text \<open>A header at the start of the unread bytes is still incomplete, or it is found.\<close>

lemma header_cases:
  assumes "buffer_ok w c" and "pending w c @ future = header mark n @ rest" and "n \<le> 8192" and "mark \<noteq> 13"
    and "pending w c \<noteq> []"
  obtains (short) "first_byte c w = Inr mark" "find_crlf c w = Inr None" "future \<noteq> []"
  | (whole) i where "first_byte c w = Inr mark" "find_crlf c w = Inr (Some i)" "i + 2 = length (header mark n)"
      "strtol (drop 1 (block w (buffer c))) = Inr (of_nat n)" "i + 2 \<le> length (pending w c)"
      "drop (i + 2) (pending w c) @ future = rest"
proof (cases "length (header mark n) \<le> length (pending w c)")
  case True
  note tok = header_token [OF assms]
  have "length (header mark n) - 2 + 2 = length (header mark n)" by (simp add: header_def)
  then show thesis
    using tok(1) tok(3) [OF True] first_byte_pending [OF assms(1,5)] True prefix_of_block(2) [OF assms(1,2) True]
    by (intro whole [of "length (header mark n) - 2"]) simp_all
next
  case False
  then have "future \<noteq> []" using arg_cong [OF assms(2), of length] by auto
  with False header_token(1,2) [OF assms] first_byte_pending [OF assms(1,5)] show thesis by (intro short) simp_all
qed

section \<open>One round\<close>

type_synonym round = "fault + (bool \<times> server_context \<times> client_context \<times> world)"

definition advances ::
    "nat set \<Rightarrow> world \<Rightarrow> server_context \<Rightarrow> hashtable \<Rightarrow> client_context \<Rightarrow> byte list list \<Rightarrow> byte list \<Rightarrow>
  round \<Rightarrow> bool" where
  "advances X w sctx t c args future result \<longleftrightarrow>
     (\<exists>c' w'. result = Inr (True, sctx, c', w') \<and> receiving X w' sctx t c' args future \<and> moved w c t w' c' \<and>
        unat (buffer_used c') < unat (buffer_used c))"

lemma used_pending: "buffer_ok w c \<Longrightarrow> buffer_used c = 0 \<longleftrightarrow> pending w c = []"
  using buffer_ok_block(2) [of w c] by (auto simp: unat_eq_0 [symmetric])

text \<open>After a header is taken, whatever fields were set before.\<close>

lemma take_header:
  assumes con: "connected w sctx t c" and k: "0 < k" "k \<le> length (pending w c)"
  obtains (taken) w' where "consume (of_nat k) c w = Inr (c\<lparr>buffer_used := buffer_used c - of_nat k\<rparr>, w')"
    and "connected w' sctx t (c\<lparr>buffer_used := buffer_used c - of_nat k\<rparr>)"
    and "pending w' (c\<lparr>buffer_used := buffer_used c - of_nat k\<rparr>) = drop k (pending w c)"
    and "moved w c t w' (c\<lparr>buffer_used := buffer_used c - of_nat k\<rparr>)"
    and "unat (buffer_used c - of_nat k) < unat (buffer_used c)"
  using con k
proof (cases rule: consume_connected)
  case (consumed w')
  moreover have "0 < unat (buffer_used c)"
    using k buffer_ok_block(2) [OF connected_simps(3) [OF con]] by linarith
  ultimately show thesis using k by (intro taken [of w']) (auto simp: moved_def)
qed

lemma type_round:
  assumes rec: "receiving X w sctx t c args future" and st: "pstate c = PARSE_STATE_EXPECT_TYPE"
  shows "parse_step pf sctx c w = Inr (False, sctx, c, w) \<and> future \<noteq> [] \<or>
    advances X w sctx t c args future (parse_step pf sctx c w)"
proof -
  have con: "connected w sctx t c" and ok: "words_ok args" and tok: "pending w c @ future = encode args"
    and td: "tidy (foot t \<union> X) w c" and nv: "no_vectors c"
    using rec st by (simp_all add: receiving_def expects_def)
  note buf = connected_simps(3) [OF con]
  show ?thesis
  proof (cases "pending w c = []")
    case True
    then have "buffer_used c = 0" using buffer_ok_block(2) [OF buf] by (simp add: unat_eq_0)
    then have "parse_type c w = Inr (False, c, w)" by (simp add: parse_type_def)
    moreover have "future \<noteq> []" using tok True by (auto simp: encode_def header_def)
    ultimately show ?thesis using st by (simp add: parse_step_def)
  next
    case False
    have skip: "skip_newlines (block w (buffer c)) (unat (buffer_used c)) = Inr 0"
    proof (rule skip_newlines_none [OF buf])
      show "hd (pending w c) \<noteq> 13 \<and> hd (pending w c) \<noteq> 10"
        using arg_cong [OF tok, of hd] False by (simp add: encode_def header_def)
    qed
    have n: "length args \<le> 1024" "0 < length args" using ok by (simp_all add: words_ok_def)
    have tok': "pending w c @ future = header 42 (length args) @ concat (map bulk args)" using tok by (simp add: encode_def)
    have "length args \<le> 8192" "(42 :: byte) \<noteq> 13" using n by simp_all
    from buf tok' this False show ?thesis
    proof (cases rule: header_cases)
      case short
      then have "parse_type c w = Inr (False, c, w)"
        using skip False used_pending [OF buf] by (simp add: parse_type_def)
      with short(3) st show ?thesis by (simp add: parse_step_def)
    next
      case (whole i)
      let ?c = "c\<lparr>args_total := of_nat (length args), args_parsed := 0, pstate := PARSE_STATE_EXPECT_LENGTH\<rparr>"
      have c: "connected w sctx t ?c" "pending w ?c = pending w c" using con by simp_all
      have long: "sint (of_nat (length args) :: 64 word) = int (length args)" using n by (intro small_long) simp
      have k: "0 < i + 2" "i + 2 \<le> length (pending w ?c)" using whole(5) c(2) by simp_all
      from c(1) k show ?thesis
      proof (cases rule: take_header)
        case (taken w')
        let ?d = "?c\<lparr>buffer_used := buffer_used ?c - of_nat (i + 2)\<rparr>"
        have "parse_type c w = Inr (True, ?d, w')"
          using skip False used_pending [OF buf] whole(1,2,4) n taken(1) long by (simp add: parse_type_def nonneg_long del: of_nat_add)
        moreover have mv: "moved w c t w' ?d" using taken(4) by (simp add: moved_def)
        moreover have "tidy (foot t \<union> X) w' ?d"
          by (rule tidy_moved [OF td mv connected_simps(3) [OF taken(2)]]) (use nv in \<open>simp_all add: client_blocks_def arguments_def no_vectors_def\<close>)
        moreover have "held w' ?d args 0" using nv by (simp add: held_def no_vectors_def)
        then have "expects w' ?d args (pending w' ?d @ future)"
          using taken(3) whole(6) n(2) by (auto simp: expects_def)
        ultimately show ?thesis using taken(2,5) ok st by (auto simp: advances_def receiving_def parse_step_def)
      qed
    qed
  qed
qed

lemma length_round:
  assumes rec: "receiving X w sctx t c args future" and st: "pstate c = PARSE_STATE_EXPECT_LENGTH"
  shows "parse_step pf sctx c w = Inr (False, sctx, c, w) \<and> future \<noteq> [] \<or>
    advances X w sctx t c args future (parse_step pf sctx c w)"
proof -
  obtain i where con: "connected w sctx t c" and ok: "words_ok args" and i: "i < length args" and hd: "held w c args i"
    and tok: "pending w c @ future = concat (map bulk (drop i args))" and td: "tidy (foot t \<union> X) w c"
    using rec st by (auto simp: receiving_def expects_def)
  note buf = connected_simps(3) [OF con]
  let ?a = "args ! i"
  have rest: "pending w c @ future = header 36 (length ?a) @ ?a @ [13, 10] @ concat (map bulk (drop (Suc i) args))"
    using tok i by (simp add: Cons_nth_drop_Suc [symmetric] bulk_def)
  have n: "length ?a \<le> 8192" using ok i by (simp add: words_ok_def)
  show ?thesis
  proof (cases "pending w c = []")
    case True
    then have "buffer_used c = 0" by (simp add: used_pending [OF buf])
    then have "parse_length c w = Inr (False, c, w)" by (simp add: parse_length_def)
    moreover have "future \<noteq> []" using rest True by (auto simp: header_def)
    ultimately show ?thesis using st by (simp add: parse_step_def)
  next
    case False
    have "(36 :: byte) \<noteq> 13" by simp
    from buf rest n this False show ?thesis
    proof (cases rule: header_cases)
      case short
      then have "parse_length c w = Inr (False, c, w)"
        using False used_pending [OF buf] by (simp add: parse_length_def)
      with short(3) st show ?thesis by (simp add: parse_step_def)
    next
      case (whole j)
      let ?c = "c\<lparr>data_to_read := of_nat (length ?a), pstate := PARSE_STATE_EXPECT_DATA\<rparr>"
      have c: "connected w sctx t ?c" "pending w ?c = pending w c" using con by simp_all
      have long: "sint (of_nat (length ?a) :: 64 word) = int (length ?a)" using n by (rule small_long)
      have k: "0 < j + 2" "j + 2 \<le> length (pending w ?c)" using whole(5) c(2) by simp_all
      from c(1) k show ?thesis
      proof (cases rule: take_header)
        case (taken w')
        let ?d = "?c\<lparr>buffer_used := buffer_used ?c - of_nat (j + 2)\<rparr>"
        have "parse_length c w = Inr (True, ?d, w')"
          using False used_pending [OF buf] whole(1,2,4) n taken(1) long
          by (simp add: parse_length_def nonneg_long del: of_nat_add)
        moreover have mv: "moved w c t w' ?d" using taken(4) by (simp add: moved_def)
        have "held w' ?d args i"
          by (rule held_moved [OF hd tidy_own [OF td] _ _ mv]) (use i ok in \<open>simp_all add: words_ok_def\<close>)
        then have "expects w' ?d args (pending w' ?d @ future)" using taken(3) whole(6) i by (auto simp: expects_def)
        moreover have "tidy (foot t \<union> X) w' ?d"
          by (rule tidy_moved [OF td mv connected_simps(3) [OF taken(2)]])
            (use tidy_slots [OF td] in \<open>simp_all add: client_blocks_def arguments_def\<close>)
        ultimately show ?thesis using taken(2,5) mv ok st by (auto simp: advances_def receiving_def parse_step_def)
      qed
    qed
  qed
qed

section \<open>The arguments\<close>

lemma footprint_live: "db_ok valid w t \<Longrightarrow> Ptr a 0 \<in> footprint t \<Longrightarrow> heap w a \<noteq> None"
  using db_ok_simps(3,4) [of valid w t] unfolding footprint_def struct_ptrs_def structs_ok_def owns_def by fastforce

text \<open>New blocks change nothing for the connection.\<close>

lemma connected_grows:
  assumes con: "connected w sctx t c" and keep: "\<And>a. heap w a \<noteq> None \<Longrightarrow> heap w' a = heap w a"
    and w': "world_ok w'" "sys_fails w' = []" "fresh w \<le> fresh w'"
  shows "connected w' sctx t c" and "pending w' c = pending w c" and "moved w c t w' c"
proof -
  note simps = connected_simps [OF con]
  have buf: "buffer_ok w' c" using simps(3) keep unfolding buffer_ok_def by (cases "buffer c") force+
  have same: "heap w' a = heap w a" if "Ptr a 0 \<in> footprint t" for a
    using keep footprint_live [OF simps(8) that] by blast
  show "connected w' sctx t c" using connected_frame(1) [OF con w'(1,2) buf simps(4,6) same] .
  show "pending w' c = pending w c"
    using simps(3) keep unfolding buffer_ok_def pending_def block_def by (cases "buffer c") force+
  show "moved w c t w' c"
    using connected_frame(2) [OF con w'(1,2) buf simps(4,6) same] keep w'(3) by (auto simp: moved_def)
qed

lemma alloc_vectors_ok:
  assumes con: "connected w sctx t c" and n: "args_total c = of_nat n" "n \<le> 1024"
  obtains (granted) p q w' where "alloc_vectors c w = (c\<lparr>temp_argv := p, argv_slots := replicate n NULL,
      temp_arg_lengths := q, length_slots := replicate n 0\<rparr>, w', True)"
    and "p = Ptr (fresh w) 0" and "q = Ptr (Suc (fresh w)) 0" and "heap w' (fresh w) \<noteq> None" and "heap w' (Suc (fresh w)) \<noteq> None"
    and "connected w' sctx t c" and "pending w' c = pending w c" and "moved w c t w' c"
proof -
  let ?w = "w\<lparr>heap := (heap w)(fresh w \<mapsto> [], Suc (fresh w) \<mapsto> []), fresh := Suc (Suc (fresh w))\<rparr>"
  have "of_nat n * 8 = (of_nat (n * 8) :: size_t)" by simp
  moreover have "unat (of_nat (n * 8) :: size_t) = n * 8" using n(2) by (simp only: unat_of_nat) simp
  ultimately have m: "unat (args_total c * 8) = n * 8" by (simp only: n(1))
  have "alloc_vectors c w = (c\<lparr>temp_argv := Ptr (fresh w) 0, argv_slots := replicate n NULL,
      temp_arg_lengths := Ptr (Suc (fresh w)) 0, length_slots := replicate n 0\<rparr>, ?w, True)"
    using n(2) connected_simps(2) [OF con]
    by (simp add: alloc_vectors_def Let_def m heap_simps)
  moreover have keep: "heap ?w a = heap w a" if "heap w a \<noteq> None" for a
    using connected_simps(5) [OF con] that by (auto simp: world_ok_def)
  have ok: "world_ok ?w" using connected_simps(5) [OF con] by (auto simp: world_ok_def less_Suc_eq)
  moreover have "sys_fails ?w = []" "fresh w \<le> fresh ?w" using connected_simps(2) [OF con] by simp_all
  note connected_grows [OF con keep ok this]
  ultimately show thesis by (intro granted [where p = "Ptr (fresh w) 0" and q = "Ptr (Suc (fresh w)) 0" and w' = ?w]) simp_all
qed

lemma take_argument_ok:
  assumes con: "connected w sctx t c" and at: "args_parsed c = of_nat i" and vec: "vectors c (length args)" and i: "i < length args"
    and len: "data_to_read c = of_nat (length (args ! i))" "length (args ! i) \<le> 8192" "length args \<le> 1024"
    and tok: "length (args ! i) \<le> length (pending w c)" "take (length (args ! i)) (pending w c) = args ! i"
      "pending w c \<noteq> []"
  obtains (stored) w' where "take_argument c w = Inr (c\<lparr>argv_slots := (argv_slots c)[i := Ptr (fresh w) 0],
      length_slots := (length_slots c)[i := of_nat (length (args ! i))], args_parsed := of_nat (Suc i)\<rparr>, w', True)"
    and "connected w' sctx t c" and "pending w' c = pending w c" and "moved w c t w' c"
    and "heap w' (fresh w) = Some (args ! i @ [0])"
proof -
  let ?a = "args ! i" and ?f = "fresh w"
  note simps = connected_simps [OF con]
  obtain b bs where b: "buffer c = Ptr b 0" "heap w b = Some bs" "unat (buffer_used c) \<le> length bs"
    "pending w c = take (unat (buffer_used c)) bs" using simps(3) tok(3) by (rule buffer_ok_Ptr)
  have fb: "b \<noteq> ?f" using b(2) simps(5) by (auto simp: world_ok_def)
  have n: "unat (data_to_read c) = length ?a" "unat (data_to_read c + 1) = Suc (length ?a)"
    using len(1,2) unat_len_Suc [of ?a] by (simp_all add: unat_of_nat)
  have ld: "length ?a \<le> length bs" "take (length ?a) bs = ?a"
    using tok(1,2) b(3,4) by (simp_all add: min_def split: if_splits)
  let ?w1 = "w\<lparr>heap := (heap w)(?f \<mapsto> raw w (Suc (length ?a))), fresh := Suc ?f\<rparr>"
  let ?wa = "w\<lparr>heap := (heap w)(?f \<mapsto> ?a @ drop (length ?a) (raw w (Suc (length ?a)))), fresh := Suc ?f\<rparr>"
  let ?w2 = "w\<lparr>heap := (heap w)(?f \<mapsto> ?a @ [0]), fresh := Suc ?f\<rparr>"
  have m: "malloc (data_to_read c + 1) w = (Ptr ?f 0, ?w1)"
    using malloc_no_fails [OF simps(2), of "data_to_read c + 1"] n(2) len(2) by simp
  have cp: "memcpy (Ptr ?f 0) (buffer c) (length ?a) ?w1 = Inr ?wa"
    using b(1,2) fb ld by (simp add: memcpy_def load_def store_def)
  have "store (ptr_add (Ptr ?f 0) (length ?a)) [0] ?wa = Inr ?w2" by (simp add: store_def ptr_add_def)
  moreover have "unat (args_parsed c) = i" "args_parsed c + 1 = of_nat (Suc i)"
    using at i len(3) by (simp_all add: unat_of_nat)
  ultimately have run: "take_argument c w = Inr (c\<lparr>argv_slots := (argv_slots c)[i := Ptr (fresh w) 0],
      length_slots := (length_slots c)[i := data_to_read c], args_parsed := of_nat (Suc i)\<rparr>, ?w2, True)"
    using vec i cp n by (simp add: take_argument_def m vectors_def)
  have keep: "heap ?w2 a = heap w a" if "heap w a \<noteq> None" for a
    using simps(5) that by (auto simp: world_ok_def)
  have ok: "world_ok ?w2" using simps(5) by (auto simp: world_ok_def less_Suc_eq)
  have "sys_fails ?w2 = []" "fresh w \<le> fresh ?w2" using simps(2) by simp_all
  note connected_grows [OF con keep ok this]
  with run [unfolded len(1)] show thesis by (intro stored [of ?w2]) simp_all
qed

text \<open>The new blocks are the client's own.\<close>

lemma tidy_vectors:
  assumes td: "tidy X w c" and nv: "no_vectors c" and ok: "world_ok w" and mv: "moved w c t w' c" and buf: "buffer_ok w' c"
    and new: "heap w' (fresh w) \<noteq> None" "heap w' (Suc (fresh w)) \<noteq> None" and at: "args_parsed c = 0"
  shows "tidy X w' (c\<lparr>temp_argv := Ptr (fresh w) 0, argv_slots := ss, temp_arg_lengths := Ptr (Suc (fresh w)) 0, length_slots := ns\<rparr>)"
    (is "tidy X w' ?c")
proof -
  have b: "client_blocks ?c = Ptr (fresh w) 0 # Ptr (Suc (fresh w)) 0 # client_blocks c"
    using nv at by (simp add: client_blocks_def arguments_def no_vectors_def)
  have old: "\<forall>p \<in> set (client_blocks c). live w p \<and> live w' p" "distinct (client_blocks c)"
    using td moved_live [OF mv buf] by (auto simp: tidy_def owns_blocks_def)
  have "\<not> live w (Ptr a 0)" if "fresh w \<le> a" for a using ok that by (auto simp: world_ok_def)
  with old(1) have "Ptr (fresh w) 0 \<notin> set (client_blocks c)" "Ptr (Suc (fresh w)) 0 \<notin> set (client_blocks c)" by fastforce+
  with old new at have "owns_blocks w' ?c" by (simp add: owns_blocks_def b)
  moreover have "\<forall>a \<in> X. a < fresh w' \<and> Ptr a 0 \<notin> set (client_blocks ?c)"
    using td mv by (force simp: tidy_def apart_def b moved_def)
  ultimately show ?thesis by (simp add: tidy_def apart_def)
qed

lemma tidy_argument:
  assumes td: "tidy X w c" and vec: "vectors c n" and ok: "world_ok w" and mv: "moved w c t w' c" and buf: "buffer_ok w' c"
    and new: "heap w' (fresh w) \<noteq> None" and at: "args_parsed c = of_nat i" "i < n" "n \<le> 1024"
  shows "tidy X w' (c\<lparr>argv_slots := (argv_slots c)[i := Ptr (fresh w) 0], length_slots := ns, args_parsed := of_nat (Suc i)\<rparr>)"
    (is "tidy X w' ?c")
proof -
  let ?rest = "filter (\<lambda>p. p \<noteq> NULL) [temp_argv c, temp_arg_lengths c, buffer c] @ [ctx_ptr c]"
  have u: "unat (of_nat i :: size_t) = i" "unat (of_nat (Suc i) :: size_t) = Suc i"
    using at(2,3) by (simp_all only: unat_of_nat) simp_all
  then have "arguments ?c = arguments c @ [Ptr (fresh w) 0]"
    using vec at(1,2) by (simp add: arguments_def vectors_def take_Suc_conv_app_nth del: of_nat_Suc)
  then have b: "client_blocks ?c = arguments c @ Ptr (fresh w) 0 # ?rest" "client_blocks c = arguments c @ ?rest"
    by (simp_all add: client_blocks_def)
  have old: "\<forall>p \<in> set (client_blocks c). live w p \<and> live w' p" "distinct (client_blocks c)"
    using td moved_live [OF mv buf] by (auto simp: tidy_def owns_blocks_def)
  have "\<not> live w (Ptr (fresh w) 0)" using world_ok_fresh [OF ok] by simp
  with old(1) have "Ptr (fresh w) 0 \<notin> set (client_blocks c)" by fastforce
  with old new have "distinct (client_blocks ?c) \<and> (\<forall>p \<in> set (client_blocks ?c). live w' p)"
    unfolding b by (simp del: filter.simps)
  then have "owns_blocks w' ?c" using vec at(2) u by (simp add: owns_blocks_def vectors_def del: of_nat_Suc)
  moreover have "\<forall>a \<in> X. a < fresh w' \<and> Ptr a 0 \<notin> set (client_blocks ?c)"
    using td mv unfolding tidy_def apart_def moved_def b by (fastforce simp del: filter.simps)
  ultimately show ?thesis by (simp add: tidy_def apart_def)
qed

text \<open>The vectors are there, and the next argument is stored in them.\<close>

lemma gather:
  assumes con: "connected w sctx t c" and hd: "held w c args i" and td: "tidy X w c" and i: "i < length args"
    and len: "data_to_read c = of_nat (length (args ! i))" "length (args ! i) \<le> 8192" "length args \<le> 1024"
    and tok: "length (args ! i) \<le> length (pending w c)" "take (length (args ! i)) (pending w c) = args ! i"
      "pending w c \<noteq> []"
  obtains (gathered) c1 w1 c2 w2 where "(if args_parsed c = 0 then alloc_vectors c w else (c, w, True)) = (c1, w1, True)"
    and "take_argument c1 w1 = Inr (c2, w2, True)" and "connected w2 sctx t c2" and "pending w2 c2 = pending w c"
    and "moved w c t w2 c2" and "held w2 c2 args (Suc i)" and "data_to_read c2 = data_to_read c"
    and "pstate c2 = pstate c" and "buffer_used c2 = buffer_used c" and "tidy X w2 c2"
proof -
  have at: "args_parsed c = of_nat i" "args_total c = of_nat (length args)" using hd by (simp_all add: held_def)
  obtain c1 w1 where A: "(if args_parsed c = 0 then alloc_vectors c w else (c, w, True)) = (c1, w1, True)"
    "connected w1 sctx t c1" "pending w1 c1 = pending w c" "moved w c t w1 c1" "tidy X w1 c1" "vectors c1 (length args)"
    "data_to_read c1 = data_to_read c" "pstate c1 = pstate c" "buffer_used c1 = buffer_used c"
    "args_parsed c1 = of_nat i" "args_total c1 = of_nat (length args)" "0 < i \<Longrightarrow> c1 = c \<and> w1 = w"
  proof (cases "i = 0")
    case True
    from con at(2) len(3) show thesis
    proof (cases rule: alloc_vectors_ok)
      case (granted p q w')
      have "no_vectors c" "args_parsed c = 0" using hd True by (simp_all add: held_def)
      from tidy_vectors [OF td this(1) connected_simps(5) [OF con] granted(8) connected_simps(3) [OF granted(6)] granted(4,5) this(2)]
      show thesis using True at granted
        by (intro that [of "c\<lparr>temp_argv := p, argv_slots := replicate (length args) NULL,
          temp_arg_lengths := q, length_slots := replicate (length args) 0\<rparr>" w'])
          (simp_all add: moved_def vectors_def)
    qed
  next
    case False
    have "args_parsed c \<noteq> 0" "vectors c (length args)"
      using hd False i len(3) by (simp_all add: held_def of_nat_eq_0_iff unat_eq_0 [symmetric] unat_of_nat)
    with con td at show thesis by (intro that [of c w]) (simp_all add: moved_def)
  qed
  have tok1: "length (args ! i) \<le> length (pending w1 c1)" "take (length (args ! i)) (pending w1 c1) = args ! i"
    "pending w1 c1 \<noteq> []" using A(3) tok by simp_all
  have d: "data_to_read c1 = of_nat (length (args ! i))" using A(7) len(1) by simp
  from A(2,10,6) i d len(2,3) tok1 show thesis
  proof (cases rule: take_argument_ok)
    case (stored w')
    let ?c = "c1\<lparr>argv_slots := (argv_slots c1)[i := Ptr (fresh w1) 0],
      length_slots := (length_slots c1)[i := of_nat (length (args ! i))], args_parsed := of_nat (Suc i)\<rparr>"
    have slots: "length (argv_slots c1) = length args" "length (length_slots c1) = length args" using A(6) by (simp_all add: vectors_def)
    have one: "length_slots ?c ! j = of_nat (length (args ! j)) \<and> (\<exists>a. argv_slots ?c ! j = Ptr a 0 \<and> heap w' a = Some (args ! j @ [0]))"
      if j: "j < Suc i" for j
    proof (cases "j = i")
      case True
      with stored(5) slots i show ?thesis by simp
    next
      case False
      then have ji: "j < i" "c1 = c" "w1 = w" using j A(12) by auto
      have "held w' c1 args i" unfolding ji(2)
        by (rule held_moved [OF hd tidy_own [OF td] _ len(3)]) (use i stored(4) ji in simp_all)
      with False ji(1) show ?thesis by (simp add: held_def)
    qed
    have "held w' ?c args (Suc i)" using A(6,11) one by (simp add: held_def vectors_def)
    moreover have new: "heap w' (fresh w1) \<noteq> None" using stored(5) by simp
    have "tidy X w' ?c"
      by (rule tidy_argument [OF A(5,6) connected_simps(5) [OF A(2)] stored(4) connected_simps(3) [OF stored(2)] new A(10) i len(3)])
    ultimately show thesis using A(1,4,7-9) stored(1-4) A(3) moved_trans [OF A(4), of w' ?c]
      by (intro gathered [of c1 w1 ?c w']) (simp_all add: moved_def)
  qed
qed

text \<open>The test of the code whether the argument and its line end have arrived, and what is behind them.\<close>

lemma data_arrived:
  assumes buf: "buffer_ok w c" and tok: "pending w c @ future = word @ [13, 10] @ rest"
    and len: "data_to_read c = of_nat (length word)" "length word \<le> 8192"
  shows "buffer_used c < data_to_read c + 2 \<longleftrightarrow> length (pending w c) < length word + 2"
    and "length word + 2 \<le> length (pending w c) \<Longrightarrow> take (length word) (pending w c) = word"
    and "length word + 2 \<le> length (pending w c) \<Longrightarrow> drop (length word + 2) (pending w c) @ future = rest"
proof -
  have sum: "data_to_read c + 2 = of_nat (length word + 2)" by (simp add: len)
  have "unat (of_nat (length word + 2) :: size_t) = length word + 2" using len(2) by (simp only: unat_of_nat) simp
  then show "buffer_used c < data_to_read c + 2 \<longleftrightarrow> length (pending w c) < length word + 2"
    unfolding sum word_less_nat_alt by (simp add: buffer_ok_block(2) [OF buf])
  assume all: "length word + 2 \<le> length (pending w c)"
  then have "take (length word) (pending w c) = take (length word) (pending w c @ future)" by simp
  also have "\<dots> = word" by (simp only: tok) simp
  finally show "take (length word) (pending w c) = word" .
  have "pending w c @ future = (word @ [13, 10]) @ rest" "length (word @ [13, 10]) \<le> length (pending w c)"
    using tok all by simp_all
  from prefix_of_block(2) [OF buf this] show "drop (length word + 2) (pending w c) @ future = rest" by simp
qed

text \<open>An argument that is not the last one: the parser waits for the length of the next.\<close>

lemma next_argument:
  assumes con: "connected w sctx t c" and ok: "words_ok args" and i: "Suc i < length args" and hd: "held w c args (Suc i)"
    and td: "tidy (foot t \<union> X) w c" and tok: "pending w c @ future = concat (map bulk (drop (Suc i) args))"
  shows "args_parsed c \<noteq> args_total c" and "receiving X w sctx t (c\<lparr>pstate := PARSE_STATE_EXPECT_LENGTH\<rparr>) args future"
proof -
  have "length args \<le> 1024" using ok by (simp add: words_ok_def)
  then have "unat (args_parsed c) = Suc i" "unat (args_total c) = length args"
    using hd i by (simp_all add: held_def unat_of_nat del: of_nat_Suc)
  with i show "args_parsed c \<noteq> args_total c" by fastforce
  have "held w (c\<lparr>pstate := PARSE_STATE_EXPECT_LENGTH\<rparr>) args (Suc i)" by (rule held_frame [OF hd]) simp_all
  with con ok i td tok show "receiving X w sctx t (c\<lparr>pstate := PARSE_STATE_EXPECT_LENGTH\<rparr>) args future"
    by (auto simp: receiving_def expects_def intro!: exI [of _ "Suc i"])
qed

lemma data_round:
  assumes rec: "receiving X w sctx t c args future" and st: "pstate c = PARSE_STATE_EXPECT_DATA"
  shows "parse_step pf sctx c w = Inr (False, sctx, c, w) \<and> future \<noteq> [] \<or>
    advances X w sctx t c args future (parse_step pf sctx c w) \<or>
    future = [] \<and> pending w c \<noteq> [] \<and> (\<exists>c' w'. parse_step pf sctx c w = run_request pf sctx c' w' \<and> connected w' sctx t c' \<and>
      moved w c t w' c' \<and> held w' c' args (length args) \<and> tidy (foot t \<union> X) w' c' \<and> pending w' c' = [] \<and>
      pstate c' = PARSE_STATE_EXPECT_DATA \<and> data_to_read c' = of_nat (length (last args)))"
proof -
  obtain i where con: "connected w sctx t c" and ok: "words_ok args" and i: "i < length args" and hd: "held w c args i"
    and td: "tidy (foot t \<union> X) w c"
    and len: "data_to_read c = of_nat (length (args ! i))"
    and tok: "pending w c @ future = args ! i @ [13, 10] @ concat (map bulk (drop (Suc i) args))"
    using rec st by (auto simp: receiving_def expects_def)
  let ?a = "args ! i"
  note buf = connected_simps(3) [OF con]
  have n: "length ?a \<le> 8192" "length args \<le> 1024" using ok i by (simp_all add: words_ok_def)
  note arrived = data_arrived [OF buf tok len n(1)]
  have sum: "data_to_read c + 2 = of_nat (length ?a + 2)" by (simp add: len)
  show ?thesis
  proof (cases "length (pending w c) < length ?a + 2")
    case True
    then have "future \<noteq> []" using arg_cong [OF tok, of length] by auto
    with True show ?thesis using st arrived(1) by (simp add: parse_step_def parse_data_def)
  next
    case False
    then have cut: "length ?a \<le> length (pending w c)" "take (length ?a) (pending w c) = ?a" "pending w c \<noteq> []"
      and rest: "drop (length ?a + 2) (pending w c) @ future = concat (map bulk (drop (Suc i) args))"
      using arrived(2,3) by auto
    from con hd td i len n cut show ?thesis
    proof (cases rule: gather)
      case (gathered c1 w1 c2 w2)
      have k: "0 < length ?a + 2" "length ?a + 2 \<le> length (pending w2 c2)" using gathered(4) False by simp_all
      from gathered(3) k show ?thesis
      proof (cases rule: take_header)
        case (taken w3)
        let ?c = "c2\<lparr>buffer_used := buffer_used c2 - of_nat (length ?a + 2)\<rparr>"
        have mv: "moved w c t w3 ?c" using gathered(5) taken(4) by (rule moved_trans)
        have hd': "held w3 ?c args (Suc i)"
          by (rule held_moved [OF gathered(6) tidy_own [OF gathered(10)] _ n(2) taken(4)]) (use i in simp_all)
        have td': "tidy (foot t \<union> X) w3 ?c"
          by (rule tidy_moved [OF gathered(10) taken(4) connected_simps(3) [OF taken(2)]])
            (use tidy_slots [OF gathered(10)] in \<open>simp_all add: client_blocks_def arguments_def\<close>)
        have pend: "pending w3 ?c @ future = concat (map bulk (drop (Suc i) args))"
          using taken(3) gathered(4) rest by simp
        have step: "parse_data pf sctx c w =
            (if args_parsed ?c = args_total ?c then run_request pf sctx ?c w3
             else Inr (True, sctx, ?c\<lparr>pstate := PARSE_STATE_EXPECT_LENGTH\<rparr>, w3))"
          unfolding parse_data_def sum [symmetric] using arrived(1) False gathered(1,2) taken(1) [folded sum] by simp
        show ?thesis
        proof (cases "Suc i = length args")
          case True
          then have all: "args_parsed ?c = args_total ?c" using hd' by (simp add: held_def)
          have lst: "args ! i = last args" using True i by (metis diff_Suc_1 last_conv_nth list.size(3) not_less_zero)
          from all True step taken(2) mv hd' td' pend gathered(7,8) st cut(3) len lst show ?thesis
            by (intro disjI2 conjI exI [of _ ?c] exI [of _ w3]) (simp_all add: parse_step_def)
        next
          case False
          then have "Suc i < length args" using i by simp
          from next_argument [OF taken(2) ok this hd' td' pend] step mv taken(5) gathered(9) st show ?thesis
            by (auto simp: advances_def parse_step_def moved_def)
        qed
      qed
    qed
  qed
qed

end
