(* ===== verification/Requests.thy ===== *)
theory Requests
  imports Parsing
begin

text \<open>
  A whole request: its words on the wire, the run of the parser over them, the reply that is written. The
  bytes may arrive in any pieces.
\<close>

section \<open>The reply\<close>

definition sendable :: "platform \<Rightarrow> nat \<Rightarrow> bool" where
  "sendable pf n \<longleftrightarrow> n + 1 < 2 ^ 32 \<and> 1 \<le> spare pf (Suc n) \<and> sizeof_write_req pf < 2 ^ 63"

text \<open>The reply is moved to a block of one byte more than its text.\<close>

lemma reply_grown:
  assumes ok: "world_ok w" and quiet: "sys_fails w = []"
    and body: "body x = Ptr a 0" "heap w a = Some bs" "unat (body_length x) \<le> length bs"
    and msg: "reply_bytes w x = msg" "length msg + 1 < 2 ^ 32"
  obtains b w1 where "realloc (body x) (body_length x + 1) w = Inr (Ptr (fresh w) 0, w1)"
    and "heap w1 = (heap w)(a := None, fresh w \<mapsto> msg @ [b])" and "fresh w1 = Suc (fresh w)" and "sys_fails w1 = []"
    and "unat (body_length x + 1) = Suc (length msg)" and "unat (body_length x) = length msg"
proof -
  let ?n = "body_length x + 1"
  have m: "msg = take (unat (body_length x)) bs" using msg(1) body(1,2) by (simp add: reply_bytes_def block_def)
  then have len: "length msg = unat (body_length x)" using body(3) by simp
  have m': "take (length msg) bs = msg" "length msg \<le> length bs" using m len body(3) by simp_all
  have n: "unat ?n = Suc (length msg)" using msg(2) len by (simp add: unat_word_ariths)
  have pos: "0 < unat ?n" "unat ?n < 2 ^ 63" using n msg(2) by simp_all
  have lv: "body x = NULL \<or> live w (body x)" using body by simp
  obtain w1 where w1: "realloc (body x) ?n w = Inr (Ptr (fresh w) 0, w1)"
    "heap w1 = (without (body x) (heap w))(fresh w \<mapsto>
      take (unat ?n) (block w (body x)) @ drop (length (block w (body x))) (raw w (unat ?n)))"
    "fresh w1 = Suc (fresh w)" "sys_fails w1 = []"
    using realloc_grants [OF ok quiet pos lv] by metis
  obtain b where b: "take (Suc (length msg)) bs @ drop (length bs) (raw w (Suc (length msg))) = msg @ [b]"
  proof (cases "length bs = length msg")
    case True
    then have "length (drop (length bs) (raw w (Suc (length msg)))) = Suc 0" by simp
    then obtain b where "drop (length bs) (raw w (Suc (length msg))) = [b]" by (auto simp: length_Suc_conv simp del: length_drop)
    with m' True show thesis by (intro that [of b]) simp
  next
    case False
    then have "length msg < length bs" using m'(2) by simp
    then show thesis using m'(1) by (intro that [of "bs ! length msg"]) (simp add: take_Suc_conv_app_nth)
  qed
  have "heap w1 = (heap w)(a := None, fresh w \<mapsto> msg @ [b])" using w1(2) b body(1,2) n by (simp add: without_def block_def)
  with w1(1,3,4) n len show thesis by (intro that) simp_all
qed

text \<open>With a spare byte behind the reply the text and the CR are sent; the LF is not.\<close>

lemma send_reply_ok:
  assumes ok: "world_ok w" and quiet: "sys_fails w = []"
    and body: "body x = Ptr a 0" "heap w a = Some bs" "unat (body_length x) \<le> length bs"
    and msg: "reply_bytes w x = msg" "sendable pf (length msg)"
  obtains (sent) req w' where "send_reply pf x c w = Inr (True, uv_call (Uv_write req) c, w')"
    and "req = \<lparr>req_ptr = Ptr (Suc (fresh w)) 0, buf_base = Ptr (fresh w) 0, buf_len = Suc (length msg)\<rparr>"
    and "heap w' = (heap w)(a := None, fresh w \<mapsto> msg @ [13], Suc (fresh w) \<mapsto> [])"
    and "fresh w' = Suc (Suc (fresh w))" and "sys_fails w' = []" and "world_ok w'"
proof -
  let ?n = "body_length x + 1" and ?h = "(heap w)(a := None)"
  have small: "length msg + 1 < 2 ^ 32" "1 \<le> spare pf (Suc (length msg))" "sizeof_write_req pf < 2 ^ 63"
    using msg(2) by (simp_all add: sendable_def)
  obtain b w1 where w1: "realloc (body x) ?n w = Inr (Ptr (fresh w) 0, w1)" "heap w1 = ?h(fresh w \<mapsto> msg @ [b])"
    "fresh w1 = Suc (fresh w)" "sys_fails w1 = []" "unat ?n = Suc (length msg)" "unat (body_length x) = length msg"
    using reply_grown [OF ok quiet body msg(1) small(1)] by metis
  let ?wc = "w1\<lparr>heap := ?h(fresh w \<mapsto> msg @ [13])\<rparr>"
  let ?wd = "w1\<lparr>heap := ?h(fresh w \<mapsto> msg @ [13], Suc (fresh w) \<mapsto> []), fresh := Suc (Suc (fresh w))\<rparr>"
  have cr: "store (ptr_add (Ptr (fresh w) 0) (unat (body_length x))) [13] w1 = Inr ?wc"
    by (simp add: store_def ptr_add_def w1(2,6))
  have lf: "store_behind pf (Ptr (fresh w) 0) (unat ?n) 10 ?wc = Inr ?wc"
    using small(2) by (simp add: store_behind_def block_def w1(5))
  have al: "alloc_struct (sizeof_write_req pf) ?wc = (Ptr (Suc (fresh w)) 0, ?wd)"
    using small(3) w1(3,4) by (simp add: heap_simps)
  have "\<not> ?n > 4294967295" using w1(5) small(1) by (simp add: word_less_nat_alt)
  then have ui: "sizet_to_uint ?n (Some False) = (ucast ?n, Some False)" "unat (ucast ?n :: 32 word) = Suc (length msg)"
    using w1(5) small(1) by (simp_all add: sizet_to_uint_def unsigned_ucast_eq unat_word_ariths take_bit_nat_eq_self)
  have run: "send_reply pf x c w = Inr (True, uv_call (Uv_write
      \<lparr>req_ptr = Ptr (Suc (fresh w)) 0, buf_base = Ptr (fresh w) 0, buf_len = Suc (length msg)\<rparr>) c, ?wd)"
    by (simp add: send_reply_def w1(1) cr lf al ui Let_def)
  have "world_ok ?wd" using ok by (auto simp: world_ok_def less_Suc_eq)
  with run w1(4) show thesis by (intro sent [OF run]) simp_all
qed

text \<open>Without one, the line feed is written behind the end of the block.\<close>

lemma send_reply_overruns:
  assumes ok: "world_ok w" and quiet: "sys_fails w = []"
    and body: "body x = Ptr a 0" "heap w a = Some bs" "unat (body_length x) \<le> length bs"
    and msg: "reply_bytes w x = msg" "length msg + 1 < 2 ^ 32" "spare pf (Suc (length msg)) = 0"
  shows "send_reply pf x c w = Inl BufferOverrun"
proof -
  let ?n = "body_length x + 1" and ?h = "(heap w)(a := None)"
  obtain b w1 where w1: "realloc (body x) ?n w = Inr (Ptr (fresh w) 0, w1)" "heap w1 = ?h(fresh w \<mapsto> msg @ [b])"
    "unat ?n = Suc (length msg)" "unat (body_length x) = length msg"
    using reply_grown [OF ok quiet body msg(1,2)] by metis
  let ?wc = "w1\<lparr>heap := ?h(fresh w \<mapsto> msg @ [13])\<rparr>"
  have cr: "store (ptr_add (Ptr (fresh w) 0) (unat (body_length x))) [13] w1 = Inr ?wc"
    by (simp add: store_def ptr_add_def w1(2,4))
  have "store_behind pf (Ptr (fresh w) 0) (unat ?n) 10 ?wc = Inl BufferOverrun"
    by (simp add: store_behind_def store_def ptr_add_def block_def w1(3) msg(3))
  then show ?thesis by (simp add: send_reply_def w1(1) cr Let_def)
qed

section \<open>Running a request\<close>

lemma map_leI: "(\<And>a b. m a = Some b \<Longrightarrow> m' a = Some b) \<Longrightarrow> m \<subseteq>\<^sub>m m'"
  by (auto simp: map_le_def dom_def)

lemma map_leD: "m \<subseteq>\<^sub>m m' \<Longrightarrow> m a = Some b \<Longrightarrow> m' a = Some b"
  by (auto simp: map_le_def dom_def)

fun words :: "request \<Rightarrow> byte list list" where
  "words (Req_get k) = [lit_bytes ''GET'', k]"
| "words (Req_set k d) = [lit_bytes ''SET'', k, d]"
| "words (Req_add k d) = [lit_bytes ''ADD'', k, d]"
| "words (Req_del k) = [lit_bytes ''DEL'', k]"
| "words (Req_exist k) = [lit_bytes ''EXIST'', k]"
| "words (Req_replace k d) = [lit_bytes ''REPLACE'', k, d]"
| "words Req_clear = [lit_bytes ''CLEAR'']"

text \<open>The vectors hold the words of a request: the server calls the command with its arguments.\<close>

lemma run_words:
  assumes "held w c (words r) (length (words r))"
  shows "run_request pf sctx c w = bindE (execute r sctx w) (\<lambda>(x, sctx', w1).
    bindE (send_reply pf x c w1) (\<lambda>(go, c1, w2). Inr (go, sctx', c1, w2)))"
proof -
  have ne: "0 < length (words r)" by (cases r) simp_all
  then have vec: "length (argv_slots c) = length (words r)" "length (length_slots c) = length (words r)"
    and tot: "args_total c = of_nat (length (words r))"
    using assms by (simp_all add: held_def vectors_def)
  have argv: "map (block w) (argv_slots c) = map (\<lambda>a. a @ [0]) (words r)"
  proof (rule nth_equalityI)
    fix j assume "j < length (map (block w) (argv_slots c))"
    then have j: "j < length (words r)" using vec by simp
    then obtain a where "argv_slots c ! j = Ptr a 0" "heap w a = Some (words r ! j @ [0])"
      using assms unfolding held_def by blast
    with j vec show "map (block w) (argv_slots c) ! j = map (\<lambda>a. a @ [0]) (words r) ! j" by (simp add: block_def)
  qed (simp add: vec)
  have lens: "length_slots c = map (\<lambda>a. of_nat (length a)) (words r)"
  proof (rule nth_equalityI)
    fix j assume "j < length (length_slots c)"
    with vec assms show "length_slots c ! j = map (\<lambda>a. of_nat (length a)) (words r) ! j" by (simp add: held_def)
  qed (simp add: vec)
  obtain p ps where ps: "argv_slots c = p # ps" using vec(1) ne by (cases "argv_slots c") auto
  have "block w p = hd (map (block w) (argv_slots c))" "map (block w) ps = tl (map (block w) (argv_slots c))"
    by (simp_all add: ps)
  then show ?thesis
    unfolding argv by (cases r) (simp_all add: run_request_def ps lens tot sizet_to_int_def execute_def literal_def)
qed

lemma footprint_NULL: "db_ok valid w t \<Longrightarrow> NULL \<notin> footprint t"
  using db_ok_simps(3,4) [of valid w t] unfolding footprint_def struct_ptrs_def structs_ok_def owns_def by fastforce

text \<open>The command has been executed; the reply is a block of its own.\<close>

lemma run_executes:
  assumes con: "connected w sctx t c" and ok: "request_ok r"
    and spec: "kv_answer (request_full sctx r) r (view w sctx) = (st, msg, m)"
  obtains (executed) x sctx1 t' w1 a bs where "execute r sctx w = Inr (x, sctx1, w1)" and "serving w1 sctx1 t'" and "world_ok w1"
    and "outside w t \<subseteq>\<^sub>m outside w1 t'" and "sys_fails w1 = []" and "reply_bytes w1 x = msg" and "view w1 sctx1 = m"
    and "body x = Ptr a 0" and "heap w1 a = Some bs" and "Ptr a 0 \<notin> footprint t'" and "outside w t a = None"
    and "unat (body_length x) \<le> length bs"
proof -
  note simps = connected_simps [OF con]
  have ctx: "ctx_ok w sctx" using simps(1) by (auto simp: ctx_ok_def)
  obtain x sctx1 w1 where run: "execute r sctx w = Inr (x, sctx1, w1)" "ctx_ok w1 sctx1" "beside w sctx \<subseteq>\<^sub>m beside w1 sctx1"
    "sys_fails w1 = []" "ready_reply (beside w sctx) (beside w1 sctx1) x" "reply_bytes w1 x = msg" "view w1 sctx1 = m"
    using every_request_meets [OF ctx ok] simps(2) by (auto simp: meets_def spec)
  obtain t' where srv: "serving w1 sctx1 t'" using run(2) by (auto simp: ctx_ok_def)
  note s1 = serving_simps [OF srv]
  have ok1: "world_ok w1" using s1(2) by (simp add: db_ok_def)
  have be: "beside w sctx = outside w t" "beside w1 sctx1 = outside w1 t'"
    using simps(7) s1(1) by (simp_all add: beside_def)
  obtain a bs where body: "body x = Ptr a 0" "outside w1 t' a = Some bs" "outside w t a = None" "unat (body_length x) \<le> length bs"
    using run(5) by (auto simp: ready_reply_def be)
  have "heap w1 a = Some bs" "Ptr a 0 \<notin> footprint t'" using body(2) by (auto simp: outside_def split: if_splits)
  with run(1,4,6,7) run(3) [unfolded be] srv ok1 body(1,3,4) show thesis by (intro executed)
qed

lemma run_request_overruns:
  assumes con: "connected w sctx t c" and hd: "held w c (words r) (length (words r))" and ok: "request_ok r"
    and spec: "kv_answer (request_full sctx r) r (view w sctx) = (st, msg, m)"
    and len: "length msg + 1 < 2 ^ 32" "spare pf (Suc (length msg)) = 0"
  shows "run_request pf sctx c w = Inl BufferOverrun"
  using con ok spec
proof (cases rule: run_executes)
  case A: (executed x sctx1 t' w1 a bs)
  show ?thesis
    using run_words [OF hd] A(1) send_reply_overruns [OF A(3,5,8,9,12,6) len] by simp
qed

text \<open>The reply and the request of the write are two new blocks outside the database.\<close>

definition reply_blocks :: "world \<Rightarrow> hashtable \<Rightarrow> world \<Rightarrow> hashtable \<Rightarrow> byte list \<Rightarrow> write_req \<Rightarrow> bool" where
  "reply_blocks w t w' t' msg req \<longleftrightarrow>
     (\<exists>a b. buf_base req = Ptr a 0 \<and> req_ptr req = Ptr b 0 \<and> a \<noteq> b \<and> outside w' t' a = Some (msg @ [13]) \<and>
        outside w' t' b = Some [] \<and> outside w t a = None \<and> outside w t b = None) \<and> buf_len req = Suc (length msg)"

lemma reply_blocks_text:
  "reply_blocks w t w' t' msg req \<Longrightarrow> block w' (buf_base req) = msg @ [13] \<and> buf_len req = Suc (length msg)"
  by (auto simp: reply_blocks_def block_def outside_def split: if_splits)

text \<open>
  One request of a connection, when memory is granted: the reply of the specification is handed to libuv.
\<close>

lemma run_request_ok:
  assumes con: "connected w sctx t c" and hd: "held w c (words r) (length (words r))" and ok: "request_ok r"
    and spec: "kv_answer (request_full sctx r) r (view w sctx) = (st, msg, m)" and snd: "sendable pf (length msg)"
  obtains (answered) sctx' t' req w' where "run_request pf sctx c w = Inr (True, sctx', uv_call (Uv_write req) c, w')"
    and "connected w' sctx' t' (uv_call (Uv_write req) c)" and "pending w' c = pending w c" and "view w' sctx' = m"
    and "outside w t \<subseteq>\<^sub>m outside w' t'" and "reply_blocks w t w' t' msg req"
proof -
  note simps = connected_simps [OF con]
  obtain x sctx1 t' w1 a bs where run: "execute r sctx w = Inr (x, sctx1, w1)" and srv: "serving w1 sctx1 t'" and ok1: "world_ok w1"
    and grow: "outside w t \<subseteq>\<^sub>m outside w1 t'" and rep: "sys_fails w1 = []" "reply_bytes w1 x = msg" "view w1 sctx1 = m"
    and body: "body x = Ptr a 0" "heap w1 a = Some bs" "Ptr a 0 \<notin> footprint t'" "outside w t a = None"
      "unat (body_length x) \<le> length bs"
    using run_executes [OF con ok spec] by metis
  note s1 = serving_simps [OF srv]
  obtain req w' where sent: "send_reply pf x c w1 = Inr (True, uv_call (Uv_write req) c, w')"
    "req = \<lparr>req_ptr = Ptr (Suc (fresh w1)) 0, buf_base = Ptr (fresh w1) 0, buf_len = Suc (length msg)\<rparr>"
    "heap w' = (heap w1)(a := None, fresh w1 \<mapsto> msg @ [13], Suc (fresh w1) \<mapsto> [])"
    "fresh w' = Suc (Suc (fresh w1))" "sys_fails w' = []" "world_ok w'"
    using send_reply_ok [OF ok1 rep(1) body(1,2,5) rep(2) snd, of c] by metis
  have keep: "heap w' b = heap w1 b" if "b \<noteq> a" "heap w1 b \<noteq> None" for b
    using that ok1 sent(3) by (auto simp: world_ok_def)
  have foot: "heap w' b = heap w1 b" if "Ptr b 0 \<in> footprint t'" for b
    using keep [of b] that body(3) footprint_live [OF s1(2) that] by blast
  have out: "outside w t \<subseteq>\<^sub>m outside w' t'"
  proof (rule map_leI)
    fix b cs assume b: "outside w t b = Some cs"
    then have "outside w1 t' b = Some cs" by (rule map_leD [OF grow])
    moreover from this have "heap w' b = heap w1 b"
      using b body(4) by (intro keep) (auto simp: outside_def split: if_splits)
    ultimately show "outside w' t' b = Some cs" by (simp add: outside_def split: if_splits)
  qed
  have same: "outside w' t' b = Some cs" if "buffer c = Ptr b 0" "heap w b = Some cs" for b cs
    using map_leD [OF out, of b cs] that simps(4) by (simp add: outside_def)
  have buf: "buffer_ok w' c \<and> pending w' c = pending w c \<and> buffer c \<notin> footprint t'"
  proof (cases "buffer c")
    case NULL
    then show ?thesis using simps(3) footprint_NULL [OF s1(2)] by (simp add: buffer_ok_def pending_def)
  next
    case (Ptr b off)
    then obtain cs where b: "off = 0" "heap w b = Some cs" using simps(3) by (auto simp: buffer_ok_def)
    with same [of b cs] Ptr have "heap w' b = Some cs" "Ptr b 0 \<notin> footprint t'" by (auto simp: outside_def split: if_splits)
    then show ?thesis using Ptr b simps(3) by (simp add: buffer_ok_def pending_def block_def)
  qed
  have srv': "serving w' sctx1 t'" "stored w' t' = stored w1 t'"
    using serving_outside [OF srv sent(6) foot] by simp_all
  then have "view w' sctx1 = m" using rep(3) s1(5) serving_simps(5) [OF srv'(1)] by simp
  moreover have "connected w' sctx1 t' (uv_call (Uv_write req) c)"
    using srv'(1) sent(5) buf simps(6) by (simp add: connected_def uv_call_def)
  moreover have new: "Ptr b 0 \<notin> footprint t' \<and> outside w t b = None" if b: "fresh w1 \<le> b" for b
  proof -
    have none: "heap w1 b = None" using b ok1 by (auto simp: world_ok_def)
    then have "outside w t b = None" using map_leD [OF grow, of b] by (cases "outside w t b") (auto simp: outside_def split: if_splits)
    with none show ?thesis using footprint_live [OF s1(2)] by blast
  qed
  then have "reply_blocks w t w' t' msg req"
    using sent(2,3) new [of "fresh w1"] new [of "Suc (fresh w1)"] by (simp add: reply_blocks_def outside_def)
  ultimately show thesis
    using run_words [OF hd] run sent(1) out buf by (intro answered) simp_all
qed

section \<open>The loop\<close>

type_synonym parsed = "fault + (server_context \<times> client_context \<times> world)"

definition still_receiving ::
    "nat set \<Rightarrow> world \<Rightarrow> server_context \<Rightarrow> hashtable \<Rightarrow> client_context \<Rightarrow> byte list list \<Rightarrow> byte list \<Rightarrow> parsed \<Rightarrow> bool" where
  "still_receiving X w sctx t c args future result \<longleftrightarrow> future \<noteq> [] \<and>
     (\<exists>c' w'. result = Inr (sctx, c', w') \<and> receiving X w' sctx t c' args future \<and> moved w c t w' c')"

lemma still_receiving_moved:
  "moved w c t w1 c1 \<Longrightarrow> still_receiving X w1 sctx t c1 args future result \<Longrightarrow> still_receiving X w sctx t c args future result"
  unfolding still_receiving_def by (blast intro: moved_trans)

text \<open>
  The state of a connection after its request: nothing is reset, so the parser still expects data for an
  argument, and all slots of the vectors are taken.
\<close>

definition spent :: "client_context \<Rightarrow> byte list list \<Rightarrow> bool" where
  "spent c args \<longleftrightarrow> pstate c = PARSE_STATE_EXPECT_DATA \<and> args_parsed c = of_nat (length args) \<and> vectors c (length args) \<and>
     data_to_read c = of_nat (length (last args))"

definition reply_set :: "write_req \<Rightarrow> nat set" where
  "reply_set req = {a. Ptr a 0 = buf_base req \<or> Ptr a 0 = req_ptr req}"

text \<open>The request has been run: the reply is written, the map is \<open>m\<close>, and other blocks are as they were.\<close>

definition answered ::
    "nat set \<Rightarrow> world \<Rightarrow> hashtable \<Rightarrow> client_context \<Rightarrow> byte list list \<Rightarrow> byte list \<Rightarrow> store_map \<Rightarrow> parsed \<Rightarrow> bool" where
  "answered X w t c args msg m result \<longleftrightarrow>
     (\<exists>sctx' t' c' w' req. result = Inr (sctx', c', w') \<and> connected w' sctx' t' c' \<and> pending w' c' = [] \<and>
        view w' sctx' = m \<and> calls c' = calls c @ [Uv_write req] \<and> buffer c' = buffer c \<and> spent c' args \<and>
        reply_blocks w t w' t' msg req \<and>
        (\<forall>a bs. outside w t a = Some bs \<longrightarrow> buffer c \<noteq> Ptr a 0 \<longrightarrow> outside w' t' a = Some bs) \<and>
        owns_blocks w' c' \<and> apart (foot t' \<union> X \<union> reply_set req) c')"

lemma outside_moved:
  assumes "moved w c t w1 c1" and "connected w1 sctx t c1" and "outside w t a = Some bs" and "buffer c \<noteq> Ptr a 0"
  shows "outside w1 t a = Some bs"
  using assms by (auto simp: moved_def outside_def split: if_splits)

lemma outside_moved_None:
  assumes mv: "moved w c t w1 c1" and con: "connected w1 sctx t c1" and none: "outside w1 t a = None"
  shows "outside w t a = None"
proof (cases "buffer c = Ptr a 0")
  case True
  then have "buffer c1 = Ptr a 0" using mv by (simp add: moved_def)
  then show ?thesis
    using none buffer_ok_live [OF connected_simps(3) [OF con]] connected_simps(4) [OF con] by (auto simp: outside_def)
next
  case False
  show ?thesis
  proof (rule ccontr)
    assume "outside w t a \<noteq> None"
    then obtain bs where "outside w t a = Some bs" by blast
    from outside_moved [OF mv con this False] none show False by simp
  qed
qed

lemma answered_moved:
  assumes mv: "moved w c t w1 c1" and con: "connected w1 sctx t c1" and ans: "answered X w1 t c1 args msg m result"
  shows "answered X w t c args msg m result"
proof -
  have "calls c1 = calls c" "buffer c1 = buffer c" using mv by (simp_all add: moved_def)
  moreover have "reply_blocks w t w' t' msg req" if "reply_blocks w1 t w' t' msg req" for w' t' req
    using that outside_moved_None [OF mv con] unfolding reply_blocks_def by blast
  ultimately show ?thesis using ans outside_moved [OF mv con] unfolding answered_def by simp blast
qed

lemma parse_round:
  assumes rec: "receiving X w sctx t c args future"
  shows "parse_step pf sctx c w = Inr (False, sctx, c, w) \<and> future \<noteq> [] \<or>
    advances X w sctx t c args future (parse_step pf sctx c w) \<or>
    future = [] \<and> pending w c \<noteq> [] \<and> (\<exists>c' w'. parse_step pf sctx c w = run_request pf sctx c' w' \<and>
      connected w' sctx t c' \<and> moved w c t w' c' \<and> held w' c' args (length args) \<and> tidy (foot t \<union> X) w' c' \<and>
      pending w' c' = [] \<and> pstate c' = PARSE_STATE_EXPECT_DATA \<and> data_to_read c' = of_nat (length (last args)))"
  using type_round [OF rec, of pf] length_round [OF rec, of pf] data_round [OF rec, of pf] by (cases "pstate c") blast+

text \<open>The blocks of the client are neither freed nor taken by the table.\<close>

lemma run_keeps_own:
  assumes td: "tidy (foot t \<union> X) w c" and out: "outside w t \<subseteq>\<^sub>m outside w' t'" and new: "reply_blocks w t w' t' msg req"
  shows "owns_blocks w' c" and "apart (foot t' \<union> X \<union> reply_set req) c"
proof -
  have each: "p \<noteq> NULL \<and> (\<forall>a off. p = Ptr a off \<longrightarrow> off = 0 \<and> outside w t a \<noteq> None \<and> outside w' t' a \<noteq> None)"
    if p: "p \<in> set (client_blocks c)" for p
  proof (cases p)
    case NULL
    with td p show ?thesis by (auto simp: tidy_def owns_blocks_def)
  next
    case (Ptr a off)
    have lv: "live w p" using td p by (simp add: tidy_def owns_blocks_def)
    with Ptr have "off = 0" "heap w a \<noteq> None" by simp_all
    moreover from this have "Ptr a 0 \<notin> footprint t" using td p Ptr by (auto simp: tidy_def apart_def foot_def)
    ultimately obtain bs where "outside w t a = Some bs" by (auto simp: outside_def)
    with Ptr \<open>off = 0\<close> map_leD [OF out this] show ?thesis by simp
  qed
  have live: "live w' p" if p: "p \<in> set (client_blocks c)" for p
    using each [OF p] by (cases p) (auto simp: outside_def split: if_splits)
  then show "owns_blocks w' c" using td by (simp add: tidy_def owns_blocks_def)
  have "Ptr a 0 \<notin> set (client_blocks c)" if a: "a \<in> foot t' \<union> X \<union> reply_set req" for a
  proof
    assume m: "Ptr a 0 \<in> set (client_blocks c)"
    with each [OF m] have o: "outside w t a \<noteq> None" "Ptr a 0 \<notin> footprint t'" by (auto simp: outside_def split: if_splits)
    moreover have "a \<notin> X" using td m by (auto simp: tidy_def apart_def)
    ultimately show False using a new by (auto simp: foot_def reply_set_def reply_blocks_def)
  qed
  then show "apart (foot t' \<union> X \<union> reply_set req) c" by (simp add: apart_def)
qed

lemma run_and_wait:
  assumes con: "connected w sctx t c" and hd: "held w c (words r) (length (words r))" and ok: "request_ok r"
    and td: "tidy (foot t \<union> X) w c"
    and spec: "kv_answer (request_full sctx r) r (view w sctx) = (st, msg, m)" and snd: "sendable pf (length msg)"
    and idle: "pending w c = []" "pstate c = PARSE_STATE_EXPECT_DATA" "data_to_read c = of_nat (length (last (words r)))" and n: "0 < n"
    and len: "words_ok (words r)"
  shows "answered X w t c (words r) msg m (bindE (run_request pf sctx c w)
    (\<lambda>(go, sctx1, c1, w1). if go then parse_loop n pf sctx1 c1 w1 else Inr (sctx1, c1, w1)))"
  using con hd ok spec snd
proof (cases rule: run_request_ok)
  case A: (answered sctx' t' req w')
  let ?c = "uv_call (Uv_write req) c"
  have "buffer_used c = 0" using idle(1) used_pending [OF connected_simps(3) [OF con]] by simp
  moreover have "length (last (words r)) \<le> 8192" using len by (simp add: words_ok_def)
  then have "unat (of_nat (length (last (words r)) + 2) :: size_t) = length (last (words r)) + 2"
    by (simp only: unat_of_nat) simp
  then have "data_to_read c + 2 \<noteq> 0" unfolding idle(3) by (metis add_is_0 of_nat_add of_nat_numeral unat_0 zero_neq_numeral)
  ultimately have "buffer_used ?c < data_to_read ?c + 2" "pstate ?c = PARSE_STATE_EXPECT_DATA"
    using idle by (simp_all add: uv_call_def word_neq_0_conv)
  then have "parse_step pf sctx' ?c w' = Inr (False, sctx', ?c, w')" by (simp add: parse_step_def parse_data_def)
  with n have "parse_loop n pf sctx' ?c w' = Inr (sctx', ?c, w')" by (cases n) simp_all
  moreover have "pending w' ?c = []" using A(3) idle(1) by (simp add: uv_call_def)
  moreover have "spent ?c (words r)" using hd idle(2,3) by (cases r) (simp_all add: spent_def held_def vectors_def uv_call_def)
  moreover have "owns_blocks w' ?c \<and> apart (foot t' \<union> X \<union> reply_set req) ?c"
    using run_keeps_own [OF td A(5,6)] by (simp add: owns_blocks_def apart_def uv_call_def)
  ultimately show ?thesis using A(1-4,6) map_leD [OF A(5)] by (auto simp: answered_def uv_call_def)
qed

lemma moved_view:
  assumes "connected w sctx t c" and "connected w' sctx t c'" and "moved w c t w' c'"
  shows "view w' sctx = view w sctx"
  using assms(3) serving_simps(5) [OF connected_simps(1) [OF assms(1)]] serving_simps(5) [OF connected_simps(1) [OF assms(2)]]
  by (simp add: moved_def)

text \<open>The parser has gathered the whole request and runs it.\<close>

definition runs ::
    "nat set \<Rightarrow> platform \<Rightarrow> world \<Rightarrow> server_context \<Rightarrow> hashtable \<Rightarrow> client_context \<Rightarrow> byte list list \<Rightarrow> parsed \<Rightarrow> bool" where
  "runs X pf w sctx t c args result \<longleftrightarrow>
     (\<exists>n c' w'. result = bindE (run_request pf sctx c' w') (\<lambda>(go, sctx1, c1, w1).
          if go then parse_loop n pf sctx1 c1 w1 else Inr (sctx1, c1, w1)) \<and>
        0 < n \<and> connected w' sctx t c' \<and> moved w c t w' c' \<and> held w' c' args (length args) \<and>
        tidy (foot t \<union> X) w' c' \<and> pending w' c' = [] \<and>
        pstate c' = PARSE_STATE_EXPECT_DATA \<and> data_to_read c' = of_nat (length (last args)))"

lemma runs_moved: "moved w c t w1 c1 \<Longrightarrow> runs X pf w1 sctx t c1 args result \<Longrightarrow> runs X pf w sctx t c args result"
  unfolding runs_def by (blast intro: moved_trans)

lemma parse_loop_receives:
  assumes "receiving X w sctx t c args future" and "unat (buffer_used c) < n"
  shows "still_receiving X w sctx t c args future (parse_loop n pf sctx c w) \<or>
    future = [] \<and> runs X pf w sctx t c args (parse_loop n pf sctx c w)"
  using assms
proof (induction n arbitrary: w c)
  case (Suc n)
  have buf: "buffer_ok w c" using Suc.prems(1) by (simp add: receiving_def connected_def)
  consider (wait) "parse_step pf sctx c w = Inr (False, sctx, c, w)" "future \<noteq> []"
    | (go) c' w' where "parse_step pf sctx c w = Inr (True, sctx, c', w')" "receiving X w' sctx t c' args future"
        "moved w c t w' c'" "unat (buffer_used c') < unat (buffer_used c)"
    | (run) c' w' where "parse_step pf sctx c w = run_request pf sctx c' w'" "future = []" "pending w c \<noteq> []"
        "connected w' sctx t c'" "moved w c t w' c'" "held w' c' args (length args)" "tidy (foot t \<union> X) w' c'" "pending w' c' = []"
        "pstate c' = PARSE_STATE_EXPECT_DATA" "data_to_read c' = of_nat (length (last args))"
    using parse_round [OF Suc.prems(1), of pf] unfolding advances_def by blast
  then show ?case
  proof cases
    case wait
    with Suc.prems(1) show ?thesis by (auto simp: still_receiving_def moved_def)
  next
    case (go c' w')
    have "still_receiving X w' sctx t c' args future (parse_loop n pf sctx c' w') \<or>
      future = [] \<and> runs X pf w' sctx t c' args (parse_loop n pf sctx c' w')"
      using Suc.IH [OF go(2)] Suc.prems(2) go(4) by simp
    moreover have "parse_loop (Suc n) pf sctx c w = parse_loop n pf sctx c' w'" using go(1) by simp
    ultimately show ?thesis using runs_moved [OF go(3)] still_receiving_moved [OF go(3)] by metis
  next
    case (run c' w')
    have "buffer_used c \<noteq> 0" using run(3) used_pending [OF buf] by simp
    then have "0 < n" using Suc.prems(2) by (simp add: unat_eq_0 [symmetric])
    then have "runs X pf w sctx t c args (parse_loop (Suc n) pf sctx c w)"
      unfolding runs_def using run(1,4-10) by (intro exI [of _ n] exI [of _ c'] exI [of _ w']) simp
    with run(2) show ?thesis by blast
  qed
qed simp

lemma runs_answered:
  assumes con: "connected w sctx t c" and run: "runs X pf w sctx t c (words r) result" and ok: "request_ok r" "words_ok (words r)"
    and spec: "kv_answer (request_full sctx r) r (view w sctx) = (st, msg, m)" and snd: "sendable pf (length msg)"
  shows "answered X w t c (words r) msg m result"
proof -
  obtain n c' w' where R: "result = bindE (run_request pf sctx c' w') (\<lambda>(go, sctx1, c1, w1).
      if go then parse_loop n pf sctx1 c1 w1 else Inr (sctx1, c1, w1))"
    "0 < n" "connected w' sctx t c'" "moved w c t w' c'" "held w' c' (words r) (length (words r))"
    "tidy (foot t \<union> X) w' c'" "pending w' c' = []" "pstate c' = PARSE_STATE_EXPECT_DATA"
    "data_to_read c' = of_nat (length (last (words r)))"
    using run unfolding runs_def by blast
  have "kv_answer (request_full sctx r) r (view w' sctx) = (st, msg, m)" using moved_view [OF con R(3,4)] spec by simp
  from answered_moved [OF R(4,3) run_and_wait [OF R(3,5) ok(1) R(6) this snd R(7-9,2) ok(2)]] show ?thesis using R(1) by simp
qed

lemma runs_overruns:
  assumes con: "connected w sctx t c" and run: "runs X pf w sctx t c (words r) result" and ok: "request_ok r"
    and spec: "kv_answer (request_full sctx r) r (view w sctx) = (st, msg, m)"
    and len: "length msg + 1 < 2 ^ 32" "spare pf (Suc (length msg)) = 0"
  shows "result = Inl BufferOverrun"
proof -
  obtain n c' w' where R: "result = bindE (run_request pf sctx c' w') (\<lambda>(go, sctx1, c1, w1).
      if go then parse_loop n pf sctx1 c1 w1 else Inr (sctx1, c1, w1))"
    "connected w' sctx t c'" "moved w c t w' c'" "held w' c' (words r) (length (words r))"
    using run unfolding runs_def by blast
  have "kv_answer (request_full sctx r) r (view w' sctx) = (st, msg, m)" using moved_view [OF con R(2,3)] spec by simp
  from run_request_overruns [OF R(2,4) ok this len] show ?thesis using R(1) by simp
qed

end
