(* ===== verification/Delivery.thy ===== *)
theory Delivery
  imports Requests
begin

text \<open>
  The bytes of a request as libuv delivers them: \<open>alloc_buffer\<close> gives a block for each read, the bytes that
  have arrived are put there and \<open>on_read\<close> is called with their number. Whatever the pieces, the request
  is put together and answered once.
\<close>

section \<open>Reads\<close>

definition UV_ENOBUFS :: "64 word" where
  "UV_ENOBUFS = - 105"

text \<open>One read event. Without a buffer that is large enough libuv reports UV_ENOBUFS.\<close>

definition read_event :: "platform \<Rightarrow> size_t \<Rightarrow> byte list \<Rightarrow> server_context \<times> client_context \<times> world \<Rightarrow> parsed" where
  "read_event pf suggested chunk s =
     (let (sctx, c, w) = s; ((p, len), w1) = alloc_buffer suggested w in
      if unat len < length chunk \<or> len = 0 then on_read pf sctx c UV_ENOBUFS p w1
      else bindE (store p chunk w1) (\<lambda>w2. on_read pf sctx c (of_nat (length chunk)) p w2))"

fun read_all :: "platform \<Rightarrow> size_t \<Rightarrow> byte list list \<Rightarrow> server_context \<times> client_context \<times> world \<Rightarrow> parsed" where
  "read_all pf suggested [] s = Inr s"
| "read_all pf suggested (chunk # chunks) s = bindE (read_event pf suggested chunk s) (read_all pf suggested chunks)"

section \<open>The length of a request\<close>

lemma length_bulk: "length a \<le> 8192 \<Longrightarrow> length (bulk a) \<le> 8201"
  using length_nat_digits [of "length a" 4] by (simp add: bulk_def header_def)

lemma length_bulks: "\<forall>a \<in> set args. length a \<le> 8192 \<Longrightarrow> length (concat (map bulk args)) \<le> 8201 * length args"
proof (induction args)
  case (Cons a args)
  then show ?case using length_bulk [of a] by simp
qed simp

lemma expects_length:
  assumes ok: "words_ok args" and ex: "expects w c args rest"
  shows "length rest < 2 ^ 30"
proof -
  have n: "length args \<le> 1024" and each: "\<forall>a \<in> set args. length a \<le> 8192" using ok by (simp_all add: words_ok_def)
  have part: "length (concat (map bulk (drop i args))) \<le> 8201 * 1024" for i
  proof -
    have "length (concat (map bulk (drop i args))) \<le> 8201 * length (drop i args)"
      using each by (intro length_bulks) (auto dest: in_set_dropD)
    also have "\<dots> \<le> 8201 * 1024" using n by simp
    finally show ?thesis .
  qed
  have word: "length (args ! i) \<le> 8192" if "i < length args" for i using each that by simp
  have "length (encode args) < 2 ^ 30"
    using part [of 0] length_nat_digits [of "length args" 4] n by (simp add: encode_def header_def)
  moreover have "length (args ! i @ [13, 10] @ concat (map bulk (drop (Suc i) args))) < 2 ^ 30" if "i < length args" for i
    using part [of "Suc i"] word [OF that] by simp
  moreover have "length (concat (map bulk (drop i args))) < 2 ^ 30" for i using part [of i] by simp
  ultimately show ?thesis using ex by (auto simp: expects_def split: parser_state.splits)
qed

section \<open>One read\<close>

lemma receiving_calls [simp]: "receiving X w sctx t (c\<lparr>calls := us\<rparr>) args future = receiving X w sctx t c args future"
  by (cases "pstate c") (simp_all add: receiving_def expects_def held_def vectors_def no_vectors_def)

text \<open>What is expected depends on the blocks of the arguments only.\<close>

lemma expects_keeps:
  assumes "expects w c args rest" and "\<And>a. heap w a \<noteq> None \<Longrightarrow> heap w' a = heap w a"
  shows "expects w' c args rest"
proof -
  have "held w' c args i" if "held w c args i" for i
    by (rule held_frame [OF that]) (use that assms(2) in \<open>force simp: held_def\<close>)+
  then show ?thesis using assms(1) by (cases "pstate c") (auto simp: expects_def)
qed

lemma expects_others:
  assumes ex: "expects w c args rest" and ok: "words_ok args" and own: "owns_blocks w c"
    and same: "\<And>a. Ptr a 0 \<in> set (client_blocks c) \<Longrightarrow> buffer c \<noteq> Ptr a 0 \<Longrightarrow> heap w' a = heap w a"
    and c': "c' = c\<lparr>buffer := p, buffer_capacity := x, buffer_used := y\<rparr>"
  shows "expects w' c' args rest"
proof -
  have "held w' c' args i" if h: "held w c args i" and i: "i < length args" for i
  proof (rule held_frame [OF h])
    fix a j assume j: "j < i" and a: "argv_slots c ! j = Ptr a 0"
    have "Ptr a 0 \<in> set (arguments c)"
      using argument_in_blocks [OF h j _ _] a i ok by (simp add: words_ok_def)
    moreover from this have "buffer c \<noteq> Ptr a 0"
      by (rule argument_not_buffer [OF own]) (use h j a in \<open>auto simp: held_def\<close>)
    ultimately show "heap w' a = heap w a" by (intro same) (simp_all add: client_blocks_def)
  qed (simp_all add: c')
  then show ?thesis using ex c' by (cases "pstate c") (auto simp: expects_def no_vectors_def)
qed

text \<open>A new block that is not ours.\<close>

lemma receiving_alloc:
  assumes rec: "receiving X w sctx t c args future" and h: "heap w' = (heap w)(fresh w \<mapsto> bs)"
    and f: "fresh w' = Suc (fresh w)" "sys_fails w' = sys_fails w"
  shows "receiving (insert (fresh w) X) w' sctx t c args future" and "moved w c t w' c" and "buffer c \<noteq> Ptr (fresh w) 0"
    and "Ptr (fresh w) 0 \<notin> footprint t"
proof -
  have con: "connected w sctx t c" and td: "tidy (foot t \<union> X) w c" and ok: "words_ok args"
    and ex: "expects w c args (pending w c @ future)" using rec by (simp_all add: receiving_def)
  note simps = connected_simps [OF con]
  have keep: "heap w' a = heap w a" if "heap w a \<noteq> None" for a using that h world_ok_fresh [OF simps(5)] by auto
  have "world_ok w'" using simps(5) h f by (auto simp: world_ok_def less_Suc_eq)
  moreover have "sys_fails w' = []" "fresh w \<le> fresh w'" using f simps(2) by simp_all
  ultimately have grown: "connected w' sctx t c" "pending w' c = pending w c" "moved w c t w' c"
    using connected_grows [OF con keep] by simp_all
  have "\<not> live w (Ptr (fresh w) 0)" using world_ok_fresh [OF simps(5)] by simp
  then have "Ptr (fresh w) 0 \<notin> set (client_blocks c)" using td by (auto simp: tidy_def owns_blocks_def)
  moreover have "tidy (foot t \<union> X) w' c"
    by (rule tidy_moved [OF td grown(3) connected_simps(3) [OF grown(1)] refl]) (rule tidy_slots [OF td])
  ultimately have "tidy (foot t \<union> insert (fresh w) X) w' c" using f(1) by (simp add: tidy_def apart_def)
  moreover have "expects w' c args (pending w c @ future)" using ex keep by (rule expects_keeps)
  ultimately show "receiving (insert (fresh w) X) w' sctx t c args future"
    using grown ok by (simp add: receiving_def)
  show "moved w c t w' c" by (rule grown)
  show "buffer c \<noteq> Ptr (fresh w) 0"
    using simps(3) world_ok_fresh [OF simps(5)] by (auto simp: buffer_ok_def)
  show "Ptr (fresh w) 0 \<notin> footprint t" using simps(8) by (rule fresh_footprint)
qed

text \<open>The block is released when the parser has returned.\<close>

lemma connected_release:
  assumes con: "connected w sctx t c" and b: "buffer c \<noteq> Ptr b 0" "Ptr b 0 \<notin> footprint t"
  shows "connected (w\<lparr>heap := (heap w)(b := None)\<rparr>) sctx t c" and "pending (w\<lparr>heap := (heap w)(b := None)\<rparr>) c = pending w c"
    and "stored (w\<lparr>heap := (heap w)(b := None)\<rparr>) t = stored w t"
proof -
  let ?w = "w\<lparr>heap := (heap w)(b := None)\<rparr>"
  note simps = connected_simps [OF con]
  have buf: "buffer_ok ?w c" using simps(3) b(1) by (auto simp: buffer_ok_def split: ptr.splits)
  have ok: "world_ok ?w" using simps(5) by (auto simp: world_ok_def)
  have same: "heap ?w a = heap w a" if "Ptr a 0 \<in> footprint t" for a using that b(2) by auto
  have q: "sys_fails ?w = []" using simps(2) by simp
  show "connected ?w sctx t c" "stored ?w t = stored w t"
    using connected_frame [OF con ok q buf simps(4,6) same] by simp_all
  show "pending ?w c = pending w c" using simps(3) b(1) by (auto simp: buffer_ok_def pending_def block_def split: ptr.splits)
qed

lemma receiving_release:
  assumes rec: "receiving (insert b X) w sctx t c args future" and b: "buffer c \<noteq> Ptr b 0" "Ptr b 0 \<notin> footprint t"
  shows "receiving X (w\<lparr>heap := (heap w)(b := None)\<rparr>) sctx t c args future"
proof -
  let ?w = "w\<lparr>heap := (heap w)(b := None)\<rparr>"
  have con: "connected w sctx t c" and td: "tidy (foot t \<union> insert b X) w c" and ok: "words_ok args"
    and ex: "expects w c args (pending w c @ future)" using rec by (simp_all add: receiving_def)
  note rel = connected_release [OF con b]
  have nb: "Ptr b 0 \<notin> set (client_blocks c)" using td by (simp add: tidy_def apart_def)
  have "expects ?w (c\<lparr>buffer := buffer c, buffer_capacity := buffer_capacity c, buffer_used := buffer_used c\<rparr>) args (pending w c @ future)"
    by (rule expects_others [OF ex ok tidy_own [OF td] _ refl]) (use nb in auto)
  moreover have "live ?w p" if "p \<in> set (client_blocks c)" for p
  proof -
    have "live w p" "p \<noteq> Ptr b 0" using that td nb by (auto simp: tidy_def owns_blocks_def)
    then show ?thesis by (cases p) auto
  qed
  then have "tidy (foot t \<union> X) ?w c" using td by (auto simp: tidy_def owns_blocks_def apart_def)
  ultimately show ?thesis using rel ok by (simp add: receiving_def)
qed

text \<open>The new bytes are appended to the unread ones.\<close>

lemma append_connected:
  assumes con: "connected w sctx t c" and ne: "chunk \<noteq> []" and size: "length (pending w c) + length chunk < 2 ^ 30"
    and src: "heap w b = Some ds" "take (length chunk) ds = chunk" "buffer c \<noteq> Ptr b 0"
  obtains (grown) p cap w' where "append_to_buffer c (Ptr b 0) (of_nat (length chunk)) w =
      Inr (c\<lparr>buffer := p, buffer_capacity := cap, buffer_used := buffer_used c + of_nat (length chunk)\<rparr>, w')"
    and "connected w' sctx t (c\<lparr>buffer := p, buffer_capacity := cap, buffer_used := buffer_used c + of_nat (length chunk)\<rparr>)"
    and "pending w' (c\<lparr>buffer := p, buffer_capacity := cap, buffer_used := buffer_used c + of_nat (length chunk)\<rparr>) =
      pending w c @ chunk"
    and "stored w' t = stored w t" and "fresh w \<le> fresh w'"
    and "\<And>a. buffer c \<noteq> Ptr a 0 \<Longrightarrow> heap w a \<noteq> None \<Longrightarrow> heap w' a = heap w a \<and> p \<noteq> Ptr a 0"
    and "p = buffer c \<or> p = Ptr (fresh w) 0"
proof -
  note simps = connected_simps [OF con]
  from simps(5,2,3) ne src size simps(6) show thesis
  proof (cases rule: append_ok)
    case A: (appended p cap w')
    have live: "heap w' a = heap w a" if "Ptr a 0 \<in> footprint t" for a
      using that A(8) simps(4,8) footprint_live [OF simps(8) that] world_ok_fresh [OF simps(5)] by metis
    have "p \<notin> footprint t" using A(4) simps(4) fresh_footprint [OF simps(8)] by auto
    note con' = connected_frame [OF con A(6,7,2) _ _ live]
    have keep: "heap w' a = heap w a \<and> p \<noteq> Ptr a 0" if "buffer c \<noteq> Ptr a 0" "heap w a \<noteq> None" for a
    proof -
      have "a \<noteq> fresh w" using that(2) world_ok_fresh [OF simps(5)] by auto
      with that(1) A(4,8) show ?thesis by auto
    qed
    from A(1) con' \<open>p \<notin> footprint t\<close> A(3,4,5,9) keep show thesis
      by (intro grown [where p = p and cap = cap and w' = w']) simp_all
  qed
qed

text \<open>A grown buffer is still the client's own.\<close>

lemma tidy_buffer:
  assumes td: "tidy Y w c" and ok: "world_ok w" and buf: "buffer_ok w' c'" and p: "p = buffer c \<or> p = Ptr (fresh w) 0" and ne: "p \<noteq> NULL"
    and keep: "\<And>a. buffer c \<noteq> Ptr a 0 \<Longrightarrow> heap w a \<noteq> None \<Longrightarrow> heap w' a = heap w a" and f: "fresh w \<le> fresh w'"
    and c': "c' = c\<lparr>buffer := p, buffer_capacity := x, buffer_used := y\<rparr>"
  shows "tidy Y w' c'"
proof -
  let ?f = "Ptr (fresh w) 0" and ?rest = "filter (\<lambda>p. p \<noteq> NULL) [temp_argv c, temp_arg_lengths c]"
  have args: "arguments c' = arguments c" by (simp add: c' arguments_def cong: if_cong)
  have b: "client_blocks c' = arguments c @ ?rest @ p # [ctx_ptr c]"
    "client_blocks c = arguments c @ ?rest @ (if buffer c = NULL then [] else [buffer c]) @ [ctx_ptr c]"
    using ne by (simp_all add: client_blocks_def args) (simp_all add: c')
  have own: "distinct (client_blocks c)" "\<forall>q \<in> set (client_blocks c). live w q" "\<forall>a \<in> Y. a < fresh w \<and> Ptr a 0 \<notin> set (client_blocks c)"
    using td by (auto simp: tidy_def owns_blocks_def apart_def)
  have new: "\<not> live w ?f" using world_ok_fresh [OF ok] by simp
  have "live w' q" if q: "q \<in> set (client_blocks c')" for q
  proof (cases "q = p")
    case True
    then show ?thesis using buffer_ok_live [OF buf] ne by (simp add: c')
  next
    case False
    with q have q': "q \<in> set (arguments c @ ?rest @ [ctx_ptr c])" unfolding b(1) by (simp del: filter.simps)
    then have "live w q" using own(2) unfolding b(2) by (auto simp del: filter.simps)
    moreover have "q \<noteq> buffer c"
    proof (cases "buffer c = NULL")
      case False
      with q' own(1) show ?thesis unfolding b(2) by (auto simp del: filter.simps)
    qed (use \<open>live w q\<close> in auto)
    ultimately show ?thesis using keep by (cases q) auto
  qed
  moreover have "?f \<notin> set (client_blocks c)" using own(2) new by blast
  then have "distinct (client_blocks c')" using own(1) p ne unfolding b by (cases "buffer c = NULL") (auto simp del: filter.simps)
  moreover have "\<forall>a \<in> Y. a < fresh w' \<and> Ptr a 0 \<notin> set (client_blocks c')"
  proof
    fix a assume a: "a \<in> Y"
    then have "Ptr a 0 \<notin> set (client_blocks c)" "a < fresh w" using own(3) by simp_all
    with p ne f show "a < fresh w' \<and> Ptr a 0 \<notin> set (client_blocks c')" unfolding b by (auto simp del: filter.simps split: if_splits)
  qed
  ultimately show ?thesis using tidy_slots [OF td] by (auto simp: tidy_def owns_blocks_def apart_def c')
qed

lemma append_receives:
  assumes rec: "receiving X w sctx t c args (chunk @ future)" and ne: "chunk \<noteq> []"
    and src: "heap w b = Some ds" "take (length chunk) ds = chunk" "buffer c \<noteq> Ptr b 0"
  obtains (appended) c' w' where "append_to_buffer c (Ptr b 0) (of_nat (length chunk)) w = Inr (c', w')"
    and "receiving X w' sctx t c' args future" and "calls c' = calls c" and "stored w' t = stored w t"
    and "\<And>a. buffer c \<noteq> Ptr a 0 \<Longrightarrow> heap w a \<noteq> None \<Longrightarrow> heap w' a = heap w a \<and> buffer c' \<noteq> Ptr a 0"
proof -
  have con: "connected w sctx t c" and ok: "words_ok args" and ex: "expects w c args (pending w c @ chunk @ future)"
    and td: "tidy (foot t \<union> X) w c" using rec by (simp_all add: receiving_def)
  have size: "length (pending w c) + length chunk < 2 ^ 30" using expects_length [OF ok ex] by simp
  from con ne size src show thesis
  proof (cases rule: append_connected)
    case A: (grown p cap w')
    let ?c = "c\<lparr>buffer := p, buffer_capacity := cap, buffer_used := buffer_used c + of_nat (length chunk)\<rparr>"
    have "p \<noteq> NULL"
    proof
      assume "p = NULL"
      then have "pending w' ?c = []" by (simp add: pending_def block_def)
      with A(3) ne show False by simp
    qed
    have "tidy (foot t \<union> X) w' ?c"
      by (rule tidy_buffer [OF td connected_simps(5) [OF con] connected_simps(3) [OF A(2)] A(7) \<open>p \<noteq> NULL\<close> _ A(5) refl])
        (use A(6) in blast)
    moreover have "expects w' ?c args (pending w c @ chunk @ future)"
    proof (rule expects_others [OF ex ok tidy_own [OF td] _ refl])
      fix a assume "Ptr a 0 \<in> set (client_blocks c)" "buffer c \<noteq> Ptr a 0"
      moreover from this(1) have "heap w a \<noteq> None" using td by (auto simp: tidy_def owns_blocks_def)
      ultimately show "heap w' a = heap w a" using A(6) by blast
    qed
    ultimately have "receiving X w' sctx t ?c args future" using A(2,3) ok by (simp add: receiving_def)
    with A(1,4,6) show thesis by (intro appended [where c' = ?c and w' = w']) simp_all
  qed
qed

text \<open>A read event, when memory is granted.\<close>

definition arrived :: "world \<Rightarrow> size_t \<Rightarrow> byte list \<Rightarrow> world" where
  "arrived w suggested chunk = w\<lparr>heap := (heap w)(fresh w \<mapsto> chunk @ drop (length chunk) (raw w (unat suggested))),
     fresh := Suc (fresh w)\<rparr>"

lemma read_event_eq:
  assumes quiet: "sys_fails w = []" and chunk: "chunk \<noteq> []" "length chunk \<le> unat suggested" "unat suggested < 2 ^ 62"
  shows "read_event pf suggested chunk (sctx, c, w) =
    bindE (append_to_buffer (uv_call Uv_timer_start c) (Ptr (fresh w) 0) (of_nat (length chunk)) (arrived w suggested chunk))
      (\<lambda>(c2, w3). bindE (parse_buffer pf sctx c2 w3) (\<lambda>(sctx', c', w').
        bindE (free (Ptr (fresh w) 0) w') (\<lambda>w''. Inr (sctx', c', w''))))"
proof -
  let ?b = "fresh w" and ?n = "of_nat (length chunk) :: 64 word"
  let ?w1 = "w\<lparr>heap := (heap w)(?b \<mapsto> raw w (unat suggested)), fresh := Suc ?b\<rparr>"
  have al: "alloc_buffer suggested w = ((Ptr ?b 0, suggested), ?w1)"
    using malloc_no_fails [OF quiet, of suggested] chunk(3) by (simp add: alloc_buffer_def)
  have st: "store (Ptr ?b 0) chunk ?w1 = Inr (arrived w suggested chunk)"
    using chunk(2) by (simp add: store_def arrived_def)
  have pos: "suggested \<noteq> 0" using chunk(1,2) by auto
  have long: "sint ?n = int (length chunk)" using chunk(2,3)
    by (simp add: signed_of_nat signed_take_bit_int_eq_self)
  then have "ssizet_to_sizet ?n (Some False) = (?n, Some False)"
    by (simp add: ssizet_to_sizet_def word_not_simps)
  with al st pos chunk(1,2) long show ?thesis
    by (simp add: read_event_def on_read_def case_prod_unfold)
qed

text \<open>
  One read: the request is still incomplete and the map unchanged, or the parser runs it, and the block of
  the read is released afterwards.
\<close>

definition released :: "nat \<Rightarrow> parsed \<Rightarrow> parsed" where
  "released b result = bindE result (\<lambda>(sctx', c', w'). bindE (free (Ptr b 0) w') (\<lambda>w''. Inr (sctx', c', w'')))"

lemma read_event_cases:
  assumes rec: "receiving X w sctx t c args (chunk @ future)"
    and chunk: "chunk \<noteq> []" "length chunk \<le> unat suggested" "unat suggested < 2 ^ 62"
  obtains (more) c' w' where "read_event pf suggested chunk (sctx, c, w) = Inr (sctx, c', w')" "future \<noteq> []"
      "receiving X w' sctx t c' args future" "view w' sctx = view w sctx" "calls c' = calls c @ [Uv_timer_start]"
      "\<And>a. buffer c \<noteq> Ptr a 0 \<Longrightarrow> heap w a \<noteq> None \<Longrightarrow> heap w' a = heap w a"
  | (last) c1 w1 b ds where "future = []"
      "read_event pf suggested chunk (sctx, c, w) = released b (parse_buffer pf sctx c1 w1)"
      "runs (insert b X) pf w1 sctx t c1 args (parse_buffer pf sctx c1 w1)" "connected w1 sctx t c1" "view w1 sctx = view w sctx"
      "calls c1 = calls c @ [Uv_timer_start]" "outside w1 t b = Some ds" "buffer c1 \<noteq> Ptr b 0"
      "\<And>a. buffer c \<noteq> Ptr a 0 \<Longrightarrow> heap w a \<noteq> None \<Longrightarrow> heap w1 a = heap w a \<and> buffer c1 \<noteq> Ptr a 0 \<and> a \<noteq> b"
proof -
  let ?b = "fresh w" and ?w2 = "arrived w suggested chunk" and ?c = "uv_call Uv_timer_start c"
  let ?ds = "chunk @ drop (length chunk) (raw w (unat suggested))"
  have con: "connected w sctx t c" using rec by (simp add: receiving_def)
  note simps = connected_simps [OF con]
  note new = receiving_alloc [OF rec, of ?w2 ?ds, unfolded arrived_def, simplified, folded arrived_def]
  have pre: "receiving (insert ?b X) ?w2 sctx t ?c args (chunk @ future)" "heap ?w2 ?b = Some ?ds" "buffer ?c \<noteq> Ptr ?b 0"
    "take (length chunk) ?ds = chunk" using new(1,3) by (simp_all add: uv_call_def arrived_def)
  from pre(1) chunk(1) pre(2,4,3) show thesis
  proof (cases rule: append_receives)
    case A: (appended c1 w3)
    have event: "read_event pf suggested chunk (sctx, c, w) = released ?b (parse_buffer pf sctx c1 w3)"
      using read_event_eq [OF simps(2) chunk, of pf sctx c] A(1) by (simp add: released_def)
    have con3: "connected w3 sctx t c1" using A(2) by (simp add: receiving_def)
    have vw: "view w3 sctx = view w sctx"
      using A(4) new(2) serving_simps(5) [OF simps(1)] serving_simps(5) [OF connected_simps(1) [OF con3]]
      by (simp add: moved_def)
    have calls: "calls c1 = calls c @ [Uv_timer_start]" using A(3) by (simp add: uv_call_def)
    have src: "heap w3 ?b = Some ?ds" "buffer c1 \<noteq> Ptr ?b 0" using A(5) [of ?b] pre(2,3) by simp_all
    have keep: "heap w3 a = heap w a \<and> buffer c1 \<noteq> Ptr a 0 \<and> a \<noteq> ?b" if "buffer c \<noteq> Ptr a 0" "heap w a \<noteq> None" for a
      using A(5) [of a] that world_ok_fresh [OF simps(5)] by (auto simp: uv_call_def arrived_def)
    consider "still_receiving (insert ?b X) w3 sctx t c1 args future (parse_buffer pf sctx c1 w3)"
      | "future = []" "runs (insert ?b X) pf w3 sctx t c1 args (parse_buffer pf sctx c1 w3)"
      using parse_loop_receives [OF A(2) lessI] unfolding parse_buffer_def by blast
    then show thesis
    proof cases
      case 1
      then obtain c' w4 where p: "parse_buffer pf sctx c1 w3 = Inr (sctx, c', w4)" "future \<noteq> []"
        "receiving (insert ?b X) w4 sctx t c' args future" "moved w3 c1 t w4 c'" by (auto simp: still_receiving_def)
      let ?w = "w4\<lparr>heap := (heap w4)(?b := None)\<rparr>"
      have b: "buffer c' \<noteq> Ptr ?b 0" "heap w4 ?b = Some ?ds" using p(4) src by (simp_all add: moved_def)
      have con4: "connected w4 sctx t c'" using p(3) by (simp add: receiving_def)
      have "read_event pf suggested chunk (sctx, c, w) = Inr (sctx, c', ?w)"
        using event p(1) b(2) by (simp add: free_def released_def)
      moreover have rec': "receiving X ?w sctx t c' args future" using receiving_release [OF p(3) b(1) new(4)] .
      moreover have "view ?w sctx = view w sctx"
      proof -
        have "connected ?w sctx t c'" using rec' by (simp add: receiving_def)
        then have "view ?w sctx = stored ?w t" by (intro serving_simps(5)) (rule connected_simps)
        also have "\<dots> = stored w4 t" by (rule connected_release(3) [OF con4 b(1) new(4)])
        also have "\<dots> = view w4 sctx" using serving_simps(5) [OF connected_simps(1) [OF con4]] by simp
        also have "\<dots> = view w3 sctx" by (rule moved_view [OF con3 con4 p(4)])
        finally show ?thesis using vw by simp
      qed
      moreover have "calls c' = calls c @ [Uv_timer_start]" using p(4) calls by (simp add: moved_def)
      moreover have "heap ?w a = heap w a" if "buffer c \<noteq> Ptr a 0" "heap w a \<noteq> None" for a
        using keep [OF that] p(4) that(2) by (simp add: moved_def)
      ultimately show thesis using p(2) by (intro more [where c' = c' and w' = ?w]) simp_all
    next
      case 2
      have "outside w3 t ?b = Some ?ds" using src(1) new(4) by (simp add: outside_def)
      with 2 event con3 vw calls src(2) keep show thesis by (intro last)
    qed
  qed
qed

text \<open>
  After the read that completes a request: the answer is written, the blocks of the client are its own,
  and of the other blocks outside the database none has changed.
\<close>

definition done_with ::
    "nat set \<Rightarrow> world \<Rightarrow> hashtable \<Rightarrow> client_context \<Rightarrow> nat \<Rightarrow> byte list list \<Rightarrow> byte list \<Rightarrow> store_map \<Rightarrow> parsed \<Rightarrow> bool" where
  "done_with X w t c b args msg m result \<longleftrightarrow>
     (\<exists>sctx' t' c' w' req. result = Inr (sctx', c', w') \<and> connected w' sctx' t' c' \<and> pending w' c' = [] \<and>
        view w' sctx' = m \<and> spent c' args \<and> calls c' = calls c @ [Uv_write req] \<and> reply_blocks w t w' t' msg req \<and>
        owns_blocks w' c' \<and> apart (foot t' \<union> X \<union> reply_set req) c' \<and>
        (\<forall>a bs. outside w t a = Some bs \<longrightarrow> buffer c \<noteq> Ptr a 0 \<longrightarrow> a \<noteq> b \<longrightarrow> outside w' t' a = Some bs))"

text \<open>The reply is not touched when the block of the read is released.\<close>

lemma released_done:
  assumes ans: "answered (insert b X) w t c args msg m result" and b: "outside w t b = Some ds" "buffer c \<noteq> Ptr b 0"
  shows "done_with X w t c b args msg m (released b result)"
proof -
  obtain sctx' t' c' w4 req where p: "result = Inr (sctx', c', w4)" "connected w4 sctx' t' c'"
    "pending w4 c' = []" "view w4 sctx' = m" "calls c' = calls c @ [Uv_write req]" "buffer c' = buffer c"
    "reply_blocks w t w4 t' msg req" "spent c' args"
    "\<forall>a bs. outside w t a = Some bs \<longrightarrow> buffer c \<noteq> Ptr a 0 \<longrightarrow> outside w4 t' a = Some bs"
    "owns_blocks w4 c'" "apart (foot t' \<union> insert b X \<union> reply_set req) c'"
    using ans by (auto simp: answered_def)
  let ?w = "w4\<lparr>heap := (heap w4)(b := None)\<rparr>"
  have "outside w4 t' b = Some ds" using p(9) b by simp
  then have b': "heap w4 b = Some ds" "Ptr b 0 \<notin> footprint t'" "buffer c' \<noteq> Ptr b 0"
    using p(6) b(2) by (simp_all add: outside_def split: if_splits)
  have out: "outside ?w t' a = outside w4 t' a" if "a \<noteq> b" for a using that by (simp add: outside_def)
  note rel = connected_release [OF p(2) b'(3,2)]
  have "view ?w sctx' = m"
    using rel(3) p(4) serving_simps(5) [OF connected_simps(1) [OF p(2)]] serving_simps(5) [OF connected_simps(1) [OF rel(1)]]
    by simp
  moreover have "released b result = Inr (sctx', c', ?w)" using p(1) b'(1) by (simp add: free_def released_def)
  moreover have "reply_blocks w t ?w t' msg req"
  proof -
    have "outside w t a = None \<Longrightarrow> a \<noteq> b" for a using b(1) by auto
    then show ?thesis using p(7) out unfolding reply_blocks_def by metis
  qed
  moreover have "owns_blocks ?w c'"
  proof -
    have nb: "Ptr b 0 \<notin> set (client_blocks c')" using p(11) by (simp add: apart_def)
    have "live ?w p" if "p \<in> set (client_blocks c')" for p
    proof -
      have "live w4 p" "p \<noteq> Ptr b 0" using that p(10) nb by (auto simp: owns_blocks_def)
      then show ?thesis by (cases p) auto
    qed
    then show ?thesis using p(10) by (simp add: owns_blocks_def)
  qed
  moreover have "apart (foot t' \<union> X \<union> reply_set req) c'" using p(11) by (simp add: apart_def)
  moreover have "outside ?w t' a = Some bs" if "outside w t a = Some bs" "buffer c \<noteq> Ptr a 0" "a \<noteq> b" for a bs
    using out [OF that(3)] p(9) that(1,2) by simp
  ultimately show ?thesis
    unfolding done_with_def using rel(1,2) p(3,5,8)
    by (intro exI [of _ sctx'] exI [of _ t'] exI [of _ c'] exI [of _ ?w] exI [of _ req]) simp
qed

end
