(* ===== verification/Connection.thy ===== *)
theory Connection
  imports Delivery Serving
begin

text \<open>
  The properties of a connection, src/src/server.c: from the new connection over the reads to the reply,
  what happens after it, and the release of a client's memory.
\<close>

section \<open>A new connection\<close>

lemma new_connection_ok:
  assumes srv: "serving w sctx t" and quiet: "sys_fails w = []" and size: "sizeof_client_context pf < 2 ^ 63"
    and X: "\<forall>a \<in> X. a < fresh w"
  obtains (opened) c w1 where "on_new_connection pf 0 True w = (Some c, w1)" and "view w1 sctx = view w sctx"
    and "receiving X w1 sctx t c args (encode args) = words_ok args" and "calls c = [Uv_timer_start]"
    and "connected w1 sctx t c" and "buffer c = NULL" and "buffer_used c = 0" and "buffer_capacity c = 0"
    and "pstate c = PARSE_STATE_EXPECT_TYPE" and "\<And>a. heap w a \<noteq> None \<Longrightarrow> heap w1 a = heap w a"
proof -
  let ?c = "uv_call Uv_timer_start (reset_parser (zero_context (Ptr (fresh w) 0)))"
  let ?w = "w\<lparr>heap := (heap w)(fresh w \<mapsto> []), fresh := Suc (fresh w)\<rparr>"
  have db: "db w t" "world_ok w" using srv by (simp_all add: serving_def db_ok_def)
  have new: "on_new_connection pf 0 True w = (Some ?c, ?w)"
    using quiet size by (simp add: on_new_connection_def heap_simps)
  have keep: "heap ?w a = heap w a" if "Ptr a 0 \<in> footprint t" for a
    using that fresh_footprint [OF db(1)] by auto
  have "world_ok ?w" using db(2) by (auto simp: world_ok_def less_Suc_eq)
  note out = serving_outside [OF srv this keep]
  have con: "connected ?w sctx t ?c"
    using out(1) quiet footprint_NULL [OF db(1)]
    by (simp add: connected_def buffer_ok_def uv_call_def reset_parser_def zero_context_def)
  moreover have "receiving X ?w sctx t ?c args (encode args) = words_ok args"
  proof -
    have "client_blocks ?c = [Ptr (fresh w) 0]" "no_vectors ?c"
      by (simp_all add: client_blocks_def arguments_def no_vectors_def uv_call_def reset_parser_def zero_context_def)
    moreover have "a < fresh w" if "a \<in> foot t \<union> X" for a
      using that X footprint_live [OF db(1), of a] db(2) by (auto simp: foot_def world_ok_def)
    ultimately have "tidy (foot t \<union> X) ?w ?c" "no_vectors ?c"
      by (fastforce simp: tidy_def owns_blocks_def apart_def no_vectors_def)+
    then show ?thesis
      using con by (simp add: receiving_def expects_def pending_def uv_call_def reset_parser_def zero_context_def)
  qed
  moreover have "heap ?w a = heap w a" if "heap w a \<noteq> None" for a using that world_ok_fresh [OF db(2)] by auto
  moreover have "view ?w sctx = view w sctx" using out serving_simps(5) [OF srv] serving_simps(5) [OF out(1)] by simp
  ultimately show thesis using new by (intro opened [of ?c ?w]) (simp_all add: uv_call_def reset_parser_def zero_context_def)
qed

section \<open>All reads\<close>

definition pieces :: "size_t \<Rightarrow> byte list list \<Rightarrow> bool" where
  "pieces suggested chunks \<longleftrightarrow> (\<forall>ch \<in> set chunks. ch \<noteq> [] \<and> length ch \<le> unat suggested) \<and> unat suggested < 2 ^ 30"

text \<open>The last read completes the request; what it does decides the outcome.\<close>

lemma read_all_last:
  "receiving {} w sctx t c args (concat chunks) \<Longrightarrow> chunks \<noteq> [] \<Longrightarrow> pieces suggested chunks \<Longrightarrow>
    \<exists>c1 w1 b ds. read_all pf suggested chunks (sctx, c, w) = released b (parse_buffer pf sctx c1 w1) \<and>
      runs {b} pf w1 sctx t c1 args (parse_buffer pf sctx c1 w1) \<and> connected w1 sctx t c1 \<and> view w1 sctx = view w sctx \<and>
      calls c1 = calls c @ replicate (length chunks) Uv_timer_start \<and> outside w1 t b = Some ds \<and> buffer c1 \<noteq> Ptr b 0"
proof (induction chunks arbitrary: w c)
  case (Cons ch chunks)
  have rec: "receiving {} w sctx t c args (ch @ concat chunks)" using Cons.prems(1) by simp
  have ch: "ch \<noteq> []" "length ch \<le> unat suggested" "unat suggested < 2 ^ 62"
    using Cons.prems(3) by (simp_all add: pieces_def)
  from rec ch show ?case
  proof (cases rule: read_event_cases [where pf = pf])
    case (more c' w')
    have "chunks \<noteq> []" "pieces suggested chunks" using more(2) Cons.prems(3) by (auto simp: pieces_def)
    then show ?thesis using Cons.IH [OF more(3)] more(1,4,5) by simp
  next
    case (last c1 w1 b ds)
    have "chunks = []"
    proof (rule ccontr)
      assume "chunks \<noteq> []"
      then obtain ch' where "ch' \<in> set chunks" by (cases chunks) auto
      with last(1) Cons.prems(3) show False by (auto simp: pieces_def)
    qed
    moreover from this have "read_all pf suggested (ch # chunks) (sctx, c, w) = read_event pf suggested ch (sctx, c, w)"
      by (cases "read_event pf suggested ch (sctx, c, w)") simp_all
    ultimately show ?thesis using last
      by (intro exI [of _ c1] exI [of _ w1] exI [of _ b] exI [of _ ds]) simp
  qed
qed simp

lemma request_words_ok: "request_ok r \<Longrightarrow> length (request_data r) \<le> 8192 \<Longrightarrow> words_ok (words r)"
  by (cases r) (auto simp: words_ok_def request_ok_def key_ok_def lit_bytes_def)

text \<open>A client connects and sends the bytes of a request in any pieces.\<close>

definition sends_request :: "platform \<Rightarrow> size_t \<Rightarrow> request \<Rightarrow> byte list list \<Rightarrow> bool" where
  "sends_request pf suggested r chunks \<longleftrightarrow> sizeof_client_context pf < 2 ^ 63 \<and> request_ok r \<and> length (request_data r) \<le> 8192 \<and>
     concat chunks = encode (words r) \<and> pieces suggested chunks"

lemma connection_receives:
  assumes ctx: "ctx_ok w sctx" and quiet: "sys_fails w = []" and req: "sends_request pf suggested r chunks"
  obtains (received) c w1 t c2 w2 b ds where "on_new_connection pf 0 True w = (Some c, w1)"
    and "read_all pf suggested chunks (sctx, c, w1) = released b (parse_buffer pf sctx c2 w2)"
    and "runs {b} pf w2 sctx t c2 (words r) (parse_buffer pf sctx c2 w2)" and "connected w2 sctx t c2"
    and "view w2 sctx = view w sctx" and "calls c2 = replicate (Suc (length chunks)) Uv_timer_start"
    and "outside w2 t b = Some ds" and "buffer c2 \<noteq> Ptr b 0"
proof -
  have req': "sizeof_client_context pf < 2 ^ 63" "words_ok (words r)" "concat chunks = encode (words r)" "pieces suggested chunks"
    using req request_words_ok by (simp_all add: sends_request_def)
  obtain t where srv: "serving w sctx t" using ctx by (auto simp: ctx_ok_def)
  obtain c w1 where new: "on_new_connection pf 0 True w = (Some c, w1)" "view w1 sctx = view w sctx"
    "receiving {} w1 sctx t c (words r) (concat chunks)" "calls c = [Uv_timer_start]"
    using new_connection_ok [OF srv quiet req'(1), of "{}" "words r"] req'(2,3) by simp metis
  have "chunks \<noteq> []" using req'(3) by (auto simp: encode_def header_def)
  then obtain c2 w2 b ds where "read_all pf suggested chunks (sctx, c, w1) = released b (parse_buffer pf sctx c2 w2)"
    "runs {b} pf w2 sctx t c2 (words r) (parse_buffer pf sctx c2 w2)" "connected w2 sctx t c2" "view w2 sctx = view w1 sctx"
    "calls c2 = calls c @ replicate (length chunks) Uv_timer_start" "outside w2 t b = Some ds" "buffer c2 \<noteq> Ptr b 0"
    using read_all_last [OF new(3) _ req'(4), of pf] by blast
  with new show thesis by (intro received) simp_all
qed

lemma connection_answers:
  assumes "ctx_ok w sctx" and "sys_fails w = []" and req: "sends_request pf suggested r chunks"
    and spec: "kv_answer (request_full sctx r) r (view w sctx) = (st, msg, m)" and snd: "sendable pf (length msg)"
  obtains (served) c w1 w2 t c2 b where "on_new_connection pf 0 True w = (Some c, w1)"
    and "done_with {} w2 t c2 b (words r) msg m (read_all pf suggested chunks (sctx, c, w1))"
    and "calls c2 = replicate (Suc (length chunks)) Uv_timer_start"
  using assms(1-3)
proof (cases rule: connection_receives)
  case (received c w1 t c2 w2 b ds)
  have ok: "request_ok r" "words_ok (words r)" using req request_words_ok by (simp_all add: sends_request_def)
  have "kv_answer (request_full sctx r) r (view w2 sctx) = (st, msg, m)" using spec received(5) by simp
  from released_done [OF runs_answered [OF received(4,3) ok this snd] received(7,8)] received(1,2,6)
  show thesis by (intro served [of c w1]) simp_all
qed

lemma connection_overruns:
  assumes "ctx_ok w sctx" and "sys_fails w = []" and req: "sends_request pf suggested r chunks"
    and spec: "kv_answer (request_full sctx r) r (view w sctx) = (st, msg, m)"
    and len: "length msg + 1 < 2 ^ 32" "spare pf (Suc (length msg)) = 0"
  shows "\<exists>c w1. on_new_connection pf 0 True w = (Some c, w1) \<and>
    read_all pf suggested chunks (sctx, c, w1) = Inl BufferOverrun"
  using assms(1-3)
proof (cases rule: connection_receives)
  case (received c w1 t c2 w2 b ds)
  have ok: "request_ok r" using req by (simp add: sends_request_def)
  have "kv_answer (request_full sctx r) r (view w2 sctx) = (st, msg, m)" using spec received(5) by simp
  then have "parse_buffer pf sctx c2 w2 = Inl BufferOverrun" using runs_overruns [OF received(4,3) ok _ len] by blast
  with received(1,2) show ?thesis by (simp add: released_def)
qed

text \<open>C4. A request is answered however its bytes are cut into reads, on a new connection and with every allocation granted: the
  parser puts the words together, and when the allocator has left a spare byte behind the block of the reply, the
  map changes as specified, one write is started, of the specified text and a CR, and the timer is restarted at every
  read. When it has not, the line feed is written behind the block and the run ends in that fault.\<close>

theorem request_answered:
  assumes "ctx_ok w sctx" and "sys_fails w = []" and "sends_request pf suggested r chunks" and "sizeof_write_req pf < 2 ^ 63"
    and "kv_answer (request_full sctx r) r (view w sctx) = (st, msg, m)" and "length msg + 1 < 2 ^ 32"
  shows "\<exists>c w1. on_new_connection pf 0 True w = (Some c, w1) \<and>
    (if 1 \<le> spare pf (length msg + 1)
     then \<exists>sctx' c' w' req. read_all pf suggested chunks (sctx, c, w1) = Inr (sctx', c', w') \<and> ctx_ok w' sctx' \<and>
       view w' sctx' = m \<and> calls c' = replicate (Suc (length chunks)) Uv_timer_start @ [Uv_write req] \<and>
       take (buf_len req) (block w' (buf_base req)) = msg @ [13]
     else read_all pf suggested chunks (sctx, c, w1) = Inl BufferOverrun)"
proof (cases "1 \<le> spare pf (Suc (length msg))")
  case True
  then have "sendable pf (length msg)" using assms(4,6) by (simp add: sendable_def)
  with assms(1-3,5) show ?thesis
  proof (cases rule: connection_answers)
    case (served c w1 w2 t c2 b)
    then obtain sctx' t' c' w' req where "read_all pf suggested chunks (sctx, c, w1) = Inr (sctx', c', w')"
      "connected w' sctx' t' c'" "view w' sctx' = m" "calls c' = replicate (Suc (length chunks)) Uv_timer_start @ [Uv_write req]"
      "block w' (buf_base req) = msg @ [13]" "buf_len req = Suc (length msg)"
      by (auto simp: done_with_def dest: reply_blocks_text)
    moreover from this(2) have "ctx_ok w' sctx'" by (auto simp: ctx_ok_def connected_def)
    ultimately show ?thesis using served(1) True by auto
  qed
next
  case False
  with connection_overruns [OF assms(1-3,5,6)] show ?thesis by simp
qed

section \<open>A sample\<close>

definition get_a :: "byte list" where
  "get_a = [42, 50, 13, 10, 36, 51, 13, 10, 71, 69, 84, 13, 10, 36, 49, 13, 10, 97, 13, 10]"

lemma encode_get_a: "encode (words (Req_get [97])) = get_a"
  by (simp add: encode_def bulk_def header_def get_a_def lit_bytes_def nat_digits.simps)

lemma get_a_spec:
  "kv_answer (request_full ctx1 (Req_get [97])) (Req_get [97]) (view world1 ctx1) = (200, data_x, [[97] \<mapsto> data_x])"
  by (simp add: view_01(2))

lemma get_a_ok: "request_ok (Req_get [97])" "sendable platform0 (length data_x)" "sizeof_client_context platform0 < 2 ^ 63"
  by (simp_all add: request_ok_def key_ok_def sendable_def platform0_def data_x_def)

lemma get_a_sent:
  assumes "concat chunks = get_a" and "\<forall>ch \<in> set chunks. ch \<noteq> [] \<and> length ch \<le> 65536"
  shows "sends_request platform0 65536 (Req_get [97]) chunks"
  unfolding sends_request_def encode_get_a using get_a_ok assms by (simp add: pieces_def)

theorem request_answered_witness:
  "\<exists>c w1 sctx' c' w' req. on_new_connection platform0 0 True world1 = (Some c, w1) \<and>
     read_all platform0 65536 [take 7 get_a, drop 7 get_a] (ctx1, c, w1) = Inr (sctx', c', w') \<and>
     calls c' = [Uv_timer_start, Uv_timer_start, Uv_timer_start, Uv_write req] \<and>
     take (buf_len req) (block w' (buf_base req)) = [120, 13]"
proof -
  have "sends_request platform0 65536 (Req_get [97]) [take 7 get_a, drop 7 get_a]"
    by (rule get_a_sent) (simp_all add: get_a_def)
  moreover have "sizeof_write_req platform0 < 2 ^ 63" "length data_x + 1 < 2 ^ 32" "1 \<le> spare platform0 (length data_x + 1)"
    by (simp_all add: platform0_def data_x_def)
  ultimately show ?thesis
    using request_answered [OF ctx_ok_01(2) quiet_01(2) _ _ get_a_spec, of platform0 65536 "[take 7 get_a, drop 7 get_a]"]
    by (fastforce simp: data_x_def)
qed

section \<open>After the reply\<close>

lemma spent_overruns:
  assumes con: "connected w sctx t c" and sp: "spent c args" and ok: "words_ok args"
    and more: "length (last args) + 2 \<le> length (pending w c)"
  shows "parse_buffer pf sctx c w = Inl ArgvOverrun"
proof -
  have n: "0 < length args" "length args \<le> 1024" "length (last args) \<le> 8192" using ok by (simp_all add: words_ok_def)
  have sum: "data_to_read c + 2 = of_nat (length (last args) + 2)" using sp by (simp add: spent_def)
  have "unat (of_nat (length (last args) + 2) :: size_t) = length (last args) + 2" using n(3) by (simp only: unat_of_nat) simp
  then have "\<not> buffer_used c < data_to_read c + 2"
    unfolding sum word_less_nat_alt using more buffer_ok_block(2) [OF connected_simps(3) [OF con]] by simp
  moreover have u: "unat (args_parsed c) = length args" using sp n by (simp add: spent_def unat_of_nat)
  moreover have "args_parsed c \<noteq> 0" using u n(1) by auto
  ultimately have "parse_step pf sctx c w = Inl ArgvOverrun"
    using sp by (simp add: spent_def vectors_def parse_step_def parse_data_def take_argument_def case_prod_unfold Let_def)
  then show ?thesis by (simp add: parse_buffer_def)
qed

lemma read_all_append: "read_all pf suggested (xs @ ys) s = bindE (read_all pf suggested xs s) (read_all pf suggested ys)"
  by (induction xs arbitrary: s) (auto simp: bindE_assoc intro!: bindE_cong)

lemma spent_read_overruns:
  assumes con: "connected w sctx t c" and sp: "spent c args" and ok: "words_ok args" and idle: "pending w c = []"
    and more: "length (last args) + 2 \<le> length chunk" "length chunk \<le> unat suggested" "unat suggested < 2 ^ 30"
  shows "read_event pf suggested chunk (sctx, c, w) = Inl ArgvOverrun"
proof -
  note simps = connected_simps [OF con]
  let ?c = "uv_call Uv_timer_start c" and ?w = "arrived w suggested chunk"
  have ne: "chunk \<noteq> []" using more(1) by auto
  have keep: "heap ?w a = heap w a" if "heap w a \<noteq> None" for a
    using that world_ok_fresh [OF simps(5)] by (auto simp: arrived_def)
  have w': "world_ok ?w" "sys_fails ?w = []" "fresh w \<le> fresh ?w"
    using simps(2,5) by (auto simp: arrived_def world_ok_def less_Suc_eq)
  note grown = connected_grows [OF con keep w']
  have c: "connected ?w sctx t ?c" and empty: "pending ?w ?c = []" using grown(1,2) idle by (simp_all add: uv_call_def)
  have size: "length (pending ?w ?c) + length chunk < 2 ^ 30" using empty more(2,3) by simp
  have src: "heap ?w (fresh w) = Some (chunk @ drop (length chunk) (raw w (unat suggested)))"
    "take (length chunk) (chunk @ drop (length chunk) (raw w (unat suggested))) = chunk"
    "buffer ?c \<noteq> Ptr (fresh w) 0"
    using simps(3) world_ok_fresh [OF simps(5)] by (auto simp: arrived_def buffer_ok_def uv_call_def)
  from c ne size src show ?thesis
  proof (cases rule: append_connected)
    case A: (grown p cap w3)
    let ?d = "?c\<lparr>buffer := p, buffer_capacity := cap, buffer_used := buffer_used ?c + of_nat (length chunk)\<rparr>"
    have "spent ?d args" using sp by (simp add: spent_def vectors_def uv_call_def)
    then have "parse_buffer pf sctx ?d w3 = Inl ArgvOverrun"
      by (rule spent_overruns [OF A(2) _ ok]) (use A(3) empty more(1) in simp)
    then show ?thesis using A(1) more by (simp add: read_event_eq [OF simps(2) ne])
  qed
qed

text \<open>C37. A connection serves one request only: nothing is reset after the reply, so when as many bytes as the
  last word of the request and its CRLF arrive after it, which is the case when the client sends the request
  again, the parser writes behind the end of the argument vector.\<close>

theorem second_request_overruns:
  assumes "ctx_ok w sctx" and "sys_fails w = []" and "sends_request pf suggested r chunks"
    and "kv_answer (request_full sctx r) r (view w sctx) = (st, msg, m)" and "sendable pf (length msg)"
    and "length (last (words r)) + 2 \<le> length extra" and "length extra \<le> unat suggested"
  shows "\<exists>c w1. on_new_connection pf 0 True w = (Some c, w1) \<and>
    read_all pf suggested (chunks @ [extra]) (sctx, c, w1) = Inl ArgvOverrun"
  using assms(1-5)
proof (cases rule: connection_answers)
  case (served c w1 w2 t c2 b)
  then obtain sctx' t' c' w' req where run: "read_all pf suggested chunks (sctx, c, w1) = Inr (sctx', c', w')"
    "connected w' sctx' t' c'" "pending w' c' = []" "spent c' (words r)" by (auto simp: done_with_def)
  have ok: "words_ok (words r)" "unat suggested < 2 ^ 30"
    using assms(3) request_words_ok by (simp_all add: sends_request_def pieces_def)
  have "read_event pf suggested extra (sctx', c', w') = Inl ArgvOverrun"
    by (rule spent_read_overruns [OF run(2,4) ok(1) run(3) assms(6,7) ok(2)])
  then have "read_all pf suggested (chunks @ [extra]) (sctx, c, w1) = Inl ArgvOverrun"
    using run(1) by (simp add: read_all_append)
  with served(1) show ?thesis by blast
qed

theorem second_request_overruns_witness:
  "\<exists>c w1. on_new_connection platform0 0 True world1 = (Some c, w1) \<and>
     read_all platform0 65536 [get_a, get_a] (ctx1, c, w1) = Inl ArgvOverrun"
proof -
  have sent: "sends_request platform0 65536 (Req_get [97]) [get_a]" by (rule get_a_sent) (simp_all add: get_a_def)
  have "length (last (words (Req_get [97]))) + 2 \<le> length get_a" "length get_a \<le> unat (65536 :: size_t)"
    by (simp_all add: get_a_def)
  with second_request_overruns [OF ctx_ok_01(2) quiet_01(2) sent get_a_spec get_a_ok(2)] show ?thesis by simp
qed



end
