(* ===== verification/Lifecycle.thy ===== *)
theory Lifecycle
  imports Connection
begin

text \<open>
  The ends of things, src/src/server.c: the release of a client and of a write request, the start and the
  stop of the server, and a request line that makes the parser read behind its buffer.
\<close>

section \<open>Releasing blocks\<close>

definition gone :: "(nat \<Rightarrow> byte list option) \<Rightarrow> ptr set \<Rightarrow> nat \<Rightarrow> byte list option" where
  "gone h ps a = (if Ptr a 0 \<in> ps then None else h a)"

lemma gone_insert: "gone h (insert (Ptr a 0) ps) = (gone h ps)(a := None)"
  by (auto simp: gone_def fun_eq_iff)

lemma gone_empty [simp]: "gone h {} = h"
  by (simp add: gone_def fun_eq_iff)

lemma free_gone:
  assumes "live w p" and "p \<notin> ps"
  shows "free p (w\<lparr>heap := gone (heap w) ps\<rparr>) = Inr (w\<lparr>heap := gone (heap w) (insert p ps)\<rparr>)"
proof (cases p)
  case (Ptr a off)
  with assms show ?thesis by (auto simp: free_def gone_insert) (simp add: gone_def)
qed (use assms in simp)

lemma free_all_gone:
  assumes "i + n \<le> length ps" and "\<forall>p \<in> set (take n (drop i ps)). live w p \<and> p \<notin> qs" and "distinct (take n (drop i ps))"
  shows "free_all ps i n (w\<lparr>heap := gone (heap w) qs\<rparr>) =
    Inr (w\<lparr>heap := gone (heap w) (set (take n (drop i ps)) \<union> qs)\<rparr>)"
  using assms
proof (induction n arbitrary: i qs)
  case (Suc n)
  then have i: "i < length ps" by simp
  then have split: "take (Suc n) (drop i ps) = ps ! i # take n (drop (Suc i) ps)"
    by (metis Cons_nth_drop_Suc take_Suc_Cons)
  have "live w (ps ! i)" "ps ! i \<notin> qs" using Suc.prems(2) split by simp_all
  moreover have "free_all ps (Suc i) n (w\<lparr>heap := gone (heap w) (insert (ps ! i) qs)\<rparr>) =
      Inr (w\<lparr>heap := gone (heap w) (set (take n (drop (Suc i) ps)) \<union> insert (ps ! i) qs)\<rparr>)"
    using Suc.prems split by (intro Suc.IH) auto
  ultimately show ?case using i free_gone [of w "ps ! i" qs] by (simp add: split)
qed simp

section \<open>The end of a client\<close>

lemma free_parser_resources_ok:
  assumes own: "owns_blocks w c"
  shows "free_parser_resources c w =
    Inr (c\<lparr>temp_argv := NULL, argv_slots := (if temp_argv c = NULL then argv_slots c else []), temp_arg_lengths := NULL,
         length_slots := (if temp_arg_lengths c = NULL then length_slots c else [])\<rparr>,
      w\<lparr>heap := gone (heap w) (set (arguments c) \<union> {p. p \<noteq> NULL \<and> (p = temp_argv c \<or> p = temp_arg_lengths c)})\<rparr>)"
proof -
  define qs where "qs = {p. p \<noteq> NULL \<and> p = temp_argv c} \<union> set (arguments c)"
  have one: "(if temp_argv c = NULL then Inr (c, w)
        else
          bindE (free_all (argv_slots c) 0 (unat (args_parsed c)) w) (\<lambda>w1.
          bindE (free (temp_argv c) w1) (\<lambda>w2.
          Inr (c\<lparr>temp_argv := NULL, argv_slots := []\<rparr>, w2)))) =
      Inr (c\<lparr>temp_argv := NULL, argv_slots := (if temp_argv c = NULL then argv_slots c else [])\<rparr>, w\<lparr>heap := gone (heap w) qs\<rparr>)"
  proof (cases "temp_argv c = NULL")
    case True
    then show ?thesis by (simp add: qs_def arguments_def gone_def fun_eq_iff)
  next
    case False
    have "free_all (argv_slots c) 0 (unat (args_parsed c)) (w\<lparr>heap := gone (heap w) {}\<rparr>) =
        Inr (w\<lparr>heap := gone (heap w) (set (take (unat (args_parsed c)) (drop 0 (argv_slots c))) \<union> {})\<rparr>)"
      using own False by (intro free_all_gone) (auto simp: owns_blocks_def client_blocks_def arguments_def)
    then have "free_all (argv_slots c) 0 (unat (args_parsed c)) w = Inr (w\<lparr>heap := gone (heap w) (set (arguments c))\<rparr>)"
      using False by (simp add: arguments_def)
    moreover have "free (temp_argv c) (w\<lparr>heap := gone (heap w) (set (arguments c))\<rparr>) =
        Inr (w\<lparr>heap := gone (heap w) (insert (temp_argv c) (set (arguments c)))\<rparr>)"
      using own False by (intro free_gone) (auto simp: owns_blocks_def client_blocks_def)
    moreover have "qs = insert (temp_argv c) (set (arguments c))" using False by (auto simp: qs_def)
    ultimately show ?thesis using False by simp
  qed
  show ?thesis
  proof (cases "temp_arg_lengths c = NULL")
    case True
    then have "qs = set (arguments c) \<union> {p. p \<noteq> NULL \<and> (p = temp_argv c \<or> p = temp_arg_lengths c)}" by (auto simp: qs_def)
    then show ?thesis using True one by (simp add: free_parser_resources_def)
  next
    case False
    have "free (temp_arg_lengths c) (w\<lparr>heap := gone (heap w) qs\<rparr>) = Inr (w\<lparr>heap := gone (heap w) (insert (temp_arg_lengths c) qs)\<rparr>)"
      using own False by (intro free_gone) (auto simp: owns_blocks_def client_blocks_def qs_def)
    moreover have "insert (temp_arg_lengths c) qs = set (arguments c) \<union> {p. p \<noteq> NULL \<and> (p = temp_argv c \<or> p = temp_arg_lengths c)}"
      using False by (auto simp: qs_def)
    ultimately show ?thesis using False one by (simp add: free_parser_resources_def)
  qed
qed

lemma release_client:
  assumes "owns_blocks w c" and "closing \<or> Uv_timer_start \<in> set (calls c)"
  shows "\<exists>c' w1. on_client_close closing c w = Inr (c', w1) \<and>
    on_timer_close c' w1 = Inr (w\<lparr>heap := gone (heap w) (set (client_blocks c))\<rparr>) \<and>
    calls c' = calls c @ (if closing then [] else [Uv_close_timer])"
proof -
  let ?c = "if closing then c else uv_call Uv_close_timer c"
  let ?ps = "set (arguments c) \<union> {p. p \<noteq> NULL \<and> (p = temp_argv c \<or> p = temp_arg_lengths c)}"
  have same: "arguments ?c = arguments c" "client_blocks ?c = client_blocks c" "temp_argv ?c = temp_argv c"
    "temp_arg_lengths ?c = temp_arg_lengths c" "buffer ?c = buffer c" "ctx_ptr ?c = ctx_ptr c" "args_parsed ?c = args_parsed c"
    "argv_slots ?c = argv_slots c"
    by (simp_all add: uv_call_def arguments_def client_blocks_def)
  have "owns_blocks w ?c" using assms by (simp add: owns_blocks_def same)
  note fpr = free_parser_resources_ok [OF this, unfolded same]
  obtain c' where c': "on_client_close closing c w = Inr (c', w\<lparr>heap := gone (heap w) ?ps\<rparr>)"
    "buffer c' = buffer c" "ctx_ptr c' = ctx_ptr c" "calls c' = calls ?c"
    using assms(2) by (auto simp: on_client_close_def fpr reset_parser_def same)
  have ctx: "live w (ctx_ptr c)" "ctx_ptr c \<notin> ?ps" "ctx_ptr c \<noteq> buffer c" "ctx_ptr c \<noteq> NULL"
    using assms by (auto simp: owns_blocks_def client_blocks_def split: if_split_asm)
  have close: "on_timer_close c' (w\<lparr>heap := gone (heap w) ?ps\<rparr>) = Inr (w\<lparr>heap := gone (heap w) (set (client_blocks c))\<rparr>)"
  proof (cases "buffer c = NULL")
    case True
    have "insert (ctx_ptr c) ?ps = set (client_blocks c)" using True by (auto simp: client_blocks_def)
    then show ?thesis using True c' free_gone [OF ctx(1,2)] by (simp add: on_timer_close_def)
  next
    case False
    have "live w (buffer c)" "buffer c \<notin> ?ps"
      using assms False by (auto simp: owns_blocks_def client_blocks_def split: if_split_asm)
    note fb = free_gone [OF this]
    have "ctx_ptr c \<notin> insert (buffer c) ?ps" using ctx(2,3) by simp
    note fc = free_gone [OF ctx(1) this]
    have "insert (ctx_ptr c) (insert (buffer c) ?ps) = set (client_blocks c)" using False by (auto simp: client_blocks_def)
    then show ?thesis using False c' fb fc by (simp add: on_timer_close_def)
  qed
  have "calls ?c = calls c @ (if closing then [] else [Uv_close_timer])" by (simp add: uv_call_def)
  with c' close show ?thesis by auto
qed

text \<open>C20. Closing a client frees exactly its blocks: after the callbacks for the stream and for the timer the
  arguments, the two vectors, the read buffer and the context are gone, each freed once, and every other
  block is as it was; the timer is closed once. A client whose timer was never started, as one that was not
  accepted, has no timer to close: \<open>uv_close\<close> is called on a handle that was never initialised.\<close>

theorem client_released:
  assumes "owns_blocks w c"
  shows "if \<not> closing \<and> Uv_timer_start \<notin> set (calls c) then on_client_close closing c w = Inl BadHandle
    else \<exists>c' w1 w2. on_client_close closing c w = Inr (c', w1) \<and> on_timer_close c' w1 = Inr w2 \<and>
      heap w2 = gone (heap w) (set (client_blocks c)) \<and> calls c' = calls c @ (if closing then [] else [Uv_close_timer])"
proof (cases "closing \<or> Uv_timer_start \<in> set (calls c)")
  case True
  with release_client [OF assms this] show ?thesis by auto
qed (simp add: on_client_close_def)

theorem client_released_witness:
  "\<exists>c' w1 w2. on_client_close False
       (junk_client\<lparr>temp_argv := Ptr 5 0, argv_slots := [Ptr 6 0, NULL], temp_arg_lengths := Ptr 8 0, length_slots := [2, 0],
          args_parsed := 1, calls := [Uv_timer_start]\<rparr>)
       (junk_world\<lparr>heap := [4 \<mapsto> [], 5 \<mapsto> [], 6 \<mapsto> [], 7 \<mapsto> [], 8 \<mapsto> [], 9 \<mapsto> []]\<rparr>) = Inr (c', w1) \<and>
     on_timer_close c' w1 = Inr w2 \<and> heap w2 = [9 \<mapsto> []]"
proof -
  let ?c = "junk_client\<lparr>temp_argv := Ptr 5 0, argv_slots := [Ptr 6 0, NULL], temp_arg_lengths := Ptr 8 0,
    length_slots := [2, 0], args_parsed := 1, calls := [Uv_timer_start]\<rparr>"
  let ?w = "junk_world\<lparr>heap := [4 \<mapsto> [], 5 \<mapsto> [], 6 \<mapsto> [], 7 \<mapsto> [], 8 \<mapsto> [], 9 \<mapsto> []]\<rparr>"
  have blocks: "client_blocks ?c = [Ptr 6 0, Ptr 5 0, Ptr 8 0, Ptr 4 0, Ptr 7 0]"
    by (simp add: client_blocks_def arguments_def junk_client_def zero_context_def)
  then have "owns_blocks ?w ?c" by (simp add: owns_blocks_def)
  moreover have "gone (heap ?w) (set (client_blocks ?c)) = [9 \<mapsto> []]"
    unfolding blocks by (simp add: gone_def fun_eq_iff)
  ultimately show ?thesis using client_released [of ?w ?c False] by auto
qed

text \<open>A connection that libuv did not accept is closed right away, with the timer never initialised.\<close>

lemma refused_connection_bad_handle:
  assumes "on_new_connection pf status False w = (Some c, w')"
  shows "on_client_close False c w' = Inl BadHandle"
  using assms
  by (auto simp: on_new_connection_def on_client_close_def uv_call_def zero_context_def Let_def
      split: if_split_asm prod.split_asm)

section \<open>The end of a write\<close>

lemma complete_write:
  assumes "live w (buf_base wr)" and "live w (req_ptr wr)" and "buf_base wr \<noteq> req_ptr wr"
  shows "on_write_complete wr status w =
    (if status < 0 then Inl DanglingAccess else Inr (w\<lparr>heap := gone (heap w) {buf_base wr, req_ptr wr}\<rparr>))"
proof -
  have "free (buf_base wr) (w\<lparr>heap := gone (heap w) {}\<rparr>) = Inr (w\<lparr>heap := gone (heap w) {buf_base wr}\<rparr>)"
    using assms(1) by (rule free_gone) simp
  moreover have "free (req_ptr wr) (w\<lparr>heap := gone (heap w) {buf_base wr}\<rparr>) =
      Inr (w\<lparr>heap := gone (heap w) {req_ptr wr, buf_base wr}\<rparr>)"
    using assms(2,3) by (intro free_gone) auto
  moreover have "\<not> live (w\<lparr>heap := gone (heap w) {req_ptr wr, buf_base wr}\<rparr>) (req_ptr wr)"
    using assms(2) by (auto simp: live_def gone_def split: ptr.splits)
  ultimately show ?thesis by (simp add: on_write_complete_def insert_commute)
qed

text \<open>C21. The callback of a write frees the reply and the request; when the write has failed it then reads the
  handle of the stream from the request it has just freed, whatever the error.\<close>

theorem write_completed:
  assumes "live w (buf_base wr)" and "live w (req_ptr wr)" and "buf_base wr \<noteq> req_ptr wr"
  shows "on_write_complete wr status w =
    (if status < 0 then Inl DanglingAccess else Inr (w\<lparr>heap := gone (heap w) {buf_base wr, req_ptr wr}\<rparr>))"
  using assms by (rule complete_write)

theorem write_completed_witness:
  "on_write_complete \<lparr>req_ptr = Ptr 6 0, buf_base = Ptr 5 0, buf_len = 2\<rparr> (- 32) (junk_world\<lparr>heap := [5 \<mapsto> [], 6 \<mapsto> []]\<rparr>) =
     Inl DanglingAccess"
  using write_completed [of "junk_world\<lparr>heap := [5 \<mapsto> [], 6 \<mapsto> []]\<rparr>" "\<lparr>req_ptr = Ptr 6 0, buf_base = Ptr 5 0, buf_len = 2\<rparr>" "- 32"]
  by simp

section \<open>A request line without a number\<close>

lemma blank_line_overreads:
  assumes buf: "buffer c = Ptr a 0" "heap w a = Some (42 # 13 # 10 # ws)" "unat (buffer_used c) = 3 + length ws"
    and ws: "\<forall>b \<in> set ws. isspace b" and st: "pstate c = PARSE_STATE_EXPECT_TYPE"
  shows "parse_buffer pf sctx c w = Inl BufferOverrun"
proof -
  have blk: "block w (buffer c) = 42 # 13 # 10 # ws" using buf by (simp add: block_def)
  have u: "unat (buffer_used c) = Suc (Suc (Suc (length ws)))" using buf(3) by simp
  have ne: "buffer_used c \<noteq> 0" using u by auto
  have "skip_newlines (block w (buffer c)) (unat (buffer_used c)) = Inr 0" by (simp add: blk u)
  moreover have "first_byte c w = Inr 42" using buf(1,2) by (simp add: first_byte_def load_def)
  moreover have "find_crlf c w = Inr (Some 1)" 
    using buf(1,2) unfolding find_crlf_def blk by (simp add: u ptr_add_def load_def)
  moreover have "strtol (drop 1 (block w (buffer c))) = Inl BufferOverrun"
  proof -
    have "isspace 13" "isspace 10" by (simp_all add: isspace_def)
    then have "dropWhile isspace (13 # 10 # ws) = []" using ws by simp
    then show ?thesis by (simp add: blk strtol_def)
  qed
  ultimately have "parse_type c w = Inl BufferOverrun" using ne by (simp add: parse_type_def)
  then show ?thesis using st by (simp add: parse_buffer_def parse_step_def)
qed

text \<open>C39. A first read of exactly 1024 bytes, an asterisk, a line break and then white space only, makes
  \<open>strtol\<close> read on behind the end of the read buffer, which holds no terminator.\<close>

theorem blank_request_overreads:
  assumes "ctx_ok w sctx" and "sys_fails w = []" and "sizeof_client_context pf < 2 ^ 63"
    and "length ws = 1021" and "\<forall>b \<in> set ws. isspace b" and "1024 \<le> unat suggested" and "unat suggested < 2 ^ 30"
  shows "\<exists>c w1. on_new_connection pf 0 True w = (Some c, w1) \<and>
    read_event pf suggested (42 # 13 # 10 # ws) (sctx, c, w1) = Inl BufferOverrun"
proof -
  obtain t where srv: "serving w sctx t" using assms(1) by (auto simp: ctx_ok_def)
  let ?chunk = "42 # 13 # 10 # ws"
  obtain c w1 where new: "on_new_connection pf 0 True w = (Some c, w1)" "connected w1 sctx t c"
    "buffer c = NULL" "buffer_used c = 0" "buffer_capacity c = 0" "pstate c = PARSE_STATE_EXPECT_TYPE"
    using new_connection_ok [OF srv assms(2,3), of "{}"] by simp metis
  note simps = connected_simps [OF new(2)]
  have len: "length ?chunk = 1024" using assms(4) by simp
  let ?w2 = "arrived w1 suggested ?chunk" and ?c = "uv_call Uv_timer_start c"
  let ?b = "fresh w1" and ?f = "fresh ?w2"
  let ?w3 = "?w2\<lparr>heap := (heap ?w2)(?f \<mapsto> raw ?w2 1024), fresh := Suc ?f\<rparr>"
  let ?w4 = "?w2\<lparr>heap := (heap ?w2)(?f \<mapsto> ?chunk), fresh := Suc ?f\<rparr>"
  have "realloc NULL 1024 ?w2 = Inr (Ptr ?f 0, ?w3)"
    using simps(2) by (simp add: realloc_def malloc_no_fails arrived_def)
  moreover have "memcpy (ptr_add (Ptr ?f 0) 0) (Ptr ?b 0) (length ?chunk) ?w3 = Inr ?w4"
    by (subst write_tail [where bs = "raw ?w2 1024" and ds = "?chunk @ drop (length ?chunk) (raw w1 (unat suggested))"])
      (use len in \<open>simp_all add: arrived_def\<close>)
  ultimately have app: "append_to_buffer ?c (Ptr ?b 0) 1024 ?w2 =
      Inr (?c\<lparr>buffer := Ptr ?f 0, buffer_capacity := 1024, buffer_used := 1024\<rparr>, ?w4)"
    using new(3-5) len by (simp add: append_to_buffer_def uv_call_def)
  have "parse_buffer pf sctx (?c\<lparr>buffer := Ptr ?f 0, buffer_capacity := 1024, buffer_used := 1024\<rparr>) ?w4 = Inl BufferOverrun"
    by (rule blank_line_overreads [where a = ?f, OF _ _ _ assms(5)]) (use new(6) assms(4) in \<open>simp_all add: uv_call_def\<close>)
  moreover have "of_nat (length ?chunk) = (1024 :: size_t)" unfolding len by simp
  ultimately have "read_event pf suggested ?chunk (sctx, c, w1) = Inl BufferOverrun"
    using read_event_eq [OF simps(2), of ?chunk suggested pf sctx c] len assms(6,7) app by simp
  with new(1) show ?thesis by blast
qed

theorem blank_request_overreads_witness:
  "\<exists>c w1. on_new_connection platform0 0 True world0 = (Some c, w1) \<and>
     read_event platform0 65536 (42 # 13 # 10 # replicate 1021 32) (ctx0, c, w1) = Inl BufferOverrun"
  using blank_request_overreads [OF ctx_ok_01(1) quiet_01(1) get_a_ok(3), of "replicate 1021 32" 65536]
  by (simp add: isspace_def)

section \<open>The start and the stop of the server\<close>

text \<open>What the server tears down: its registry and its table, with all values.\<close>

lemma stop_ok:
  assumes srv: "serving w sctx t" and g: "reg sctx = Some g" "reg_ptr g = Ptr a 0" "outside w t a = Some bs"
  shows "stop_server sctx w = Inr (w\<lparr>heap := (outside w t)(a := None)\<rparr>)"
proof -
  note simps = serving_simps [OF srv]
  have a: "Ptr a 0 \<notin> footprint t" "heap w a = Some bs" using g(3) by (simp_all add: outside_def split: if_splits)
  let ?u = "w\<lparr>heap := (heap w)(a := None)\<rparr>"
  have rd: "registry_destroy (Some (reg sctx)) w = Inr (0, Some None, ?u)"
    using g(1,2) a(2) by (simp add: registry_destroy_def free_def)
  have "world_ok ?u" using simps(2) by (auto simp: db_ok_def world_ok_def)
  then have db: "db ?u t" by (rule db_ok_outside(1) [OF simps(2)]) (use a(1) in auto)
  have "outside ?u t = (outside w t)(a := None)" using a(1) by (auto simp: outside_def fun_eq_iff)
  with rd dv.table_destroy_ok [OF db] simps(1) show ?thesis by (simp add: stop_server_def)
qed

text \<open>When the system grants everything, a table is created unless its array of buckets is too large.\<close>

lemma init_locks_granted: "sys_fails w = [] \<Longrightarrow> init_locks n ls w = (0, ls @ replicate n Unlocked, w)"
  by (induction n arbitrary: ls) (simp_all add: pthread_rwlock_init_def sys_request_def replicate_append_same)

definition table_fits :: "size_t \<Rightarrow> bool" where
  "table_fits n \<longleftrightarrow> unat (adjust_capacity n) * sizeof_bucket < 2 ^ 63"

lemma table_create_granted:
  assumes quiet: "sys_fails w = []" and cap: "cap \<noteq> 0"
  shows "\<exists>r w'. table_create cap w = Inr (r, w') \<and> (r \<noteq> None \<longleftrightarrow> table_fits cap) \<and> sys_fails w' = []"
proof (cases "table_fits cap")
  case True
  then have "unat (adjust_capacity cap) * sizeof_rwlock < 2 ^ 63"
    by (simp add: table_fits_def sizeof_bucket_def sizeof_rwlock_def)
  moreover have "unat (adjust_capacity cap * of_nat sizeof_rwlock) \<le> unat (adjust_capacity cap) * sizeof_rwlock"
    by (simp add: unat_word_ariths sizeof_rwlock_def)
  ultimately have "unat (adjust_capacity cap * of_nat sizeof_rwlock) < 2 ^ 63" by linarith
  with True quiet cap show ?thesis
    by (simp add: table_create_def heap_simps Let_def init_locks_granted table_fits_def sizeof_hashtable_def)
next
  case False
  with quiet cap show ?thesis
    by (simp add: table_create_def heap_simps Let_def table_fits_def sizeof_hashtable_def free_def)
qed

lemma start_server_cases:
  assumes ok: "world_ok w" and quiet: "sys_fails w = []" and n: "strtoul size_arg = Inr (n, e)" "n \<noteq> 0" "unat n \<le> 2 ^ 63"
  obtains (refused) w1 where "start_server size_arg w = Inr (None, w1)" "heap w1 = (heap w)(fresh w \<mapsto> [])" "\<not> table_fits n"
  | (started) t w1 g where "start_server size_arg w = Inr (Some \<lparr>reg = Some g, database = Some t\<rparr>, w1)"
      "reg_ptr g = Ptr (fresh w) 0" "serving w1 \<lparr>reg = Some g, database = Some t\<rparr> t" "stored w1 t = Map.empty"
      "outside w1 t = (heap w)(fresh w \<mapsto> [])" "sys_fails w1 = []" "table_fits n" "buckets_count t = adjust_capacity n"
proof -
  let ?g = "\<lparr>reg_ptr = Ptr (fresh w) 0, commands = command_table, reg_count = of_nat (length command_table)\<rparr>"
  let ?w = "w\<lparr>heap := (heap w)(fresh w \<mapsto> []), fresh := Suc (fresh w)\<rparr>"
  have reg: "registry_create w = (Some ?g, ?w)"
    using quiet by (simp add: registry_create_def heap_simps sizeof_registry_def)
  have "sys_fails ?w = []" using quiet by simp
  from table_create_granted [OF this n(2)] obtain r w1 where
    r: "table_create n ?w = Inr (r, w1)" "r \<noteq> None \<longleftrightarrow> table_fits n" "sys_fails w1 = []" by blast
  have run: "start_server size_arg w = Inr (case r of None \<Rightarrow> None | Some t \<Rightarrow> Some \<lparr>reg = Some ?g, database = Some t\<rparr>, w1)"
    using n r(1) reg by (cases r) (simp_all add: start_server_def)
  have "world_ok ?w" using ok by (auto simp: world_ok_def less_Suc_eq)
  from this n(2,3) show thesis
  proof (cases rule: create_ok [where valid = valid_entry])
    case (refused w')
    with r run show thesis by (intro that(1) [of w1]) simp_all
  next
    case (created t w')
    let ?s = "\<lparr>reg = Some ?g, database = Some t\<rparr>"
    have same: "r = Some t" "w' = w1" using created(1) r(1) by simp_all
    have "table_lookup t = Map.empty"
      by (intro table_lookup_ext [OF db_ok_simps(2) [OF created(2)]]) (simp add: created(4))
    then have empty: "stored w1 t = Map.empty" by (simp add: stored_def contents_def fun_eq_iff)
    then have srv: "serving w1 ?s t"
      using created(2,3) same by (simp add: serving_def std_registry_def moderate_def)
    from created(6,7) same r run empty srv show thesis
      by (intro that(2) [of ?g t w1]) simp_all
  qed
qed

text \<open>C18. With every allocation granted, \<open>main\<close> sets up a server when the size is not 0 and the bucket array is smaller than
  \<open>2 ^ 63\<close> bytes, and only then: the server has a table of the rounded number of buckets and serves the empty
  database, and what it tears down at the end is all it has allocated, so stopped at once it leaves the memory as
  it was. A size that is 0 or not a number, or a table that is too large, is refused, and only the registry stays allocated.\<close>

theorem server_starts_and_stops:
  assumes "world_ok w" and "sys_fails w = []" and "strtoul size_arg = Inr (n, e)" and "unat n \<le> 2 ^ 63"
  shows "if n \<noteq> 0 \<and> unat (adjust_capacity n) * sizeof_bucket < 2 ^ 63
    then \<exists>sctx t w'. start_server size_arg w = Inr (Some sctx, w') \<and> ctx_ok w' sctx \<and> view w' sctx = Map.empty \<and>
      database sctx = Some t \<and> buckets_count t = adjust_capacity n \<and> stop_server sctx w' = Inr (w'\<lparr>heap := heap w\<rparr>)
    else \<exists>w'. start_server size_arg w = Inr (None, w') \<and> heap w' = (heap w)(fresh w \<mapsto> [])"
proof (cases "n = 0")
  case True
  then show ?thesis
    using assms(2,3) by (simp add: start_server_def registry_create_def heap_simps sizeof_registry_def)
next
  case False
  from assms(1-3) False assms(4) show ?thesis
  proof (cases rule: start_server_cases)
    case (refused w2)
    then show ?thesis by (simp add: table_fits_def)
  next
    case (started t w2 g)
    let ?s = "\<lparr>reg = Some g, database = Some t\<rparr>"
    have "ctx_ok w2 ?s" "view w2 ?s = Map.empty"
      using started(3,4) serving_simps(5) [OF started(3)] by (auto simp: ctx_ok_def)
    moreover have "(outside w2 t)(fresh w := None) = heap w" using started(5) world_ok_fresh [OF assms(1)] by (simp add: fun_upd_idem)
    ultimately show ?thesis
      using started(1,7,8) False stop_ok [OF started(3) _ started(2), of "[]"] started(5) by (simp add: table_fits_def)
  qed
qed

theorem server_starts_and_stops_witness:
  "\<exists>sctx w' w''. start_server (literal ''1'') empty_world = Inr (Some sctx, w') \<and> view w' sctx = Map.empty \<and>
     stop_server sctx w' = Inr w'' \<and> heap w'' = Map.empty"
proof -
  have n: "strtoul (literal ''1'') = Inr (1, 1)" by (simp add: cstr_simps)
  have "sys_fails empty_world = []" "unat (1 :: size_t) \<le> 2 ^ 63" by (simp_all add: empty_world_def)
  from server_starts_and_stops [OF world_ok_empty this(1) n this(2)] show ?thesis
    by (auto simp: empty_world_def sizeof_bucket_def)
qed

end
