(* ===== verification/Event_Loop.thy ===== *)
theory Event_Loop
  imports Lifecycle
begin

text \<open>
  Many clients at once, src/src/server.c under libuv's event loop. The loop is not part of the sources; it
  is modelled as a list of events, each of which calls the callbacks the server has registered for it:
  connections come in (or fail), bytes arrive in pieces, writes end with any status, clients leave or time out, handles
  are closed, in any order of the clients. What libuv and the clients keep to is written down as the phases of a
  connection; the specification has one map and lists every way in which an event may end, the
  faults of the server included. The network of the model refines it, whatever the interleaving.
\<close>

section \<open>The event loop\<close>

text \<open>
  \<open>Connect i status accepted\<close> is a new connection with the status libuv reports and the outcome of \<open>uv_accept\<close>,
  \<open>Arrive i chunk\<close> a read (of no bytes, when there was nothing to read), \<open>Written i status\<close> the end of the oldest write,
  \<open>End i nread\<close> a failed read or the end of the stream, \<open>Expire i\<close> the timer, \<open>Closed i\<close> the end of \<open>uv_close\<close>.
\<close>

datatype event =
    Connect nat int bool
  | Arrive nat "byte list"
  | Written nat int
  | End nat "64 word"
  | Expire nat
  | Closed nat

text \<open>
  \<open>writing\<close> are the writes of a client that libuv has not completed yet, \<open>sent\<close> the bytes it has sent, in
  order.
\<close>

record network =
  server :: server_context
  clients :: "nat \<Rightarrow> client_context option"
  memory :: world
  writing :: "nat \<Rightarrow> write_req list"
  sent :: "(nat \<times> byte list) list"

fun writes_of :: "uv_call list \<Rightarrow> write_req list" where
  "writes_of [] = []"
| "writes_of (Uv_write req # us) = req # writes_of us"
| "writes_of (u # us) = writes_of us"

definition handle_read :: "nat \<Rightarrow> network \<Rightarrow> client_context \<Rightarrow> parsed \<Rightarrow> fault + network" where
  "handle_read i n c result =
     bindE result (\<lambda>(sctx, c', w).
     Inr (n\<lparr>server := sctx, clients := (clients n)(i \<mapsto> c'), memory := w,
            writing := (writing n)(i := writing n i @ writes_of (drop (length (calls c)) (calls c')))\<rparr>))"

text \<open>A read that fails, or finds the end of the stream: a buffer is allocated for it, and holds nothing.\<close>

definition end_event :: "platform \<Rightarrow> size_t \<Rightarrow> 64 word \<Rightarrow> server_context \<times> client_context \<times> world \<Rightarrow> parsed" where
  "end_event pf suggested nread s =
     (let (sctx, c, w) = s; ((p, len), w1) = alloc_buffer suggested w in
      on_read pf sctx c (if len = 0 then UV_ENOBUFS else nread) p w1)"

fun handle_for :: "platform \<Rightarrow> size_t \<Rightarrow> event \<Rightarrow> nat \<Rightarrow> client_context \<Rightarrow> network \<Rightarrow> fault + network" where
  "handle_for pf suggested (Connect j status accepted) i c n = Inr n"
| "handle_for pf suggested (Arrive j chunk) i c n =
     handle_read i n c (read_event pf suggested chunk (server n, c, memory n))"
| "handle_for pf suggested (Written j status) i c n =
     (case writing n i of
        [] \<Rightarrow> Inr n
      | req # rest \<Rightarrow>
          bindE (on_write_complete req status (memory n)) (\<lambda>w.
          Inr (n\<lparr>memory := w, writing := (writing n)(i := rest),
                 sent := sent n @ [(i, take (buf_len req) (block (memory n) (buf_base req)))]\<rparr>)))"
| "handle_for pf suggested (End j nread) i c n =
     handle_read i n c (end_event pf suggested nread (server n, c, memory n))"
| "handle_for pf suggested (Expire j) i c n = Inr (n\<lparr>clients := (clients n)(i \<mapsto> on_client_timeout c)\<rparr>)"
| "handle_for pf suggested (Closed j) i c n =
     bindE (on_client_close False c (memory n)) (\<lambda>(c', w1).
     bindE (on_timer_close c' w1) (\<lambda>w2. Inr (n\<lparr>clients := (clients n)(i := None), memory := w2\<rparr>)))"

fun who :: "event \<Rightarrow> nat" where
  "who (Connect i status accepted) = i"
| "who (Arrive i chunk) = i"
| "who (Written i status) = i"
| "who (End i nread) = i"
| "who (Expire i) = i"
| "who (Closed i) = i"

definition handle :: "platform \<Rightarrow> size_t \<Rightarrow> event \<Rightarrow> network \<Rightarrow> fault + network" where
  "handle pf suggested e n =
     (case clients n (who e) of
        Some c \<Rightarrow> handle_for pf suggested e (who e) c n
      | None \<Rightarrow>
          (case e of
             Connect i status accepted \<Rightarrow>
               (case on_new_connection pf status accepted (memory n) of
                  (c, w) \<Rightarrow> Inr (n\<lparr>clients := (clients n)(i := c), memory := w\<rparr>))
           | _ \<Rightarrow> Inr n))"

definition listening :: "server_context \<Rightarrow> world \<Rightarrow> network" where
  "listening sctx w = \<lparr>server = sctx, clients = Map.empty, memory = w, writing = (\<lambda>i. []), sent = []\<rparr>"

section \<open>What libuv and the clients do\<close>

text \<open>
  The phases of the connection of client \<open>i\<close>, which sends the request \<open>plan i\<close>: it has bytes left to send, its reply is being
  written, it was served, it has left or timed out with the reply still being written, its handle is being closed, or
  libuv did not accept it. An event that libuv does not deliver in a phase has no next phase: nothing is read
  from a handle that is being closed, its timer does not run any more, a write ends once, before the handle is closed. The client may
  leave or time out at any time until then, and a read may find nothing. It sends nothing after its request.
\<close>

datatype phase = Sending "byte list" | Replying | Served | Aborting | Closing | Refused

fun next_phase :: "size_t \<Rightarrow> (nat \<Rightarrow> request) \<Rightarrow> event \<Rightarrow> phase option \<Rightarrow> phase option option" where
  "next_phase suggested plan (Connect i status accepted) p =
     (if p \<noteq> None then None
      else Some (if status < 0 then None else if accepted then Some (Sending (encode (words (plan i)))) else Some Refused))"
| "next_phase suggested plan (Arrive i chunk) p =
     (case p of
        Some (Sending future) \<Rightarrow>
          if length chunk \<le> unat suggested \<and> take (length chunk) future = chunk
          then Some (Some (if length chunk = length future then Replying else Sending (drop (length chunk) future)))
          else None
      | Some Replying \<Rightarrow> if chunk = [] then Some p else None
      | Some Served \<Rightarrow> if chunk = [] then Some p else None
      | _ \<Rightarrow> None)"
| "next_phase suggested plan (Written i status) p =
     (case p of Some Replying \<Rightarrow> Some (Some Served) | Some Aborting \<Rightarrow> Some (Some Closing) | _ \<Rightarrow> None)"
| "next_phase suggested plan (End i nread) p =
     (if 0 \<le> sint nread then None
      else
        (case p of
           Some (Sending future) \<Rightarrow> Some (Some Closing)
         | Some Replying \<Rightarrow> Some (Some Aborting)
         | Some Served \<Rightarrow> Some (Some Closing)
         | _ \<Rightarrow> None))"
| "next_phase suggested plan (Expire i) p =
     (case p of
        Some (Sending future) \<Rightarrow> Some (Some Closing)
      | Some Replying \<Rightarrow> Some (Some Aborting)
      | Some Served \<Rightarrow> Some (Some Closing)
      | _ \<Rightarrow> None)"
| "next_phase suggested plan (Closed i) p =
     (case p of Some Closing \<Rightarrow> Some None | Some Refused \<Rightarrow> Some None | _ \<Rightarrow> None)"

definition deliver :: "size_t \<Rightarrow> (nat \<Rightarrow> request) \<Rightarrow> event \<Rightarrow> (nat \<Rightarrow> phase option) \<Rightarrow> (nat \<Rightarrow> phase option) option" where
  "deliver suggested plan e g =
     (case next_phase suggested plan e (g (who e)) of None \<Rightarrow> None | Some p \<Rightarrow> Some (g(who e := p)))"

primrec moves :: "('e \<Rightarrow> 'g \<Rightarrow> 'g option) \<Rightarrow> 'e list \<Rightarrow> 'g \<Rightarrow> 'g option" where
  "moves move [] g = Some g"
| "moves move (e # es) g = (case move e g of None \<Rightarrow> None | Some g' \<Rightarrow> moves move es g')"

text \<open>The events can come in this order from libuv and clients that each send their request.\<close>

definition delivered :: "size_t \<Rightarrow> (nat \<Rightarrow> request) \<Rightarrow> event list \<Rightarrow> bool" where
  "delivered suggested plan es \<longleftrightarrow> moves (deliver suggested plan) es Map.empty \<noteq> None"

section \<open>The specification\<close>

record service =
  smap :: store_map
  phases :: "nat \<Rightarrow> phase option"
  replying :: "nat \<Rightarrow> byte list"
  answers :: "(nat \<times> byte list) list"
  replies_sent :: "(nat \<times> byte list) list"

definition enter :: "nat \<Rightarrow> phase option \<Rightarrow> service \<Rightarrow> service" where
  "enter i p s = s\<lparr>phases := (phases s)(i := p)\<rparr>"

text \<open>Events that change the phase only.\<close>

fun silent :: "event \<Rightarrow> phase option \<Rightarrow> bool" where
  "silent (Arrive i chunk) (Some (Sending future)) = (length chunk < length future)"
| "silent (Written i status) p = False"
| "silent (Closed i) p = (p \<noteq> Some Refused)"
| "silent e p = True"

text \<open>
  The ways in which an event may end. The last bytes of a request have it answered on the map; a new key may be
  turned away as for a full bucket only when eight keys are stored. There are three faults: the line feed of a reply is
  written behind its block when the allocator has left no spare byte there, a write that has failed is read from
  after it was freed, and the timer of a connection that was not accepted is closed without having been
  initialised.
\<close>

inductive service_step ::
    "platform \<Rightarrow> size_t \<Rightarrow> (nat \<Rightarrow> request) \<Rightarrow> event \<Rightarrow> service \<Rightarrow> fault + service \<Rightarrow> bool"
  for pf suggested plan where
  silent: "next_phase suggested plan e (phases s (who e)) = Some p \<Longrightarrow> silent e (phases s (who e)) \<Longrightarrow>
    service_step pf suggested plan e s (Inr (enter (who e) p s))"
| answer: "phases s i = Some (Sending chunk) \<Longrightarrow> length chunk \<le> unat suggested \<Longrightarrow> kv_answer full (plan i) (smap s) = (st, msg, m) \<Longrightarrow>
    full \<longrightarrow> 8 \<le> card (dom (smap s)) \<Longrightarrow> 1 \<le> spare pf (length msg + 1) \<Longrightarrow>
    service_step pf suggested plan (Arrive i chunk) s
      (Inr (enter i (Some Replying) (s\<lparr>smap := m, replying := (replying s)(i := msg), answers := answers s @ [(i, msg)]\<rparr>)))"
| overrun: "phases s i = Some (Sending chunk) \<Longrightarrow> kv_answer full (plan i) (smap s) = (st, msg, m) \<Longrightarrow>
    full \<longrightarrow> 8 \<le> card (dom (smap s)) \<Longrightarrow> spare pf (length msg + 1) = 0 \<Longrightarrow>
    service_step pf suggested plan (Arrive i chunk) s (Inl BufferOverrun)"
| sends: "next_phase suggested plan (Written i status) (phases s i) = Some p \<Longrightarrow> 0 \<le> status \<Longrightarrow>
    service_step pf suggested plan (Written i status) s
      (Inr (enter i p (s\<lparr>replies_sent := replies_sent s @ [(i, replying s i @ [13])]\<rparr>)))"
| failed: "status < 0 \<Longrightarrow> service_step pf suggested plan (Written i status) s (Inl DanglingAccess)"
| unopened: "phases s i = Some Refused \<Longrightarrow> service_step pf suggested plan (Closed i) s (Inl BadHandle)"

definition idle_service :: "store_map \<Rightarrow> service" where
  "idle_service m = \<lparr>smap = m, phases = Map.empty, replying = (\<lambda>i. []), answers = [], replies_sent = []\<rparr>"

section \<open>Runs\<close>

primrec run_steps :: "('e \<Rightarrow> 's \<Rightarrow> fault + 's) \<Rightarrow> 'e list \<Rightarrow> 's \<Rightarrow> fault + 's" where
  "run_steps step [] s = Inr s"
| "run_steps step (e # es) s = bindE (step e s) (run_steps step es)"

primrec spec_run :: "('e \<Rightarrow> 'a \<Rightarrow> fault + 'a \<Rightarrow> bool) \<Rightarrow> 'e list \<Rightarrow> 'a \<Rightarrow> 'a \<Rightarrow> bool" where
  "spec_run spec [] a a' \<longleftrightarrow> a' = a"
| "spec_run spec (e # es) a a' \<longleftrightarrow> (\<exists>a1. spec e a (Inr a1) \<and> spec_run spec es a1 a')"

text \<open>
  A system whose steps are outcomes of a specification, for the events an environment delivers: it is described by
  moves of a part of the abstract state. A run comes to its end, or stops at the first event that faults.
\<close>

locale simulated =
  fixes step :: "'e \<Rightarrow> 's \<Rightarrow> fault + 's" and move :: "'e \<Rightarrow> 'g \<Rightarrow> 'g option" and stage :: "'a \<Rightarrow> 'g"
    and spec :: "'e \<Rightarrow> 'a \<Rightarrow> fault + 'a \<Rightarrow> bool" and rel :: "'s \<Rightarrow> 'a \<Rightarrow> bool"
  assumes simulates: "rel s a \<Longrightarrow> move e (stage a) = Some g \<Longrightarrow>
      (\<exists>s' a'. step e s = Inr s' \<and> spec e a (Inr a') \<and> rel s' a' \<and> stage a' = g) \<or>
      (\<exists>f. step e s = Inl f \<and> spec e a (Inl f))"
begin

lemma runs:
  assumes "rel s a" and "moves move es (stage a) = Some g"
  shows "case run_steps step es s of
      Inr s' \<Rightarrow> \<exists>a'. spec_run spec es a a' \<and> rel s' a' \<and> stage a' = g
    | Inl f \<Rightarrow> \<exists>pre e post s' a'. es = pre @ e # post \<and> run_steps step pre s = Inr s' \<and> step e s' = Inl f \<and>
        spec_run spec pre a a' \<and> rel s' a' \<and> spec e a' (Inl f)"
  using assms
proof (induction es arbitrary: s a)
  case (Cons e es)
  then obtain g1 where g1: "move e (stage a) = Some g1" "moves move es g1 = Some g" by (auto split: option.splits)
  from simulates [OF Cons.prems(1) g1(1)] consider
    (goes) s1 a1 where "step e s = Inr s1" "spec e a (Inr a1)" "rel s1 a1" "stage a1 = g1"
    | (stops) f where "step e s = Inl f" "spec e a (Inl f)" by blast
  then show ?case
  proof cases
    case (goes s1 a1)
    have IH: "case run_steps step es s1 of
        Inr s' \<Rightarrow> \<exists>a'. spec_run spec es a1 a' \<and> rel s' a' \<and> stage a' = g
      | Inl f \<Rightarrow> \<exists>pre e' post s' a'. es = pre @ e' # post \<and> run_steps step pre s1 = Inr s' \<and> step e' s' = Inl f \<and>
          spec_run spec pre a1 a' \<and> rel s' a' \<and> spec e' a' (Inl f)"
      by (rule Cons.IH [OF goes(3)]) (simp add: goes(4) g1(2))
    show ?thesis
    proof (cases "run_steps step es s1")
      case (Inl f)
      with IH obtain pre e' post s' a' where "es = pre @ e' # post" "run_steps step pre s1 = Inr s'" "step e' s' = Inl f"
        "spec_run spec pre a1 a'" "rel s' a'" "spec e' a' (Inl f)" by auto
      with Inl goes(1,2) show ?thesis
        by simp (intro exI [of _ "e # pre"] exI [of _ e'] exI [of _ post] exI [of _ s'], auto)
    qed (use IH goes in auto)
  next
    case (stops f)
    with Cons.prems(1) show ?thesis by simp (intro exI [of _ "[]"] exI [of _ e] exI [of _ es] exI [of _ s], auto)
  qed
qed simp

end

end
