(* ===== verification/Clients.thy ===== *)
theory Clients
  imports Event_Loop
begin

text \<open>
  The network of clients refines the service, event by event: what a client owns (its context, buffer,
  arguments, and the blocks of its writes) is its own, so an event of one client leaves the others where
  they are.
\<close>

section \<open>The refinement relation\<close>

text \<open>The blocks of a client: its own and those of its writes. No two clients share one.\<close>

definition blocks_with :: "client_context \<Rightarrow> write_req list \<Rightarrow> nat set" where
  "blocks_with c reqs = {a. Ptr a 0 \<in> set (client_blocks c)} \<union> (\<Union>req \<in> set reqs. reply_set req)"

definition mine :: "network \<Rightarrow> nat \<Rightarrow> nat set" where
  "mine n i = (case clients n i of None \<Rightarrow> {} | Some c \<Rightarrow> blocks_with c (writing n i))"

lemma mine_simps [simp]:
  "clients n i = None \<Longrightarrow> mine n i = {}"
  "clients n i = Some c \<Longrightarrow> mine n i = blocks_with c (writing n i)"
  by (simp_all add: mine_def)

lemma blocks_with_nil: "a \<in> blocks_with c [] \<longleftrightarrow> Ptr a 0 \<in> set (client_blocks c)"
  by (simp add: blocks_with_def)

text \<open>The blocks of the others: \<open>base\<close> are those that were there before the clients.\<close>

definition others :: "(nat \<Rightarrow> byte list option) \<Rightarrow> network \<Rightarrow> nat \<Rightarrow> nat set" where
  "others base n i = dom base \<union> (\<Union>j \<in> - {i}. mine n j)"

definition writes_reply :: "world \<Rightarrow> client_context \<Rightarrow> write_req list \<Rightarrow> byte list \<Rightarrow> bool" where
  "writes_reply w c reqs msg \<longleftrightarrow>
     (\<exists>req. reqs = [req] \<and> take (buf_len req) (block w (buf_base req)) = msg @ [13] \<and>
        live w (buf_base req) \<and> live w (req_ptr req) \<and> buf_base req \<noteq> req_ptr req \<and> apart (reply_set req) c)"

fun in_phase ::
    "request \<Rightarrow> world \<Rightarrow> server_context \<Rightarrow> hashtable \<Rightarrow> client_context \<Rightarrow> write_req list \<Rightarrow> byte list \<Rightarrow> phase \<Rightarrow> bool" where
  "in_phase r w sctx t c reqs msg (Sending future) \<longleftrightarrow>
     reqs = [] \<and> future \<noteq> [] \<and> receiving {} w sctx t c (words r) future"
| "in_phase r w sctx t c reqs msg Replying \<longleftrightarrow> writes_reply w c reqs msg"
| "in_phase r w sctx t c reqs msg Aborting \<longleftrightarrow> writes_reply w c reqs msg"
| "in_phase r w sctx t c reqs msg ph \<longleftrightarrow> reqs = []"

text \<open>The timer of a client was started, unless the connection was not accepted.\<close>

definition timed :: "client_context \<Rightarrow> phase \<Rightarrow> bool" where
  "timed c ph \<longleftrightarrow> (ph = Refused \<longleftrightarrow> Uv_timer_start \<notin> set (calls c))"

definition net_ok ::
    "(nat \<Rightarrow> byte list option) \<Rightarrow> (nat \<Rightarrow> request) \<Rightarrow> network \<Rightarrow> hashtable \<Rightarrow> (nat \<Rightarrow> phase option) \<Rightarrow> (nat \<Rightarrow> byte list) \<Rightarrow> bool" where
  "net_ok base plan n t g r \<longleftrightarrow>
     serving (memory n) (server n) t \<and> sys_fails (memory n) = [] \<and> base \<subseteq>\<^sub>m outside (memory n) t \<and>
     (\<forall>i. clients n i = None \<longleftrightarrow> g i = None) \<and> (\<forall>i. clients n i = None \<longrightarrow> writing n i = []) \<and>
     (\<forall>i c ph. clients n i = Some c \<longrightarrow> g i = Some ph \<longrightarrow> owns_blocks (memory n) c \<and>
        in_phase (plan i) (memory n) (server n) t c (writing n i) (r i) ph \<and> timed c ph) \<and>
     (\<forall>i. \<forall>a \<in> mine n i. outside (memory n) t a \<noteq> None \<and> a \<notin> others base n i)"

definition setting_ok :: "platform \<Rightarrow> size_t \<Rightarrow> (nat \<Rightarrow> request) \<Rightarrow> bool" where
  "setting_ok pf suggested plan \<longleftrightarrow> sizeof_client_context pf < 2 ^ 63 \<and> sizeof_write_req pf < 2 ^ 63 \<and>
     0 < unat suggested \<and> unat suggested < 2 ^ 30 \<and> (\<forall>i. request_ok (plan i) \<and> length (request_data (plan i)) \<le> 8192)"

text \<open>Values so short that the length of a reply is an \<open>unsigned int\<close>.\<close>

definition short_values :: "store_map \<Rightarrow> bool" where
  "short_values m \<longleftrightarrow> (\<forall>k d. m k = Some d \<longrightarrow> length d + 1 < 2 ^ 32)"

definition net_rel ::
    "(nat \<Rightarrow> byte list option) \<Rightarrow> platform \<Rightarrow> size_t \<Rightarrow> (nat \<Rightarrow> request) \<Rightarrow> network \<Rightarrow> service \<Rightarrow> bool" where
  "net_rel base pf suggested plan n s \<longleftrightarrow> setting_ok pf suggested plan \<and> (\<exists>t. net_ok base plan n t (phases s) (replying s)) \<and>
     view (memory n) (server n) = smap s \<and> short_values (smap s) \<and> sent n = replies_sent s"

lemma net_ok_simps:
  assumes "net_ok base plan n t g r"
  shows "serving (memory n) (server n) t" and "sys_fails (memory n) = []" and "world_ok (memory n)"
    and "db (memory n) t"
  using assms serving_simps(2) by (auto simp: net_ok_def db_ok_def)

lemma net_ok_client:
  assumes "net_ok base plan n t g r" and "g i = Some ph"
  obtains c where "clients n i = Some c" and "owns_blocks (memory n) c"
    and "in_phase (plan i) (memory n) (server n) t c (writing n i) (r i) ph" and "timed c ph"
  using assms unfolding net_ok_def by (metis not_Some_eq)

section \<open>What one client does leaves the others alone\<close>

lemma receiving_elsewhere:
  assumes rec: "receiving {} w sctx t c args future" and srv: "serving w' sctx' t'" and quiet: "sys_fails w' = []"
    and same: "\<And>a. Ptr a 0 \<in> set (client_blocks c) \<Longrightarrow> heap w' a = heap w a \<and> Ptr a 0 \<notin> footprint t'"
  shows "receiving {} w' sctx' t' c args future"
proof -
  have con: "connected w sctx t c" and ok: "words_ok args" and td: "tidy (foot t) w c"
    and ex: "expects w c args (pending w c @ future)" using rec by (simp_all add: receiving_def)
  note simps = connected_simps [OF con]
  have db': "db w' t'" using srv by (rule serving_simps(2))
  have own: "buffer c \<noteq> NULL \<Longrightarrow> buffer c \<in> set (client_blocks c)" by (simp add: client_blocks_def)
  have buf: "buffer_ok w' c \<and> pending w' c = pending w c \<and> buffer c \<notin> footprint t'"
  proof (cases "buffer c")
    case NULL
    then show ?thesis using simps(3) footprint_NULL [OF db'] by (simp add: buffer_ok_def pending_def block_def)
  next
    case (Ptr a off)
    moreover have "off = 0" using simps(3) Ptr by (simp add: buffer_ok_def)
    ultimately show ?thesis using simps(3) same [of a] own by (simp add: buffer_ok_def pending_def block_def)
  qed
  have con': "connected w' sctx' t' c" using srv quiet buf simps(6) by (simp add: connected_def)
  have "expects w' (c\<lparr>buffer := buffer c, buffer_capacity := buffer_capacity c, buffer_used := buffer_used c\<rparr>) args
      (pending w c @ future)"
    by (rule expects_others [OF ex ok tidy_own [OF td] _ refl]) (use same in blast)
  moreover have "live w' p" if p: "p \<in> set (client_blocks c)" for p
  proof -
    have "live w p" using p td by (simp add: tidy_def owns_blocks_def)
    with same p show ?thesis by (cases p) auto
  qed
  moreover have "a < fresh w'" if "a \<in> foot t'" for a
    using that footprint_live [OF db', of a] db' by (auto simp: foot_def db_ok_def world_ok_def)
  ultimately show ?thesis
    using con' ok td buf same by (auto simp: receiving_def tidy_def owns_blocks_def apart_def foot_def)
qed

lemma writes_elsewhere:
  assumes "writes_reply w c reqs msg" and same: "\<And>a. a \<in> blocks_with c reqs \<Longrightarrow> heap w' a = heap w a"
  shows "writes_reply w' c reqs msg"
proof -
  obtain req where req: "reqs = [req]" "take (buf_len req) (block w (buf_base req)) = msg @ [13]"
    "live w (buf_base req)" "live w (req_ptr req)" "buf_base req \<noteq> req_ptr req" "apart (reply_set req) c"
    using assms(1) by (auto simp: writes_reply_def)
  have "live w' p \<and> block w' p = block w p" if "live w p" "p = buf_base req \<or> p = req_ptr req" for p
    using that same req(1) by (cases p) (auto simp: blocks_with_def reply_set_def block_def)
  with req show ?thesis by (auto simp: writes_reply_def)
qed

lemma in_phase_elsewhere:
  assumes ph: "in_phase r w sctx t c reqs msg ph" and srv: "serving w' sctx' t'" and quiet: "sys_fails w' = []"
    and same: "\<And>a. a \<in> blocks_with c reqs \<Longrightarrow> heap w' a = heap w a \<and> Ptr a 0 \<notin> footprint t'"
  shows "in_phase r w' sctx' t' c reqs msg ph"
proof (cases ph)
  case (Sending future)
  moreover have "receiving {} w' sctx' t' c (words r) future"
    by (rule receiving_elsewhere [OF _ srv quiet]) (use ph Sending same in \<open>auto simp: blocks_with_def\<close>)
  ultimately show ?thesis using ph by simp
qed (use ph same in \<open>auto intro: writes_elsewhere\<close>)

lemma owns_elsewhere:
  assumes "owns_blocks w c" and "\<And>a. Ptr a 0 \<in> set (client_blocks c) \<Longrightarrow> heap w' a = heap w a"
  shows "owns_blocks w' c"
proof -
  have "live w' p" if "p \<in> set (client_blocks c)" for p
  proof -
    have "live w p" using that assms(1) by (simp add: owns_blocks_def)
    then obtain a where "p = Ptr a 0" "heap w a \<noteq> None" by (cases p) auto
    with that assms(2) show ?thesis by simp
  qed
  then show ?thesis using assms(1) by (simp add: owns_blocks_def)
qed

text \<open>A step of client \<open>i\<close> leaves the blocks of the other clients theirs.\<close>

lemma others_step:
  assumes "\<And>j. j \<noteq> i \<Longrightarrow> mine n' j = mine n j"
  shows "others base n' j \<subseteq> others base n j \<union> mine n' i" and "others base n' i = others base n i"
proof -
  show "others base n' i = others base n i" unfolding others_def by (simp add: assms)
  show "others base n' j \<subseteq> others base n j \<union> mine n' i"
  proof
    fix a assume "a \<in> others base n' j"
    then consider "base a \<noteq> None" | k where "k \<noteq> j" "a \<in> mine n' k" by (auto simp: others_def)
    then show "a \<in> others base n j \<union> mine n' i"
    proof cases
      case (2 k)
      then show ?thesis using assms [of k] by (cases "k = i") (auto simp: others_def)
    qed (auto simp: others_def)
  qed
qed

text \<open>Nor does it change what they are at.\<close>

lemma client_elsewhere:
  assumes net: "net_ok base plan n t g r" and c: "clients n j = Some c" "g j = Some ph"
    and srv: "serving w' sctx' t'" "sys_fails w' = []"
    and same: "\<And>a. a \<in> mine n j \<Longrightarrow> heap w' a = heap (memory n) a \<and> Ptr a 0 \<notin> footprint t'"
  shows "owns_blocks w' c" and "in_phase (plan j) w' sctx' t' c (writing n j) (r j) ph" and "timed c ph"
proof -
  have old: "owns_blocks (memory n) c" "in_phase (plan j) (memory n) (server n) t c (writing n j) (r j) ph" "timed c ph"
    using net c unfolding net_ok_def by blast+
  have m: "mine n j = blocks_with c (writing n j)" using c by (simp add: mine_def)
  show "timed c ph" by (rule old(3))
  show "in_phase (plan j) w' sctx' t' c (writing n j) (r j) ph"
    by (rule in_phase_elsewhere [OF old(2) srv]) (use same m in blast)
  show "owns_blocks w' c"
    by (rule owns_elsewhere [OF old(1)]) (use same m in \<open>auto simp: blocks_with_def\<close>)
qed

lemma net_step:
  assumes net: "net_ok base plan n t g r" and srv: "serving w' sctx' t'" "sys_fails w' = []"
    and frame: "\<And>a bs. outside (memory n) t a = Some bs \<Longrightarrow> a \<notin> mine n i \<Longrightarrow> outside w' t' a = Some bs"
    and new: "\<And>a. a \<in> mine n' i \<Longrightarrow> outside w' t' a \<noteq> None \<and> a \<notin> others base n i"
    and n': "server n' = sctx'" "memory n' = w'" "clients n' = (clients n)(i := co)" "writing n' = (writing n)(i := reqs)"
    and phase: "case co of None \<Rightarrow> p = None \<and> reqs = []
      | Some c \<Rightarrow> \<exists>ph. p = Some ph \<and> owns_blocks w' c \<and> in_phase (plan i) w' sctx' t' c reqs msg ph \<and> timed c ph"
    and r': "r' = r(i := msg)"
  shows "net_ok base plan n' t' (g(i := p)) r'"
proof -
  have sep: "a \<in> mine n j \<Longrightarrow> outside (memory n) t a \<noteq> None \<and> a \<notin> others base n j" for a j
    using net unfolding net_ok_def by blast
  have mj: "mine n' j = mine n j" if "j \<noteq> i" for j using that n' by (cases "clients n j") (simp_all add: mine_def)
  have disj: "a \<notin> mine n i" if "a \<in> mine n j" "j \<noteq> i" for a j
    using sep [OF that(1)] that(2) by (auto simp: others_def)
  have base: "base \<subseteq>\<^sub>m outside w' t'"
  proof (rule map_leI)
    fix a bs assume a: "base a = Some bs"
    have "base \<subseteq>\<^sub>m outside (memory n) t" using net by (simp add: net_ok_def)
    then have "outside (memory n) t a = Some bs" using a by (rule map_leD)
    moreover have "a \<notin> mine n i" using sep [of a i] a by (auto simp: others_def)
    ultimately show "outside w' t' a = Some bs" by (rule frame)
  qed
  have keep: "outside w' t' a = outside (memory n) t a \<and> outside w' t' a \<noteq> None" if "a \<in> mine n j" "j \<noteq> i" for a j
    using sep [OF that(1)] disj [OF that] frame by force
  have same: "heap w' a = heap (memory n) a \<and> Ptr a 0 \<notin> footprint t'" if "a \<in> mine n j" "j \<noteq> i" for a j
    using keep [OF that] sep [OF that(1)] by (auto simp: outside_def split: if_splits)
  note others = others_step [of i n' n base, OF mj]
  have "owns_blocks w' c \<and> in_phase (plan j) w' sctx' t' c (writing n' j) (r' j) ph \<and> timed c ph"
    if c: "clients n' j = Some c" "(g(i := p)) j = Some ph" for j c ph
  proof (cases "j = i")
    case True
    with c phase n' r' show ?thesis by auto
  next
    case False
    then have m: "clients n j = Some c" "g j = Some ph" "writing n' j = writing n j" using c n' by simp_all
    show ?thesis using client_elsewhere [OF net m(1,2) srv same [OF _ False]] m(3) r' False by simp
  qed
  moreover have "outside w' t' a \<noteq> None \<and> a \<notin> others base n' j" if a: "a \<in> mine n' j" for a j
  proof (cases "j = i")
    case True
    with a new others(2) show ?thesis by simp
  next
    case False
    then have a': "a \<in> mine n j" using a mj by simp
    have "a \<notin> mine n' i" using new [of a] a' False by (auto simp: others_def)
    with sep [OF a'] others(1) [of j] keep [OF a' False] show ?thesis by blast
  qed
  moreover have "clients n' j = None \<longleftrightarrow> (g(i := p)) j = None" "clients n' j = None \<longrightarrow> writing n' j = []" for j
    using net phase n' by (auto simp: net_ok_def split: option.splits)
  ultimately show ?thesis using srv base n' unfolding net_ok_def by simp
qed

section \<open>Each event\<close>

lemma receiving_parts:
  assumes "receiving X w sctx t c args future"
  shows "receiving {} w sctx t c args future" and "owns_blocks w c"
    and "Ptr a 0 \<in> set (client_blocks c) \<Longrightarrow> outside w t a \<noteq> None \<and> a \<notin> X"
  using assms by (auto simp: receiving_def tidy_def owns_blocks_def apart_def foot_def outside_def)

lemma receiving_among:
  assumes "receiving {} w sctx t c args future" and "\<And>a. a \<in> X \<Longrightarrow> a < fresh w \<and> Ptr a 0 \<notin> set (client_blocks c)"
  shows "receiving X w sctx t c args future"
  using assms by (auto simp: receiving_def tidy_def apart_def)

lemma others_live:
  assumes net: "net_ok base plan n t g r" and a: "a \<in> others base n i"
  shows "outside (memory n) t a \<noteq> None" and "a \<notin> mine n i" and "a < fresh (memory n)"
proof -
  have base: "base \<subseteq>\<^sub>m outside (memory n) t" using net by (simp add: net_ok_def)
  consider bs where "base a = Some bs" | j where "j \<noteq> i" "a \<in> mine n j" using a by (auto simp: others_def)
  then show out: "outside (memory n) t a \<noteq> None"
  proof cases
    case 1
    with map_leD [OF base] show ?thesis by simp
  next
    case 2
    with net show ?thesis unfolding net_ok_def by blast
  qed
  have "\<forall>a \<in> mine n i. a \<notin> others base n i" using net unfolding net_ok_def by blast
  with a show "a \<notin> mine n i" by blast
  show "a < fresh (memory n)"
    using out net_ok_simps(3) [OF net] by (auto simp: outside_def world_ok_def split: if_splits)
qed

text \<open>Blocks of one client disappear, or none.\<close>

lemma net_step_gone:
  assumes net: "net_ok base plan n t g r" and ps: "\<And>a. Ptr a 0 \<in> ps \<Longrightarrow> a \<in> mine n i"
    and n': "server n' = server n" "memory n' = w'" "heap w' = gone (heap (memory n)) ps" "fresh (memory n) \<le> fresh w'" "sys_fails w' = []"
      "clients n' = (clients n)(i := co)" "writing n' = (writing n)(i := reqs)"
    and left: "\<And>a. a \<in> mine n' i \<Longrightarrow> a \<in> mine n i \<and> Ptr a 0 \<notin> ps"
    and phase: "case co of None \<Rightarrow> p = None \<and> reqs = []
      | Some c \<Rightarrow> \<exists>ph. p = Some ph \<and> owns_blocks (memory n) c \<and>
          in_phase (plan i) (memory n) (server n) t c reqs (r i) ph \<and> timed c ph"
  shows "net_ok base plan n' t (g(i := p)) r \<and> view (memory n') (server n') = view (memory n) (server n)"
proof
  note simps = net_ok_simps [OF net]
  have own: "outside (memory n) t a \<noteq> None \<and> a \<notin> others base n i" if "a \<in> mine n i" for a using net that unfolding net_ok_def by blast
  have ok: "world_ok w'" using simps(3) n'(3,4) by (fastforce simp: world_ok_def gone_def split: if_splits)
  have keep: "heap w' a = heap (memory n) a" if "Ptr a 0 \<in> footprint t" for a
  proof -
    have "Ptr a 0 \<notin> ps" using own [of a] ps [of a] that by (auto simp: outside_def)
    then show ?thesis by (simp add: n'(3) gone_def)
  qed
  note srv = serving_outside [OF simps(1) ok keep]
  have same: "outside w' t a = outside (memory n) t a" if "Ptr a 0 \<notin> ps" for a using that n'(3) by (simp add: outside_def gone_def)
  have phase': "\<exists>ph. p = Some ph \<and> owns_blocks w' c \<and> in_phase (plan i) w' (server n) t c reqs (r i) ph \<and> timed c ph"
    if co: "co = Some c" for c
  proof -
    obtain ph where c: "p = Some ph" "owns_blocks (memory n) c" "in_phase (plan i) (memory n) (server n) t c reqs (r i) ph" "timed c ph"
      using phase co by auto
    have kept: "heap w' a = heap (memory n) a \<and> Ptr a 0 \<notin> footprint t" if "a \<in> blocks_with c reqs" for a
    proof -
      have "a \<in> mine n' i" using that n'(6,7) co by (simp add: mine_def)
      from left [OF this] own [of a] show ?thesis by (auto simp: n'(3) gone_def outside_def)
    qed
    have "owns_blocks w' c" by (rule owns_elsewhere [OF c(2)]) (use kept in \<open>auto simp: blocks_with_def\<close>)
    moreover have "in_phase (plan i) w' (server n) t c reqs (r i) ph"
      by (rule in_phase_elsewhere [OF c(3) srv(1) n'(5) kept])
    ultimately show ?thesis using c(1,4) by blast
  qed
  show "net_ok base plan n' t (g(i := p)) r"
  proof (rule net_step [where w' = w' and sctx' = "server n" and co = co and reqs = reqs and msg = "r i", OF net srv(1) n'(5)])
    show "outside w' t a = Some bs" if "outside (memory n) t a = Some bs" "a \<notin> mine n i" for a bs
      using that same ps by metis
    show "outside w' t a \<noteq> None \<and> a \<notin> others base n i" if "a \<in> mine n' i" for a
      using left [OF that] own same by auto
    show "case co of None \<Rightarrow> p = None \<and> reqs = []
      | Some c \<Rightarrow> \<exists>ph. p = Some ph \<and> owns_blocks w' c \<and> in_phase (plan i) w' (server n) t c reqs (r i) ph \<and> timed c ph"
      using phase phase' by (cases co) simp_all
  qed (use n' in auto)
  show "view (memory n') (server n') = view (memory n) (server n)"
    using srv(2) serving_simps(5) [OF srv(1)] serving_simps(5) [OF simps(1)] n'(1,2) by simp
qed

section \<open>New connections\<close>

lemma sim_connect:
  assumes net: "net_ok base plan n t g r" and g: "g i = None" and set: "setting_ok pf suggested plan" and status: "0 \<le> status"
  obtains n' where "handle pf suggested (Connect i status True) n = Inr n'"
    and "net_ok base plan n' t (g(i \<mapsto> Sending (encode (words (plan i))))) r"
    and "view (memory n') (server n') = view (memory n) (server n)" and "sent n' = sent n"
proof -
  note simps = net_ok_simps [OF net]
  have none: "clients n i = None" "writing n i = []" using net g by (simp_all add: net_ok_def)
  have size: "sizeof_client_context pf < 2 ^ 63" and ok: "words_ok (words (plan i))"
    using set request_words_ok by (simp_all add: setting_ok_def)
  have X: "\<forall>a \<in> others base n i. a < fresh (memory n)" using others_live(3) [OF net] by blast
  from simps(1,2) size X show thesis
  proof (cases rule: new_connection_ok [where args = "words (plan i)"])
    case (opened c w1)
    let ?n = "n\<lparr>clients := (clients n)(i \<mapsto> c), memory := w1\<rparr>"
    have rec: "receiving (others base n i) w1 (server n) t c (words (plan i)) (encode (words (plan i)))" using opened(3) ok by simp
    note parts = receiving_parts [OF rec]
    have "net_ok base plan ?n t (g(i \<mapsto> Sending (encode (words (plan i))))) r"
    proof (rule net_step [where w' = w1 and sctx' = "server n" and co = "Some c" and reqs = "[]" and msg = "r i", OF net])
      show "serving w1 (server n) t" "sys_fails w1 = []" using connected_simps [OF opened(5)] by simp_all
      show "outside w1 t a = Some bs" if "outside (memory n) t a = Some bs" for a bs
        using that opened(10) by (auto simp: outside_def split: if_splits)
      show "outside w1 t a \<noteq> None \<and> a \<notin> others base n i" if "a \<in> mine ?n i" for a
        using that none parts(3) by (simp add: mine_def blocks_with_def)
      have "encode (words (plan i)) \<noteq> []" by (simp add: encode_def header_def)
      with parts opened(4) show "case Some c of None \<Rightarrow> Some (Sending (encode (words (plan i)))) = None \<and> [] = []
        | Some c \<Rightarrow> \<exists>ph. Some (Sending (encode (words (plan i)))) = Some ph \<and> owns_blocks w1 c \<and>
            in_phase (plan i) w1 (server n) t c [] (r i) ph \<and> timed c ph" by (simp add: timed_def)
    qed (use none in auto)
    moreover have "on_new_connection pf status True (memory n) = (Some c, w1)"
      using opened(1) status by (simp add: on_new_connection_def)
    then have "handle pf suggested (Connect i status True) n = Inr ?n" using none by (simp add: handle_def)
    ultimately show thesis using opened(2) by (intro that [of ?n]) simp_all
  qed
qed

text \<open>A connection that libuv does not accept: its context is allocated and its handle closed.\<close>

lemma sim_refuse:
  assumes net: "net_ok base plan n t g r" and g: "g i = None" and set: "setting_ok pf suggested plan" and status: "0 \<le> status"
  obtains n' where "handle pf suggested (Connect i status False) n = Inr n'" and "net_ok base plan n' t (g(i \<mapsto> Refused)) r"
    and "view (memory n') (server n') = view (memory n) (server n)" and "sent n' = sent n"
proof -
  note simps = net_ok_simps [OF net]
  have none: "clients n i = None" "writing n i = []" using net g by (simp_all add: net_ok_def)
  let ?f = "fresh (memory n)"
  let ?c = "uv_call Uv_close_client (zero_context (Ptr ?f 0))"
  let ?w = "(memory n)\<lparr>heap := (heap (memory n))(?f \<mapsto> []), fresh := Suc ?f\<rparr>"
  let ?n = "n\<lparr>clients := (clients n)(i \<mapsto> ?c), memory := ?w\<rparr>"
  have "on_new_connection pf status False (memory n) = (Some ?c, ?w)"
    using simps(2) set status by (simp add: on_new_connection_def heap_simps setting_ok_def)
  then have run: "handle pf suggested (Connect i status False) n = Inr ?n" using none by (simp add: handle_def)
  have new: "Ptr ?f 0 \<notin> footprint t" "outside (memory n) t ?f = None"
    using fresh_footprint [OF simps(4)] world_ok_fresh [OF simps(3)] by (auto simp: outside_def)
  have ok: "world_ok ?w" using simps(3) by (auto simp: world_ok_def less_Suc_eq)
  have keep: "heap ?w a = heap (memory n) a" if "Ptr a 0 \<in> footprint t" for a using that new(1) by auto
  note srv = serving_outside [OF simps(1) ok keep]
  have blocks: "client_blocks ?c = [Ptr ?f 0]"
    by (simp add: client_blocks_def arguments_def uv_call_def zero_context_def)
  have mine: "mine ?n i = {?f}" using none blocks by (auto simp: mine_def blocks_with_def)
  have "net_ok base plan ?n t (g(i \<mapsto> Refused)) r"
  proof (rule net_step [where w' = ?w and sctx' = "server n" and co = "Some ?c" and reqs = "[]" and msg = "r i", OF net])
    show "serving ?w (server n) t" "sys_fails ?w = []" using srv(1) simps(2) by simp_all
    show "outside ?w t a = Some bs" if "outside (memory n) t a = Some bs" for a bs
      using that new(2) by (auto simp: outside_def split: if_splits)
    show "outside ?w t a \<noteq> None \<and> a \<notin> others base n i" if "a \<in> mine ?n i" for a
    proof -
      have a: "a = ?f" using that mine by simp
      have "?f \<notin> others base n i" using others_live(3) [OF net, of ?f i] by blast
      with a new(1) show ?thesis by (simp add: outside_def)
    qed
    have "owns_blocks ?w ?c" by (simp add: owns_blocks_def blocks) (simp add: uv_call_def zero_context_def)
    moreover have "timed ?c Refused" by (simp add: timed_def uv_call_def zero_context_def)
    ultimately show "case Some ?c of None \<Rightarrow> Some Refused = None \<and> [] = []
      | Some c \<Rightarrow> \<exists>ph. Some Refused = Some ph \<and> owns_blocks ?w c \<and> in_phase (plan i) ?w (server n) t c [] (r i) ph \<and> timed c ph"
      by simp
  qed (use none in auto)
  moreover have "view ?w (server n) = view (memory n) (server n)"
    using srv serving_simps(5) [OF srv(1)] serving_simps(5) [OF simps(1)] by simp
  ultimately show thesis using run by (intro that [of ?n]) simp_all
qed

section \<open>Reads\<close>

text \<open>A client that receives gets more bytes.\<close>

lemma others_apart:
  assumes "net_ok base plan n t g r" and "clients n i = Some c" and "a \<in> others base n i"
  shows "a < fresh (memory n) \<and> Ptr a 0 \<notin> set (client_blocks c)"
  using others_live(2,3) [OF assms(1,3)] assms(2) by (auto simp: mine_def blocks_with_def)

lemma sim_arrive_more:
  assumes net: "net_ok base plan n t g r" and g: "g i = Some (Sending (chunk @ future))" and set: "setting_ok pf suggested plan"
    and chunk: "chunk \<noteq> []" "length chunk \<le> unat suggested" and more: "future \<noteq> []"
  obtains n' where "handle pf suggested (Arrive i chunk) n = Inr n'" and "net_ok base plan n' t (g(i \<mapsto> Sending future)) r"
    and "view (memory n') (server n') = view (memory n) (server n)" and "sent n' = sent n"
proof -
  obtain c where c: "clients n i = Some c" "writing n i = []"
    "receiving {} (memory n) (server n) t c (words (plan i)) (chunk @ future)"
    using net_ok_client [OF net g] by auto
  have rec: "receiving (others base n i) (memory n) (server n) t c (words (plan i)) (chunk @ future)"
    by (rule receiving_among [OF c(3) others_apart [OF net c(1)]])
  have "unat suggested < 2 ^ 62" using set by (simp add: setting_ok_def)
  with rec chunk show thesis
  proof (cases rule: read_event_cases [where pf = pf])
    case (more c' w')
    let ?n = "n\<lparr>server := server n, clients := (clients n)(i \<mapsto> c'), memory := w', writing := (writing n)(i := [])\<rparr>"
    note parts = receiving_parts [OF more(3)]
    have con: "connected w' (server n) t c'" using more(3) by (simp add: receiving_def)
    have "net_ok base plan ?n t (g(i \<mapsto> Sending future)) r"
    proof (rule net_step [where w' = w' and sctx' = "server n" and co = "Some c'" and reqs = "[]" and msg = "r i", OF net])
      show "serving w' (server n) t" "sys_fails w' = []" using connected_simps [OF con] by simp_all
      show "outside w' t a = Some bs" if "outside (memory n) t a = Some bs" "a \<notin> mine n i" for a bs
        using that more(6) [of a] c(1) by (auto simp: outside_def mine_def blocks_with_def client_blocks_def split: if_splits)
      show "outside w' t a \<noteq> None \<and> a \<notin> others base n i" if "a \<in> mine ?n i" for a
        using that parts(3) by (simp add: mine_def blocks_with_def)
      show "case Some c' of None \<Rightarrow> Some (Sending future) = None \<and> [] = []
        | Some c \<Rightarrow> \<exists>ph. Some (Sending future) = Some ph \<and> owns_blocks w' c \<and>
            in_phase (plan i) w' (server n) t c [] (r i) ph \<and> timed c ph"
        using parts(1,2) assms(6) more(5) by (simp add: timed_def)
    qed auto
    moreover have "handle pf suggested (Arrive i chunk) n = Inr ?n"
      using c more(1,5) by (simp add: handle_def handle_read_def)
    ultimately show thesis using more(4) by (intro that [of ?n]) simp_all
  next
    case (last c1 w1 b ds)
    with more show thesis by simp
  qed
qed

lemma kv_answer_short:
  assumes "short_values m" and "kv_answer full r m = (st, msg, m')" and "length (request_data r) \<le> 8192"
  shows "length msg + 1 < 2 ^ 32" and "short_values m'"
proof -
  have "length msg + 1 < 2 ^ 32 \<and> short_values m'"
    using assms by (cases r) (auto simp: short_values_def lit_bytes_def TCP_SUCCESS_def TCP_OPERATION_FAILED_def TCP_KEY_NOT_FOUND_def
        TCP_INTERNAL_ERROR_def TCP_TRUE_def TCP_FALSE_def split: option.split_asm if_split_asm)
  then show "length msg + 1 < 2 ^ 32" "short_values m'" by simp_all
qed

text \<open>The last bytes of a request: it is answered as the map says, or the reply overruns its block.\<close>

lemma sim_arrive_last:
  assumes net: "net_ok base plan n t g r" and g: "g i = Some (Sending chunk)" and set: "setting_ok pf suggested plan"
    and chunk: "length chunk \<le> unat suggested" and short: "short_values (view (memory n) (server n))"
    and spec: "kv_answer (request_full (server n) (plan i)) (plan i) (view (memory n) (server n)) = (st, msg, m)"
  obtains (answered) n' t' where "1 \<le> spare pf (Suc (length msg))" and "handle pf suggested (Arrive i chunk) n = Inr n'"
      and "net_ok base plan n' t' (g(i \<mapsto> Replying)) (r(i := msg))" and "view (memory n') (server n') = m" and "sent n' = sent n"
  | (overrun) "spare pf (Suc (length msg)) = 0" and "handle pf suggested (Arrive i chunk) n = Inl BufferOverrun"
proof -
  note simps = net_ok_simps [OF net]
  have ok: "request_ok (plan i)" "words_ok (words (plan i))"
    using set request_words_ok by (simp_all add: setting_ok_def)
  have len: "length msg + 1 < 2 ^ 32"
    using kv_answer_short(1) [OF short spec] set by (simp add: setting_ok_def)
  obtain c where c: "clients n i = Some c" "writing n i = []" "chunk \<noteq> []"
    "receiving {} (memory n) (server n) t c (words (plan i)) (chunk @ [])"
    using net_ok_client [OF net g] by auto
  have rec: "receiving (others base n i) (memory n) (server n) t c (words (plan i)) (chunk @ [])"
    by (rule receiving_among [OF c(4) others_apart [OF net c(1)]])
  have "unat suggested < 2 ^ 62" using set by (simp add: setting_ok_def)
  with rec c(3) chunk show thesis
  proof (cases rule: read_event_cases [where pf = pf])
    case L: (last c1 w1 b ds)
    have spec': "kv_answer (request_full (server n) (plan i)) (plan i) (view w1 (server n)) = (st, msg, m)" using spec L(5) by simp
    show thesis
    proof (cases "1 \<le> spare pf (Suc (length msg))")
      case False
      then have none: "spare pf (Suc (length msg)) = 0" by simp
      with runs_overruns [OF L(4,3) ok(1) spec' len] have "parse_buffer pf (server n) c1 w1 = Inl BufferOverrun" by blast
      with c(1) L(2) none show thesis by (intro overrun) (simp_all add: handle_def handle_read_def released_def)
    next
      case room: True
      then have snd: "sendable pf (length msg)" using len set by (simp add: sendable_def setting_ok_def)
      from released_done [OF runs_answered [OF L(4,3) ok spec' snd] L(7,8)]
      obtain sctx' t' c' w' req where D: "released b (parse_buffer pf (server n) c1 w1) = Inr (sctx', c', w')"
        "connected w' sctx' t' c'" "view w' sctx' = m" "calls c' = calls c1 @ [Uv_write req]"
        "reply_blocks w1 t w' t' msg req" "owns_blocks w' c'" "apart (foot t' \<union> others base n i \<union> reply_set req) c'"
        "\<forall>a bs. outside w1 t a = Some bs \<longrightarrow> buffer c1 \<noteq> Ptr a 0 \<longrightarrow> a \<noteq> b \<longrightarrow> outside w' t' a = Some bs"
        unfolding done_with_def by blast
      let ?n = "n\<lparr>server := sctx', clients := (clients n)(i \<mapsto> c'), memory := w', writing := (writing n)(i := [req])\<rparr>"
      have frame1: "outside w1 t a = Some bs \<and> buffer c1 \<noteq> Ptr a 0 \<and> a \<noteq> b" if "outside (memory n) t a = Some bs" "a \<notin> mine n i" for a bs
        using that L(9) [of a] c(1) by (auto simp: outside_def mine_def blocks_with_def client_blocks_def split: if_splits)
      have ready: "take (buf_len req) (block w' (buf_base req)) = msg @ [13]"
        using reply_blocks_text [OF D(5)] by simp
      have "net_ok base plan ?n t' (g(i \<mapsto> Replying)) (r(i := msg))"
      proof (rule net_step [where w' = w' and sctx' = sctx' and co = "Some c'" and reqs = "[req]" and msg = msg, OF net])
        show "serving w' sctx' t'" "sys_fails w' = []" using connected_simps [OF D(2)] by simp_all
        show "outside w' t' a = Some bs" if "outside (memory n) t a = Some bs" "a \<notin> mine n i" for a bs
          using frame1 [OF that] D(8) by blast
        show "outside w' t' a \<noteq> None \<and> a \<notin> others base n i" if a: "a \<in> mine ?n i" for a
        proof (cases "a \<in> reply_set req")
          case True
          then have "outside w' t' a \<noteq> None" "outside w1 t a = None" using D(5) by (auto simp: reply_blocks_def reply_set_def)
          moreover from this(2) have "a \<notin> others base n i" using others_live(1,2) [OF net, of a i] frame1 by fastforce
          ultimately show ?thesis by blast
        next
          case False
          with a have "Ptr a 0 \<in> set (client_blocks c')" by (simp add: mine_def blocks_with_def)
          with D(6,7) show ?thesis by (auto simp: owns_blocks_def apart_def foot_def outside_def)
        qed
        show "case Some c' of None \<Rightarrow> Some Replying = None \<and> [req] = []
          | Some c \<Rightarrow> \<exists>ph. Some Replying = Some ph \<and> owns_blocks w' c \<and>
              in_phase (plan i) w' sctx' t' c [req] msg ph \<and> timed c ph"
          using D(4-7) L(6) ready
          by (auto simp: writes_reply_def timed_def reply_blocks_def outside_def apart_def split: if_splits)
      qed auto
      moreover have "handle pf suggested (Arrive i chunk) n = Inr ?n"
        using c L(2,6) D(1,4) by (simp add: handle_def handle_read_def)
      ultimately show thesis using D(3) room by (intro answered [of ?n t']) simp_all
    qed
  qed simp
qed

text \<open>A read that finds nothing.\<close>

lemma empty_buffer:
  assumes quiet: "sys_fails w = []" and ok: "world_ok w" and size: "0 < unat suggested" "unat suggested < 2 ^ 63"
  obtains w1 where "alloc_buffer suggested w = ((Ptr (fresh w) 0, suggested), w1)" and "store (Ptr (fresh w) 0) [] w1 = Inr w1"
    and "free (Ptr (fresh w) 0) w1 = Inr (w1\<lparr>heap := heap w\<rparr>)" and "fresh w1 = Suc (fresh w)" and "sys_fails w1 = []"
proof -
  let ?w1 = "w\<lparr>heap := (heap w)(fresh w \<mapsto> raw w (unat suggested)), fresh := Suc (fresh w)\<rparr>"
  have "alloc_buffer suggested w = ((Ptr (fresh w) 0, suggested), ?w1)"
    using malloc_no_fails [OF quiet, of suggested] size by (simp add: alloc_buffer_def)
  moreover have "(heap w)(fresh w := None) = heap w" using world_ok_fresh [OF ok] by (simp add: fun_upd_idem)
  ultimately show thesis using quiet by (intro that [of ?w1]) (simp_all add: store_def free_def)
qed

lemma quiet_event:
  assumes quiet: "sys_fails w = []" and ok: "world_ok w" and size: "0 < unat suggested" "unat suggested < 2 ^ 63"
  obtains w' where "read_event pf suggested [] (sctx, c, w) = Inr (sctx, c, w')" and "heap w' = heap w"
    and "fresh w' = Suc (fresh w)" and "sys_fails w' = []"
  using assms
proof (cases rule: empty_buffer)
  case (1 w1)
  have "suggested \<noteq> 0" using size(1) by auto
  with 1 show thesis by (intro that [of "w1\<lparr>heap := heap w\<rparr>"]) (simp_all add: read_event_def on_read_def)
qed

lemma end_event_ok:
  assumes quiet: "sys_fails w = []" and ok: "world_ok w" and size: "0 < unat suggested" "unat suggested < 2 ^ 63"
    and nread: "sint nread < 0"
  obtains w' where "end_event pf suggested nread (sctx, c, w) = Inr (sctx, uv_call Uv_close_client (uv_call Uv_timer_stop c), w')"
    and "heap w' = heap w" and "fresh w' = Suc (fresh w)" and "sys_fails w' = []"
  using assms(1-4)
proof (cases rule: empty_buffer)
  case (1 w1)
  have "suggested \<noteq> 0" using size(1) by auto
  with 1 nread show thesis by (intro that [of "w1\<lparr>heap := heap w\<rparr>"]) (simp_all add: end_event_def on_read_def)
qed

section \<open>Events that move no block\<close>

lemma owns_calls [simp]: "owns_blocks w (c\<lparr>calls := us\<rparr>) = owns_blocks w c"
  by (simp add: owns_blocks_def)

lemma writes_calls [simp]: "writes_reply w (c\<lparr>calls := us\<rparr>) reqs msg = writes_reply w c reqs msg"
  by (simp add: writes_reply_def apart_def)

lemma net_stays:
  assumes net: "net_ok base plan n t g r" and c: "clients n i = Some c"
    and n': "server n' = server n" "heap (memory n') = heap (memory n)" "fresh (memory n) \<le> fresh (memory n')" "sys_fails (memory n') = []"
      "clients n' = (clients n)(i \<mapsto> c')" "writing n' = (writing n)(i := writing n i)" "client_blocks c' = client_blocks c"
    and phase: "owns_blocks (memory n) c'" "in_phase (plan i) (memory n) (server n) t c' (writing n i) (r i) ph" "timed c' ph"
  shows "net_ok base plan n' t (g(i \<mapsto> ph)) r \<and> view (memory n') (server n') = view (memory n) (server n)"
proof (rule net_step_gone [where ps = "{}" and co = "Some c'" and reqs = "writing n i" and w' = "memory n'", OF net])
  show "a \<in> mine n i \<and> Ptr a 0 \<notin> {}" if "a \<in> mine n' i" for a
    using that c n'(5-7) by (simp add: blocks_with_def)
qed (use n' phase in simp_all)

lemma sim_idle:
  assumes net: "net_ok base plan n t g r" and g: "g i = Some ph" and set: "setting_ok pf suggested plan"
  obtains n' where "handle pf suggested (Arrive i []) n = Inr n'" and "net_ok base plan n' t (g(i \<mapsto> ph)) r"
    and "view (memory n') (server n') = view (memory n) (server n)" and "sent n' = sent n"
  using net g
proof (cases rule: net_ok_client)
  case c: (1 c)
  have size: "0 < unat suggested" "unat suggested < 2 ^ 63" using set by (simp_all add: setting_ok_def)
  from net_ok_simps(2,3) [OF net] size show thesis
  proof (cases rule: quiet_event [where pf = pf and sctx = "server n" and c = c])
    case (1 w')
    let ?n = "n\<lparr>server := server n, clients := (clients n)(i \<mapsto> c), memory := w', writing := (writing n)(i := writing n i)\<rparr>"
    have "handle pf suggested (Arrive i []) n = Inr ?n" using c(1) 1(1) by (simp add: handle_def handle_read_def)
    moreover have "net_ok base plan ?n t (g(i \<mapsto> ph)) r \<and> view (memory ?n) (server ?n) = view (memory n) (server n)"
      by (rule net_stays [OF net c(1)]) (use 1 c in simp_all)
    ultimately show thesis by (intro that [of ?n]) simp_all
  qed
qed

text \<open>A client leaves or times out.\<close>

fun left :: "phase \<Rightarrow> phase" where
  "left Replying = Aborting"
| "left ph = Closing"

definition may_leave :: "phase \<Rightarrow> bool" where
  "may_leave ph \<longleftrightarrow> ph = Served \<or> ph = Replying \<or> (\<exists>future. ph = Sending future)"

lemma in_phase_left:
  assumes "in_phase q w sctx t c reqs msg ph" and "may_leave ph" and "timed c ph"
  shows "in_phase q w sctx t (c\<lparr>calls := calls c @ us\<rparr>) reqs msg (left ph)" and "timed (c\<lparr>calls := calls c @ us\<rparr>) (left ph)"
  using assms by (auto simp: may_leave_def timed_def)

lemma sim_end:
  assumes net: "net_ok base plan n t g r" and g: "g i = Some ph" "may_leave ph" and set: "setting_ok pf suggested plan"
    and nread: "sint nread < 0"
  obtains n' where "handle pf suggested (End i nread) n = Inr n'" and "net_ok base plan n' t (g(i \<mapsto> left ph)) r"
    and "view (memory n') (server n') = view (memory n) (server n)" and "sent n' = sent n"
  using net g(1)
proof (cases rule: net_ok_client)
  case c: (1 c)
  have size: "0 < unat suggested" "unat suggested < 2 ^ 63" using set by (simp_all add: setting_ok_def)
  from net_ok_simps(2,3) [OF net] size nread show thesis
  proof (cases rule: end_event_ok [where pf = pf and sctx = "server n" and c = c])
    case (1 w')
    let ?c = "uv_call Uv_close_client (uv_call Uv_timer_stop c)"
    let ?n = "n\<lparr>server := server n, clients := (clients n)(i \<mapsto> ?c), memory := w', writing := (writing n)(i := writing n i)\<rparr>"
    have "handle pf suggested (End i nread) n = Inr ?n"
      using c(1) 1(1) by (simp add: handle_def handle_read_def uv_call_def)
    moreover have "net_ok base plan ?n t (g(i \<mapsto> left ph)) r \<and> view (memory ?n) (server ?n) = view (memory n) (server n)"
      by (rule net_stays [where c' = ?c, OF net c(1)])
        (use 1 c(2) in_phase_left [OF c(3) g(2) c(4)] in \<open>simp_all add: uv_call_def\<close>)
    ultimately show thesis by (intro that [of ?n]) simp_all
  qed
qed

lemma sim_expire:
  assumes net: "net_ok base plan n t g r" and g: "g i = Some ph" "may_leave ph"
  obtains n' where "handle pf suggested (Expire i) n = Inr n'" and "net_ok base plan n' t (g(i \<mapsto> left ph)) r"
    and "view (memory n') (server n') = view (memory n) (server n)" and "sent n' = sent n"
  using net g(1)
proof (cases rule: net_ok_client)
  case c: (1 c)
  let ?n = "n\<lparr>clients := (clients n)(i \<mapsto> on_client_timeout c)\<rparr>"
  have "handle pf suggested (Expire i) n = Inr ?n" using c(1) by (simp add: handle_def)
  moreover have "net_ok base plan ?n t (g(i \<mapsto> left ph)) r \<and> view (memory ?n) (server ?n) = view (memory n) (server n)"
    by (rule net_stays [where c' = "on_client_timeout c", OF net c(1)])
      (use c(2) net_ok_simps(2) [OF net] in_phase_left [OF c(3) g(2) c(4)] in \<open>simp_all add: on_client_timeout_def uv_call_def\<close>)
  ultimately show thesis by (intro that [of ?n]) simp_all
qed

section \<open>Writes and closed handles\<close>

lemma sim_written:
  assumes net: "net_ok base plan n t g r"
    and g: "g i = Some Replying \<and> ph = Served \<or> g i = Some Aborting \<and> ph = Closing"
  obtains (failed) "status < 0" and "handle pf suggested (Written i status) n = Inl DanglingAccess"
  | (wrote) n' where "0 \<le> status" and "handle pf suggested (Written i status) n = Inr n'" and "net_ok base plan n' t (g(i \<mapsto> ph)) r"
    and "view (memory n') (server n') = view (memory n) (server n)" and "sent n' = sent n @ [(i, r i @ [13])]"
proof -
  obtain ph0 where ph0: "g i = Some ph0" "ph0 = Replying \<and> ph = Served \<or> ph0 = Aborting \<and> ph = Closing" using g by blast
  obtain c where old: "clients n i = Some c" "owns_blocks (memory n) c"
    "in_phase (plan i) (memory n) (server n) t c (writing n i) (r i) ph0" "timed c ph0"
    by (rule net_ok_client [OF net ph0(1)])
  have c: "clients n i = Some c" "owns_blocks (memory n) c" "writes_reply (memory n) c (writing n i) (r i)" "timed c ph"
    using old ph0(2) by (auto simp: timed_def)
  then obtain req where req: "writing n i = [req]" "take (buf_len req) (block (memory n) (buf_base req)) = r i @ [13]"
    "live (memory n) (buf_base req)" "live (memory n) (req_ptr req)" "buf_base req \<noteq> req_ptr req"
    "apart (reply_set req) c" by (auto simp: writes_reply_def)
  let ?ps = "{buf_base req, req_ptr req}"
  let ?w = "(memory n)\<lparr>heap := gone (heap (memory n)) ?ps\<rparr>"
  let ?n = "n\<lparr>memory := ?w, writing := (writing n)(i := []), sent := sent n @ [(i, r i @ [13])]\<rparr>"
  show thesis
  proof (cases "status < 0")
    case True
    then show thesis
      using c(1) req(1) complete_write [OF req(3-5), of status] by (intro failed) (simp_all add: handle_def)
  next
    case False
    have run: "handle pf suggested (Written i status) n = Inr ?n"
      using c(1) req(1,2) complete_write [OF req(3-5), of status] False by (simp add: handle_def)
    have mine: "mine n i = {a. Ptr a 0 \<in> set (client_blocks c)} \<union> reply_set req" "mine ?n i = blocks_with c []"
      using c(1) req(1) by (simp_all add: blocks_with_def)
    have "net_ok base plan ?n t (g(i := Some ph)) r \<and> view (memory ?n) (server ?n) = view (memory n) (server n)"
    proof (rule net_step_gone [where ps = ?ps and co = "Some c" and reqs = "[]" and w' = ?w, OF net])
      show "a \<in> mine n i" if "Ptr a 0 \<in> ?ps" for a using that by (auto simp: mine reply_set_def)
      show "a \<in> mine n i \<and> Ptr a 0 \<notin> ?ps" if "a \<in> mine ?n i" for a
        using that req(6) unfolding mine by (auto simp: blocks_with_nil apart_def reply_set_def)
      show "case Some c of None \<Rightarrow> Some ph = None \<and> [] = []
        | Some c \<Rightarrow> \<exists>ph'. Some ph = Some ph' \<and> owns_blocks (memory n) c \<and>
            in_phase (plan i) (memory n) (server n) t c [] (r i) ph' \<and> timed c ph'"
        using c(2,4) ph0(2) by auto
    qed (use c(1) net_ok_simps(2) [OF net] in \<open>simp_all add: fun_upd_idem\<close>)
    with run False show thesis by (intro wrote [of ?n]) simp_all
  qed
qed

lemma sim_closed:
  assumes net: "net_ok base plan n t g r" and g: "g i = Some Closing"
  obtains n' where "handle pf suggested (Closed i) n = Inr n'" and "net_ok base plan n' t (g(i := None)) r"
    and "view (memory n') (server n') = view (memory n) (server n)" and "sent n' = sent n"
  using net g
proof (cases rule: net_ok_client)
  case c: (1 c)
  let ?ps = "set (client_blocks c)"
  let ?w = "(memory n)\<lparr>heap := gone (heap (memory n)) ?ps\<rparr>"
  let ?n = "n\<lparr>clients := (clients n)(i := None), memory := ?w\<rparr>"
  have idle: "writing n i = []" and started: "Uv_timer_start \<in> set (calls c)" using c(3,4) by (simp_all add: timed_def)
  have "handle pf suggested (Closed i) n = Inr ?n"
    using c(1) release_client [OF c(2), of False] started by (auto simp: handle_def)
  moreover have "net_ok base plan ?n t (g(i := None)) r \<and> view (memory ?n) (server ?n) = view (memory n) (server n)"
  proof (rule net_step_gone [where ps = ?ps and co = None and reqs = "[]" and w' = ?w, OF net])
    show "a \<in> mine n i" if "Ptr a 0 \<in> ?ps" for a using that c(1) idle by (simp add: blocks_with_nil)
    show "a \<in> mine n i \<and> Ptr a 0 \<notin> ?ps" if "a \<in> mine ?n i" for a using that by simp
  qed (use idle net_ok_simps(2) [OF net] in \<open>simp_all add: fun_upd_idem\<close>)
  ultimately show thesis by (intro that [of ?n]) simp_all
qed

lemma sim_unopened:
  assumes net: "net_ok base plan n t g r" and g: "g i = Some Refused"
  shows "handle pf suggested (Closed i) n = Inl BadHandle" and "\<exists>c. clients n i = Some c \<and> Uv_timer_start \<notin> set (calls c)"
proof -
  obtain c where "clients n i = Some c" "timed c Refused" by (rule net_ok_client [OF net g])
  then show "handle pf suggested (Closed i) n = Inl BadHandle" "\<exists>c. clients n i = Some c \<and> Uv_timer_start \<notin> set (calls c)"
    by (auto simp: handle_def on_client_close_def timed_def)
qed

section \<open>The simulation\<close>

text \<open>What is to be shown of an event: the network does something the specification lists.\<close>

definition follows ::
    "(nat \<Rightarrow> byte list option) \<Rightarrow> platform \<Rightarrow> size_t \<Rightarrow> (nat \<Rightarrow> request) \<Rightarrow> event \<Rightarrow> service \<Rightarrow> (nat \<Rightarrow> phase option) \<Rightarrow>
     fault + network \<Rightarrow> bool" where
  "follows base pf suggested plan e s g result \<longleftrightarrow>
     (\<exists>n' s'. result = Inr n' \<and> service_step pf suggested plan e s (Inr s') \<and> net_rel base pf suggested plan n' s' \<and> phases s' = g) \<or>
     (\<exists>f. result = Inl f \<and> service_step pf suggested plan e s (Inl f))"

lemma enter_simps [simp]:
  "phases (enter i p s) = (phases s)(i := p)" "smap (enter i p s) = smap s" "replies_sent (enter i p s) = replies_sent s"
  "replying (enter i p s) = replying s" "answers (enter i p s) = answers s"
  by (simp_all add: enter_def)

lemma follows_silent:
  assumes rel: "net_rel base pf suggested plan n s"
    and run: "result = Inr n'" "net_ok base plan n' t g (replying s)" "view (memory n') (server n') = view (memory n) (server n)"
      "sent n' = sent n"
    and nx: "next_phase suggested plan e (phases s (who e)) = Some p" "silent e (phases s (who e))" "g = (phases s)(who e := p)"
  shows "follows base pf suggested plan e s g result"
proof -
  have "net_rel base pf suggested plan n' (enter (who e) p s)" using rel run(2-4) nx(3) by (auto simp: net_rel_def)
  moreover have "service_step pf suggested plan e s (Inr (enter (who e) p s))" using nx(1,2) by (rule service_step.silent)
  ultimately show ?thesis using run(1) nx(3) by (auto simp: follows_def)
qed

text \<open>The situation before an event: what is known of its client.\<close>

lemma net_rel_simps:
  assumes "net_rel base pf suggested plan n s"
  obtains t where "net_ok base plan n t (phases s) (replying s)" and "setting_ok pf suggested plan"
    and "view (memory n) (server n) = smap s" and "short_values (smap s)" and "sent n = replies_sent s"
  using assms by (auto simp: net_rel_def)

lemma follows_connect:
  assumes rel: "net_rel base pf suggested plan n s"
    and nx: "next_phase suggested plan (Connect i status accepted) (phases s i) = Some p"
  shows "follows base pf suggested plan (Connect i status accepted) s ((phases s)(i := p)) (handle pf suggested (Connect i status accepted) n)"
  using rel
proof (cases rule: net_rel_simps)
  case (1 t)
  have g: "phases s i = None" using nx by (simp split: if_split_asm)
  consider (error) "status < 0" "p = None" | (opened) "0 \<le> status" accepted "p = Some (Sending (encode (words (plan i))))"
    | (refused) "0 \<le> status" "\<not> accepted" "p = Some Refused"
    using nx g by (auto split: if_split_asm)
  then show ?thesis
  proof cases
    case error
    have none: "clients n i = None" using 1(1) g by (simp add: net_ok_def)
    then have "handle pf suggested (Connect i status accepted) n = Inr n"
      using error by (simp add: handle_def on_new_connection_def fun_upd_idem)
    then show ?thesis
      by (intro follows_silent [OF rel, where n' = n and p = p]) (use nx error g 1(1) in \<open>simp_all add: fun_upd_idem\<close>)
  next
    case opened
    from 1(1) g 1(2) opened(1) show ?thesis
    proof (cases rule: sim_connect)
      case (1 n')
      from 1 show ?thesis by (intro follows_silent [OF rel, where n' = n' and p = p]) (use nx opened in simp_all)
    qed
  next
    case refused
    from 1(1) g 1(2) refused(1) show ?thesis
    proof (cases rule: sim_refuse)
      case (1 n')
      from 1 show ?thesis by (intro follows_silent [OF rel, where n' = n' and p = p]) (use nx refused in simp_all)
    qed
  qed
qed

lemma follows_leave:
  assumes rel: "net_rel base pf suggested plan n s" and e: "e = End i nread \<or> e = Expire i"
    and nx: "next_phase suggested plan e (phases s i) = Some p"
  shows "follows base pf suggested plan e s ((phases s)(i := p)) (handle pf suggested e n)"
  using rel
proof (cases rule: net_rel_simps)
  case (1 t)
  obtain ph where ph: "phases s i = Some ph" "may_leave ph" "p = Some (left ph)" "e = End i nread \<Longrightarrow> sint nread < 0"
    using e nx by (auto simp: may_leave_def split: option.split_asm phase.split_asm if_split_asm)
  have whose: "who e = i" "silent e (phases s i)" using e by auto
  from e show ?thesis
  proof
    assume E: "e = End i nread"
    from 1(1) ph(1,2) 1(2) ph(4) [OF E] show ?thesis
    proof (cases rule: sim_end)
      case (1 n')
      from 1 show ?thesis by (intro follows_silent [OF rel, where n' = n' and p = p]) (use nx ph whose E in simp_all)
    qed
  next
    assume E: "e = Expire i"
    from 1(1) ph(1,2) show ?thesis
    proof (cases rule: sim_expire [where pf = pf and suggested = suggested])
      case (1 n')
      from 1 show ?thesis by (intro follows_silent [OF rel, where n' = n' and p = p]) (use nx ph whose E in simp_all)
    qed
  qed
qed

lemma follows_closed:
  assumes rel: "net_rel base pf suggested plan n s" and nx: "next_phase suggested plan (Closed i) (phases s i) = Some p"
  shows "follows base pf suggested plan (Closed i) s ((phases s)(i := p)) (handle pf suggested (Closed i) n)"
  using rel
proof (cases rule: net_rel_simps)
  case (1 t)
  consider "phases s i = Some Closing" "p = None" | "phases s i = Some Refused"
    using nx by (auto split: option.split_asm phase.split_asm)
  then show ?thesis
  proof cases
    case c: 1
    from 1(1) c(1) show ?thesis
    proof (cases rule: sim_closed [where pf = pf and suggested = suggested])
      case (1 n')
      from 1 show ?thesis by (intro follows_silent [OF rel, where n' = n' and p = p]) (use nx c in simp_all)
    qed
  next
    case 2
    with sim_unopened(1) [OF 1(1)] show ?thesis by (auto simp: follows_def intro: service_step.unopened)
  qed
qed

lemma follows_written:
  assumes rel: "net_rel base pf suggested plan n s" and nx: "next_phase suggested plan (Written i status) (phases s i) = Some p"
  shows "follows base pf suggested plan (Written i status) s ((phases s)(i := p)) (handle pf suggested (Written i status) n)"
  using rel
proof (cases rule: net_rel_simps)
  case (1 t)
  obtain ph where ph: "phases s i = Some Replying \<and> ph = Served \<or> phases s i = Some Aborting \<and> ph = Closing" "p = Some ph"
    using nx by (auto split: option.split_asm phase.split_asm)
  from 1(1) ph(1) show ?thesis
  proof (cases rule: sim_written [where pf = pf and suggested = suggested and status = status])
    case failed
    then show ?thesis by (auto simp: follows_def intro: service_step.failed)
  next
    case (wrote n')
    let ?s = "enter i p (s\<lparr>replies_sent := replies_sent s @ [(i, replying s i @ [13])]\<rparr>)"
    have "service_step pf suggested plan (Written i status) s (Inr ?s)" using nx wrote(1) by (rule service_step.sends)
    moreover have "net_rel base pf suggested plan n' ?s" using 1(2-5) wrote(3-5) ph(2) by (auto simp: net_rel_def)
    ultimately show ?thesis using wrote(2) by (auto simp: follows_def)
  qed
qed

lemma follows_answer:
  assumes rel: "net_rel base pf suggested plan n s" and g: "phases s i = Some (Sending chunk)" and chunk: "length chunk \<le> unat suggested"
  shows "follows base pf suggested plan (Arrive i chunk) s ((phases s)(i \<mapsto> Replying)) (handle pf suggested (Arrive i chunk) n)"
  using rel
proof (cases rule: net_rel_simps)
  case (1 t)
  let ?full = "request_full (server n) (plan i)"
  obtain st msg m where spec: "kv_answer ?full (plan i) (view (memory n) (server n)) = (st, msg, m)" by (metis prod_cases3)
  have "server_ok (server n, memory n)" using net_ok_simps(1) [OF 1(1)] by (auto simp: server_ok_def ctx_ok_def)
  from srv.full_card [OF this, of "plan i"] have full: "?full \<longrightarrow> 8 \<le> card (dom (smap s))"
    by (simp add: server_full_def server_kv_def 1(3))
  have short: "short_values (view (memory n) (server n))" using 1(3,4) by simp
  note ans = spec [unfolded 1(3)]
  from 1(1) g 1(2) chunk short spec show ?thesis
  proof (cases rule: sim_arrive_last)
    case (answered n' t')
    let ?s = "enter i (Some Replying) (s\<lparr>smap := m, replying := (replying s)(i := msg), answers := answers s @ [(i, msg)]\<rparr>)"
    have "service_step pf suggested plan (Arrive i chunk) s (Inr ?s)"
      by (rule service_step.answer [where full = ?full and st = st]) (use g ans full chunk answered(1) in simp_all)
    moreover have "short_values m" using kv_answer_short(2) [OF short spec] 1(2) by (simp add: setting_ok_def)
    then have "net_rel base pf suggested plan n' ?s" using 1(2,5) answered(3-5) by (auto simp: net_rel_def)
    ultimately show ?thesis using answered(2) by (auto simp: follows_def)
  next
    case overrun
    have "service_step pf suggested plan (Arrive i chunk) s (Inl BufferOverrun)"
      by (rule service_step.overrun [where full = ?full and st = st and msg = msg and m = m and chunk = chunk])
        (use g ans full overrun(1) in simp_all)
    with overrun(2) show ?thesis by (simp add: follows_def)
  qed
qed

lemma follows_idle:
  assumes rel: "net_rel base pf suggested plan n s" and g: "phases s i = Some ph" and nx: "next_phase suggested plan (Arrive i []) (Some ph) = Some (Some ph)"
    and still: "silent (Arrive i []) (Some ph)"
  shows "follows base pf suggested plan (Arrive i []) s (phases s) (handle pf suggested (Arrive i []) n)"
  using rel
proof (cases rule: net_rel_simps)
  case (1 t)
  from 1(1) g 1(2) show ?thesis
  proof (cases rule: sim_idle)
    case (1 n')
    have "(phases s)(i \<mapsto> ph) = phases s" using g by (simp add: fun_upd_idem)
    with 1 show ?thesis by (intro follows_silent [OF rel, where n' = n' and p = "Some ph"]) (use nx g still in simp_all)
  qed
qed

lemma follows_piece:
  assumes rel: "net_rel base pf suggested plan n s" and g: "phases s i = Some (Sending future)"
    and chunk: "length chunk \<le> unat suggested" "take (length chunk) future = chunk" "length chunk < length future"
  shows "follows base pf suggested plan (Arrive i chunk) s ((phases s)(i \<mapsto> Sending (drop (length chunk) future)))
    (handle pf suggested (Arrive i chunk) n)"
proof (cases "chunk = []")
  case True
  then have "(phases s)(i \<mapsto> Sending (drop (length chunk) future)) = phases s" using g by (simp add: fun_upd_idem)
  with True follows_idle [OF rel g] chunk show ?thesis by simp
next
  case False
  from rel show ?thesis
  proof (cases rule: net_rel_simps)
    case (1 t)
    have "future = take (length chunk) future @ drop (length chunk) future" by simp
    then have f: "future = chunk @ drop (length chunk) future" by (simp only: chunk(2))
    have more: "phases s i = Some (Sending (chunk @ drop (length chunk) future))" "drop (length chunk) future \<noteq> []"
      using g f chunk(3) by (metis, simp)
    from 1(1) more(1) 1(2) False chunk(1) more(2) show ?thesis
    proof (cases rule: sim_arrive_more)
      case (1 n')
      from 1 show ?thesis
        by (intro follows_silent [OF rel, where n' = n' and p = "Some (Sending (drop (length chunk) future))"]) (use g chunk in simp_all)
    qed
  qed
qed

lemma follows_arrive:
  assumes rel: "net_rel base pf suggested plan n s" and nx: "next_phase suggested plan (Arrive i chunk) (phases s i) = Some p"
  shows "follows base pf suggested plan (Arrive i chunk) s ((phases s)(i := p)) (handle pf suggested (Arrive i chunk) n)"
proof -
  consider (idle) ph where "phases s i = Some ph" "ph = Replying \<or> ph = Served" "chunk = []" "p = Some ph"
    | (sends) future where "phases s i = Some (Sending future)" "length chunk \<le> unat suggested" "take (length chunk) future = chunk"
        "p = Some (if length chunk = length future then Replying else Sending (drop (length chunk) future))"
    using nx by (auto split: option.split_asm phase.split_asm if_split_asm)
  then show ?thesis
  proof cases
    case (idle ph)
    then have "(phases s)(i := p) = phases s" by (simp add: fun_upd_idem)
    with follows_idle [OF rel idle(1)] idle(2,3) show ?thesis by auto
  next
    case (sends future)
    have "length chunk \<le> length future" using arg_cong [OF sends(3), of length] by simp
    then consider "length chunk = length future" | "length chunk < length future" by linarith
    then show ?thesis
    proof cases
      case 1
      with sends(3) have "future = chunk" by simp
      with sends(1,2,4) follows_answer [OF rel] show ?thesis by simp
    next
      case 2
      with follows_piece [OF rel sends(1-3)] sends(4) show ?thesis by simp
    qed
  qed
qed

lemma sim_event:
  assumes rel: "net_rel base pf suggested plan n s" and move: "deliver suggested plan e (phases s) = Some g"
  shows "follows base pf suggested plan e s g (handle pf suggested e n)"
proof -
  obtain p where p: "next_phase suggested plan e (phases s (who e)) = Some p" "g = (phases s)(who e := p)"
    using move by (auto simp: deliver_def split: option.split_asm)
  show ?thesis
  proof (cases e)
    case (Connect i status accepted)
    with p follows_connect [OF rel] show ?thesis by simp
  next
    case (Arrive i chunk)
    with p follows_arrive [OF rel] show ?thesis by simp
  next
    case (Written i status)
    with p follows_written [OF rel] show ?thesis by simp
  next
    case (End i nread)
    with p follows_leave [OF rel, of e i nread] show ?thesis by simp
  next
    case (Expire i)
    with p follows_leave [OF rel, of e i] show ?thesis by simp
  next
    case (Closed i)
    with p follows_closed [OF rel] show ?thesis by simp
  qed
qed

interpretation net: simulated "handle pf suggested" "deliver suggested plan" phases "service_step pf suggested plan"
    "net_rel base pf suggested plan"
  for pf suggested plan base
  by unfold_locales (use sim_event in \<open>simp add: follows_def\<close>)

lemma net_start:
  assumes "serving w sctx t" and "sys_fails w = []" and "setting_ok pf suggested plan" and "short_values (view w sctx)"
  shows "net_rel (outside w t) pf suggested plan (listening sctx w) (idle_service (view w sctx))"
  using assms by (auto simp: net_rel_def net_ok_def listening_def idle_service_def)

end
