(* ===== verification/Program.thy ===== *)
theory Program
  imports Clients
begin

text \<open>
  The whole program, src/src/server.c: many clients served in any interleaving, and \<open>main\<close> from its start to
  its end. A run comes to its end, or it stops at one of the three faults an event can run into.
\<close>

section \<open>The order of the requests\<close>

text \<open>
  The requests are carried out one after the other: \<open>serial_run plan m as m'\<close> says that the requests of the clients in \<open>as\<close>, in this
  order, take the map from \<open>m\<close> to \<open>m'\<close> and have the answers in \<open>as\<close>. A bucket is taken for full only when eight keys are stored.
\<close>

inductive serial_run :: "(nat \<Rightarrow> request) \<Rightarrow> store_map \<Rightarrow> (nat \<times> byte list) list \<Rightarrow> store_map \<Rightarrow> bool" for plan m where
  nil: "serial_run plan m [] m"
| snoc: "serial_run plan m as m1 \<Longrightarrow> kv_answer full (plan i) m1 = (st, msg, m2) \<Longrightarrow> full \<longrightarrow> 8 \<le> card (dom m1) \<Longrightarrow>
    serial_run plan m (as @ [(i, msg)]) m2"

text \<open>The clients whose requests become complete, in this order.\<close>

fun finishes :: "event \<Rightarrow> phase option \<Rightarrow> bool" where
  "finishes (Arrive i chunk) (Some (Sending future)) = (length chunk = length future)"
| "finishes e p = False"

primrec completions :: "size_t \<Rightarrow> (nat \<Rightarrow> request) \<Rightarrow> event list \<Rightarrow> (nat \<Rightarrow> phase option) \<Rightarrow> nat list" where
  "completions suggested plan [] g = []"
| "completions suggested plan (e # es) g =
     (if finishes e (g (who e)) then [who e] else []) @
     (case deliver suggested plan e g of None \<Rightarrow> [] | Some g' \<Rightarrow> completions suggested plan es g')"

lemma service_step_delivers:
  assumes "service_step pf suggested plan e s (Inr s')"
  shows "deliver suggested plan e (phases s) = Some (phases s')"
    and "map fst (answers s') = map fst (answers s) @ (if finishes e (phases s (who e)) then [who e] else [])"
proof -
  have "deliver suggested plan e (phases s) = Some (phases s') \<and>
    map fst (answers s') = map fst (answers s) @ (if finishes e (phases s (who e)) then [who e] else [])"
    using assms
  proof (cases rule: service_step.cases)
    case (silent p)
    then have "\<not> finishes e (phases s (who e))" by (cases "(e, phases s (who e))" rule: finishes.cases) auto
    with silent show ?thesis by (simp add: deliver_def)
  next
    case (answer i chunk full st msg m)
    then show ?thesis by (simp add: deliver_def)
  next
    case (sends i status p)
    then show ?thesis by (simp add: deliver_def)
  qed
  then show "deliver suggested plan e (phases s) = Some (phases s')"
    "map fst (answers s') = map fst (answers s) @ (if finishes e (phases s (who e)) then [who e] else [])" by simp_all
qed

lemma completions_answers:
  "spec_run (service_step pf suggested plan) es s s' \<Longrightarrow>
    map fst (answers s') = map fst (answers s) @ completions suggested plan es (phases s)"
proof (induction es arbitrary: s)
  case (Cons e es)
  then obtain s1 where s1: "service_step pf suggested plan e s (Inr s1)" "spec_run (service_step pf suggested plan) es s1 s'" by auto
  from Cons.IH [OF s1(2)] service_step_delivers [OF s1(1)] show ?case by simp
qed simp

definition serial :: "(nat \<Rightarrow> request) \<Rightarrow> store_map \<Rightarrow> service \<Rightarrow> bool" where
  "serial plan m s \<longleftrightarrow> serial_run plan m (answers s) (smap s) \<and>
     (\<forall>i. phases s i = Some Replying \<or> phases s i = Some Aborting \<longrightarrow> (i, replying s i) \<in> set (answers s)) \<and>
     (\<forall>(i, bytes) \<in> set (replies_sent s). \<exists>msg. bytes = msg @ [13] \<and> (i, msg) \<in> set (answers s))"

text \<open>A silent event starts no reply.\<close>

lemma silent_phase:
  "next_phase suggested plan e q = Some p \<Longrightarrow> silent e q \<Longrightarrow> p = Some Replying \<or> p = Some Aborting \<Longrightarrow>
    q = Some Replying \<or> q = Some Aborting"
  by (cases e) (auto split: option.split_asm phase.split_asm if_split_asm)

lemma serial_step:
  assumes ser: "serial plan m s" and step: "service_step pf suggested plan e s (Inr s')"
  shows "serial plan m s'"
  using step
proof (cases rule: service_step.cases)
  case (silent p)
  with ser silent_phase [OF silent(2,3)] show ?thesis by (auto simp: serial_def)
next
  case (answer i chunk full st msg a)
  have "serial_run plan m (answers s @ [(i, msg)]) a"
    by (rule serial_run.snoc [where full = full]) (use ser answer in \<open>auto simp: serial_def\<close>)
  with ser answer show ?thesis by (fastforce simp: serial_def)
next
  case (sends i status p)
  have "phases s i = Some Replying \<or> phases s i = Some Aborting" "p \<noteq> Some Replying" "p \<noteq> Some Aborting"
    using sends(3) by (auto split: option.split_asm phase.split_asm)
  with ser sends show ?thesis by (auto simp: serial_def)
qed

lemma serial_steps: "serial plan m s \<Longrightarrow> spec_run (service_step pf suggested plan) es s s' \<Longrightarrow> serial plan m s'"
  by (induction es arbitrary: s) (auto dest: serial_step)

lemma serial_idle: "serial plan m (idle_service m)"
  by (simp add: serial_def idle_service_def serial_run.nil)

section \<open>What stops a run\<close>

text \<open>
  The three faults an event of the loop can run into: the answer of the request that becomes complete has no spare byte
  behind its block, a write has failed, or a connection that was not accepted is closed.
\<close>

definition known_fault :: "platform \<Rightarrow> (nat \<Rightarrow> request) \<Rightarrow> (nat \<Rightarrow> phase option) \<Rightarrow> network \<Rightarrow> event \<Rightarrow> fault \<Rightarrow> bool" where
  "known_fault pf plan g n e f \<longleftrightarrow>
     (case e of
        Arrive i chunk \<Rightarrow> f = BufferOverrun \<and> finishes e (g i) \<and>
          (\<exists>full st msg m. kv_answer full (plan i) (view (memory n) (server n)) = (st, msg, m) \<and>
             (full \<longrightarrow> 8 \<le> card (dom (view (memory n) (server n)))) \<and> spare pf (length msg + 1) = 0)
      | Written i status \<Rightarrow> f = DanglingAccess \<and> status < 0
      | Closed i \<Rightarrow> f = BadHandle \<and> g i = Some Refused
      | _ \<Rightarrow> False)"

definition stopped :: "platform \<Rightarrow> size_t \<Rightarrow> (nat \<Rightarrow> request) \<Rightarrow> event list \<Rightarrow> network \<Rightarrow> fault \<Rightarrow> bool" where
  "stopped pf suggested plan es start f \<longleftrightarrow>
     (\<exists>pre e post n g. es = pre @ e # post \<and> run_steps (handle pf suggested) pre start = Inr n \<and>
        moves (deliver suggested plan) pre Map.empty = Some g \<and> handle pf suggested e n = Inl f \<and> known_fault pf plan g n e f)"

lemma spec_run_moves:
  "spec_run (service_step pf suggested plan) es s s' \<Longrightarrow> moves (deliver suggested plan) es (phases s) = Some (phases s')"
proof (induction es arbitrary: s)
  case (Cons e es)
  then obtain s1 where "service_step pf suggested plan e s (Inr s1)" "spec_run (service_step pf suggested plan) es s1 s'" by auto
  with Cons.IH service_step_delivers(1) show ?case by fastforce
qed simp

lemma refused_phase:
  "next_phase suggested plan e q = Some (Some Refused) \<Longrightarrow> \<exists>status. e = Connect (who e) status False"
  by (cases e) (auto split: option.split_asm phase.split_asm if_split_asm)

lemma refused_before:
  "moves (deliver suggested plan) es g = Some g' \<Longrightarrow> g' i = Some Refused \<Longrightarrow>
    g i = Some Refused \<or> (\<exists>status. Connect i status False \<in> set es)"
proof (induction es arbitrary: g)
  case (Cons e es)
  then obtain g1 where g1: "deliver suggested plan e g = Some g1" "moves (deliver suggested plan) es g1 = Some g'"
    by (auto split: option.split_asm)
  obtain p where p: "next_phase suggested plan e (g (who e)) = Some p" "g1 = g(who e := p)"
    using g1(1) by (auto simp: deliver_def split: option.split_asm)
  then have "g i = Some Refused \<or> (\<exists>status. e = Connect i status False)" if "g1 i = Some Refused"
    using that refused_phase [of suggested plan e] by (cases "who e = i") auto
  with Cons.IH [OF g1(2) Cons.prems(2)] show ?case by auto
qed simp

lemma step_known_fault:
  assumes step: "service_step pf suggested plan e s (Inl f)" and same: "view (memory n) (server n) = smap s"
  shows "known_fault pf plan (phases s) n e f"
  using step
proof (cases rule: service_step.cases)
  case (overrun i chunk full st msg a)
  then show ?thesis unfolding known_fault_def same by auto
qed (simp_all add: known_fault_def)

text \<open>Nothing stops a run when every reply has a spare byte, no write fails and every connection is accepted.\<close>

lemma not_stopped:
  assumes "\<And>k. 1 \<le> spare pf k" and "\<And>i status. Written i status \<in> set es \<Longrightarrow> 0 \<le> status"
    and "\<And>i status. Connect i status False \<notin> set es"
  shows "\<not> stopped pf suggested plan es start f"
proof
  assume "stopped pf suggested plan es start f"
  then obtain pre e post n g where e: "es = pre @ e # post" "known_fault pf plan g n e f"
    "moves (deliver suggested plan) pre Map.empty = Some g" by (auto simp: stopped_def)
  have room: "spare pf k \<noteq> 0" for k using assms(1) [of k] by simp
  have "\<not> status < 0" if "e = Written i status" for i status using assms(2) [of i status] e(1) that by simp
  moreover have "g i \<noteq> Some Refused" for i using refused_before [OF e(3), of i] assms(3) [of i] e(1) by auto
  ultimately show False using e(2) by (cases e) (auto simp: known_fault_def room)
qed

section \<open>Many clients\<close>

lemma clients_run:
  assumes srv: "serving w sctx t" and quiet: "sys_fails w = []" and set: "setting_ok pf suggested plan"
    and short: "short_values (view w sctx)" and del: "delivered suggested plan es"
  obtains (stopped) f where "run_steps (handle pf suggested) es (listening sctx w) = Inl f"
      and "stopped pf suggested plan es (listening sctx w) f"
  | (ended) n t' s where "run_steps (handle pf suggested) es (listening sctx w) = Inr n"
      and "net_ok (outside w t) plan n t' (phases s) (replying s)" and "net_rel (outside w t) pf suggested plan n s"
      and "serial plan (view w sctx) s" and "map fst (answers s) = completions suggested plan es Map.empty"
      and "spec_run (service_step pf suggested plan) es (idle_service (view w sctx)) s"
proof -
  let ?s = "idle_service (view w sctx)"
  have idle: "phases ?s = Map.empty" "answers ?s = []" by (simp_all add: idle_service_def)
  obtain g where "moves (deliver suggested plan) es (phases ?s) = Some g"
    using del by (auto simp: delivered_def idle)
  note runs = net.runs [OF net_start [OF srv quiet set short] this]
  show thesis
  proof (cases "run_steps (handle pf suggested) es (listening sctx w)")
    case (Inl f)
    with runs obtain pre e post n s where "es = pre @ e # post" "run_steps (handle pf suggested) pre (listening sctx w) = Inr n"
      "handle pf suggested e n = Inl f" "spec_run (service_step pf suggested plan) pre ?s s"
      and s: "net_rel (outside w t) pf suggested plan n s" "service_step pf suggested plan e s (Inl f)" by auto
    moreover from this(4) have "moves (deliver suggested plan) pre Map.empty = Some (phases s)"
      using spec_run_moves [of pf suggested plan pre ?s s] idle(1) by simp
    moreover have "known_fault pf plan (phases s) n e f" using s by (intro step_known_fault) (auto simp: net_rel_def)
    ultimately have "stopped pf suggested plan es (listening sctx w) f" unfolding stopped_def by blast
    with Inl show thesis by (rule stopped)
  next
    case (Inr n)
    with runs obtain s where s: "spec_run (service_step pf suggested plan) es ?s s" "net_rel (outside w t) pf suggested plan n s" by auto
    moreover from this obtain t' where "net_ok (outside w t) plan n t' (phases s) (replying s)" by (auto simp: net_rel_def)
    ultimately show thesis
      using Inr serial_steps [OF serial_idle s(1)] completions_answers [OF s(1)] idle by (intro ended) simp_all
  qed
qed

text \<open>C3. Clients that each send one request on the map are served one after the other, when every allocation is granted: whatever the interleaving of
  connections, pieces of bytes, ends of writes with any status, departures, timeouts and closings, in so far as libuv delivers them,
  either the run comes to its end, and then the map is the one that results from the requests in the order in which they became
  complete, the bytes sent to a client are the answer to a request of its own in that order, with a CR, and
  memory that was not the server's stays as it was; or it stops at an event with one of three faults: a reply without a
  spare byte behind its block, a failed write, a connection that was not accepted.\<close>

theorem clients_serialised:
  assumes "ctx_ok w sctx" and "sys_fails w = []" and "setting_ok pf suggested plan" and "short_values (view w sctx)"
    and "delivered suggested plan es"
  shows "case run_steps (handle pf suggested) es (listening sctx w) of
      Inr n \<Rightarrow> ctx_ok (memory n) (server n) \<and> beside w sctx \<subseteq>\<^sub>m beside (memory n) (server n) \<and>
        (\<exists>as. serial_run plan (view w sctx) as (view (memory n) (server n)) \<and>
           map fst as = completions suggested plan es Map.empty \<and>
           (\<forall>(i, bytes) \<in> set (sent n). \<exists>msg. bytes = msg @ [13] \<and> (i, msg) \<in> set as))
    | Inl f \<Rightarrow> stopped pf suggested plan es (listening sctx w) f"
proof -
  obtain t where srv: "serving w sctx t" using assms(1) by (auto simp: ctx_ok_def)
  from srv assms(2-5) show ?thesis
  proof (cases rule: clients_run)
    case (ended n t' s)
    have "serving (memory n) (server n) t'" "outside w t \<subseteq>\<^sub>m outside (memory n) t'" using ended(2) by (simp_all add: net_ok_def)
    then have "ctx_ok (memory n) (server n)" "beside w sctx \<subseteq>\<^sub>m beside (memory n) (server n)"
      using srv serving_simps(1) by (auto simp: ctx_ok_def beside_def)
    moreover have "view (memory n) (server n) = smap s" "sent n = replies_sent s" using ended(3) by (auto simp: net_rel_def)
    ultimately show ?thesis using ended(1,4,5) by (auto simp: serial_def)
  qed simp
qed

text \<open>One client reads a key while another, who came later, sets it: the answer is the new value.\<close>

definition platform1 :: platform where
  "platform1 = platform0\<lparr>spare := (\<lambda>n. 1)\<rparr>"

definition two_plan :: "nat \<Rightarrow> request" where
  "two_plan i = (if i = 0 then Req_get [97] else Req_set [97] [121])"

definition set_a :: "byte list" where
  "set_a = [42, 51, 13, 10, 36, 51, 13, 10, 83, 69, 84, 13, 10, 36, 49, 13, 10, 97, 13, 10, 36, 49, 13, 10, 121, 13, 10]"

definition two_events :: "event list" where
  "two_events = [Connect 0 0 True, Connect 1 0 True, Arrive 0 (take 7 get_a), Arrive 1 set_a, Expire 1, Arrive 0 (drop 7 get_a), Arrive 0 [],
     Written 1 0, Closed 1, Written 0 0, End 0 (- 4095), Closed 0]"

lemma two_words: "encode (words (two_plan 0)) = get_a" "encode (words (two_plan (Suc 0))) = set_a"
proof -
  show "encode (words (two_plan 0)) = get_a" by (simp add: two_plan_def encode_get_a del: words.simps)
  show "encode (words (two_plan (Suc 0))) = set_a"
    by (simp add: two_plan_def encode_def bulk_def header_def set_a_def lit_bytes_def nat_digits.simps)
qed

lemma two_setting: "setting_ok platform1 65536 two_plan"
  using get_a_ok(3) by (auto simp: setting_ok_def two_plan_def request_ok_def key_ok_def platform1_def platform0_def)

lemma two_delivered:
  "delivered 65536 two_plan two_events" "completions 65536 two_plan two_events Map.empty = [1, 0]"
  by (simp_all add: delivered_def deliver_def two_events_def two_words get_a_def set_a_def)

lemma short_x: "short_values (view world1 ctx1)"
  by (simp add: short_values_def view_01(2) data_x_def)

text \<open>The only answers in this order.\<close>

lemma two_serial:
  assumes "serial_run two_plan [[97] \<mapsto> data_x] as m" and "map fst as = [1, 0]"
  shows "as = [(1, [79, 75]), (0, [121])]" and "m = [[97] \<mapsto> [121]]"
proof -
  have one: "as = [] \<and> m = [[97] \<mapsto> data_x]" if "serial_run two_plan [[97] \<mapsto> data_x] as m" "map fst as = []" for as m
    using that by (cases rule: serial_run.cases) simp_all
  have two: "as = [(1, [79, 75])] \<and> m = [[97] \<mapsto> [121]]" if "serial_run two_plan [[97] \<mapsto> data_x] as m" "map fst as = [1]" for as m
    using that(1)
  proof (cases rule: serial_run.cases)
    case (snoc as1 m1 full i st msg)
    with that(2) one [of as1 m1] have "as1 = []" "i = 1" "m1 = [[97] \<mapsto> data_x]" by (simp_all add: append_eq_Cons_conv)
    with snoc show ?thesis by (auto simp: two_plan_def TCP_SUCCESS_def lit_bytes_def)
  qed (use that(2) in simp)
  from assms(1) have "as = [(1, [79, 75]), (0, [121])] \<and> m = [[97] \<mapsto> [121]]"
  proof (cases rule: serial_run.cases)
    case (snoc as1 m1 full i st msg)
    with assms(2) have "map fst as1 = [1]" "i = 0" by (auto simp: append_eq_Cons_conv)
    with two [of as1 m1] snoc show ?thesis by (auto simp: two_plan_def)
  qed (use assms(2) in simp)
  then show "as = [(1, [79, 75]), (0, [121])]" "m = [[97] \<mapsto> [121]]" by simp_all
qed

theorem clients_serialised_witness:
  "\<exists>n. run_steps (handle platform1 65536) two_events (listening ctx1 world1) = Inr n \<and>
     view (memory n) (server n) = [[97] \<mapsto> [121]] \<and> set (sent n) \<subseteq> {(0, [121, 13]), (1, [79, 75, 13])}"
proof -
  have "\<not> stopped platform1 65536 two_plan two_events (listening ctx1 world1) f" for f
    by (rule not_stopped) (auto simp: platform1_def two_events_def)
  with clients_serialised [OF ctx_ok_01(2) quiet_01(2) two_setting short_x two_delivered(1)] obtain n as where
    n: "run_steps (handle platform1 65536) two_events (listening ctx1 world1) = Inr n"
    "serial_run two_plan [[97] \<mapsto> data_x] as (view (memory n) (server n))" "map fst as = [1, 0]"
    "\<forall>(i, bytes) \<in> set (sent n). \<exists>msg. bytes = msg @ [13] \<and> (i, msg) \<in> set as"
    by (auto simp: view_01(2) two_delivered(2) split: sum.split_asm)
  note as = two_serial [OF n(2,3)]
  have "set (sent n) \<subseteq> {(0, [121, 13]), (1, [79, 75, 13])}" using n(4) by (fastforce simp: as(1))
  with n(1) as(2) show ?thesis by blast
qed

section \<open>Every complete request is answered\<close>

text \<open>The bytes client \<open>i\<close> sent in a run, and what that says of its phase while its connection is not closed.\<close>

fun bytes_from :: "nat \<Rightarrow> event list \<Rightarrow> byte list" where
  "bytes_from i [] = []"
| "bytes_from i (Arrive j chunk # es) = (if j = i then chunk else []) @ bytes_from i es"
| "bytes_from i (e # es) = bytes_from i es"

definition was_sent :: "nat \<Rightarrow> (nat \<times> byte list) set \<Rightarrow> bool" where
  "was_sent i out \<longleftrightarrow> (\<exists>msg. (i, msg @ [13]) \<in> out)"

fun heard :: "(nat \<Rightarrow> request) \<Rightarrow> nat \<Rightarrow> byte list \<Rightarrow> (nat \<times> byte list) set \<Rightarrow> phase option \<Rightarrow> bool" where
  "heard plan i got out None = (got = [])"
| "heard plan i got out (Some (Sending future)) = (future \<noteq> [] \<and> got @ future = encode (words (plan i)))"
| "heard plan i got out (Some Served) = was_sent i out"
| "heard plan i got out (Some Closing) =
     (was_sent i out \<or> (\<exists>future. future \<noteq> [] \<and> got @ future = encode (words (plan i))))"
| "heard plan i got out (Some Refused) = (got = [])"
| "heard plan i got out (Some ph) = True"

lemma encode_nonempty: "encode ws \<noteq> []"
  by (simp add: encode_def header_def)

lemma heard_more: "heard plan i got out p \<Longrightarrow> out \<subseteq> out' \<Longrightarrow> heard plan i got out' p"
  by (cases "(plan, i, got, out, p)" rule: heard.cases) (auto simp: was_sent_def)

text \<open>What an event sends.\<close>

lemma service_step_sends:
  assumes "service_step pf suggested plan e s (Inr s')"
  shows "set (replies_sent s) \<subseteq> set (replies_sent s')" and "e = Written i status \<Longrightarrow> was_sent i (set (replies_sent s'))"
proof -
  have "set (replies_sent s) \<subseteq> set (replies_sent s') \<and> (e = Written i status \<longrightarrow> was_sent i (set (replies_sent s')))"
    using assms by (cases rule: service_step.cases) (auto simp: was_sent_def)
  then show "set (replies_sent s) \<subseteq> set (replies_sent s')" "e = Written i status \<Longrightarrow> was_sent i (set (replies_sent s'))" by simp_all
qed

lemma heard_phase:
  assumes "next_phase suggested plan e q = Some p" and "who e = i" and "e \<noteq> Closed i" and "heard plan i got out q"
    and "\<And>status. e = Written i status \<Longrightarrow> was_sent i out"
  shows "heard plan i (got @ bytes_from i [e]) out p"
proof (cases e)
  case (Arrive j chunk)
  have join: "got @ chunk @ drop (length chunk) future = got @ future" if "take (length chunk) future = chunk" for future
    by (metis append_take_drop_id that)
  have left: "drop (length chunk) future \<noteq> []" if "take (length chunk) future = chunk" "length chunk \<noteq> length future" for future
    using arg_cong [OF that(1), of length] that(2) by simp
  show ?thesis
    using Arrive assms(1,2,4) join left by (auto split: option.split_asm phase.split_asm if_split_asm)
next
  case (Written j status)
  with assms show ?thesis by (auto split: option.split_asm phase.split_asm)
qed (use assms in \<open>auto simp: encode_nonempty split: option.split_asm phase.split_asm if_split_asm\<close>)

lemma heard_step:
  assumes step: "service_step pf suggested plan e s (Inr s')" and alive: "e \<noteq> Closed i"
    and inv: "heard plan i got (set (replies_sent s)) (phases s i)"
  shows "heard plan i (got @ bytes_from i [e]) (set (replies_sent s')) (phases s' i)"
proof -
  note out = service_step_sends [OF step]
  have old: "heard plan i got (set (replies_sent s')) (phases s i)" using heard_more [OF inv out(1)] .
  obtain p where p: "next_phase suggested plan e (phases s (who e)) = Some p" "phases s' = (phases s)(who e := p)"
    using service_step_delivers(1) [OF step] by (auto simp: deliver_def split: option.split_asm)
  show ?thesis
  proof (cases "who e = i")
    case False
    then have "bytes_from i [e] = []" by (cases e) simp_all
    with old p(2) False show ?thesis by simp
  next
    case True
    from heard_phase [OF p(1) [unfolded True] True alive old out(2)] p(2) True show ?thesis by simp
  qed
qed

lemma bytes_from_Cons: "bytes_from i (e # es) = bytes_from i [e] @ bytes_from i es"
  by (cases e) simp_all

lemma heard_steps:
  "spec_run (service_step pf suggested plan) es s s' \<Longrightarrow> Closed i \<notin> set es \<Longrightarrow>
    heard plan i got (set (replies_sent s)) (phases s i) \<Longrightarrow>
    heard plan i (got @ bytes_from i es) (set (replies_sent s')) (phases s' i)"
proof (induction es arbitrary: s got)
  case (Cons e es)
  then obtain s1 where s1: "service_step pf suggested plan e s (Inr s1)" "spec_run (service_step pf suggested plan) es s1 s'" by auto
  have "heard plan i (got @ bytes_from i [e]) (set (replies_sent s1)) (phases s1 i)"
    using Cons.prems by (intro heard_step [OF s1(1)]) auto
  from Cons.IH [OF s1(2) _ this] Cons.prems(2) show ?case by (simp add: bytes_from_Cons [of i e es])
qed simp

text \<open>A client that has sent all of its request is being answered, or was.\<close>

lemma heard_all:
  assumes "heard plan i (encode (words (plan i))) out p"
  obtains "p = Some Replying \<or> p = Some Aborting" | "was_sent i out"
  using assms by (cases "(plan, i, encode (words (plan i)), out, p)" rule: heard.cases) (auto simp: encode_nonempty)

text \<open>C6. Progress, when every allocation is granted: in any interleaving of what libuv delivers, a client that has sent all bytes of its request on a connection
  that is not closed yet gets its answer. Either the answer was sent, or it is being written, also when the client has left or timed
  out meanwhile, and the write ending well sends it. The only runs excepted are those that have stopped at one of the
  faults: a reply without a spare byte, a failed write, a connection that was not accepted.\<close>

theorem complete_request_answered:
  assumes "ctx_ok w sctx" and "sys_fails w = []" and "setting_ok pf suggested plan" and "short_values (view w sctx)"
    and "delivered suggested plan es" and "Closed i \<notin> set es" and "bytes_from i es = encode (words (plan i))"
  shows "case run_steps (handle pf suggested) es (listening sctx w) of
      Inr n \<Rightarrow> \<exists>as msg. serial_run plan (view w sctx) as (view (memory n) (server n)) \<and>
        map fst as = completions suggested plan es Map.empty \<and> (i, msg) \<in> set as \<and>
        ((i, msg @ [13]) \<in> set (sent n) \<or>
         (\<exists>n'. handle pf suggested (Written i 0) n = Inr n' \<and> sent n' = sent n @ [(i, msg @ [13])]))
    | Inl f \<Rightarrow> stopped pf suggested plan es (listening sctx w) f"
proof -
  obtain t where srv: "serving w sctx t" using assms(1) by (auto simp: ctx_ok_def)
  from srv assms(2-5) show ?thesis
  proof (cases rule: clients_run)
    case (ended n t' s)
    have same: "view (memory n) (server n) = smap s" "sent n = replies_sent s" using ended(3) by (auto simp: net_rel_def)
    have ser: "serial_run plan (view w sctx) (answers s) (smap s)" using ended(4) by (simp add: serial_def)
    have "heard plan i (encode (words (plan i))) (set (replies_sent s)) (phases s i)"
      using heard_steps [OF ended(6) assms(6), of "[]"] assms(7) by (simp add: idle_service_def)
    then have "\<exists>msg. (i, msg) \<in> set (answers s) \<and> ((i, msg @ [13]) \<in> set (sent n) \<or>
        (\<exists>n'. handle pf suggested (Written i 0) n = Inr n' \<and> sent n' = sent n @ [(i, msg @ [13])]))"
    proof (cases rule: heard_all)
      case 1
      then obtain ph where "phases s i = Some Replying \<and> ph = Served \<or> phases s i = Some Aborting \<and> ph = Closing" by blast
      from ended(2) this obtain n' where "handle pf suggested (Written i 0) n = Inr n'" "sent n' = sent n @ [(i, replying s i @ [13])]"
        by (cases rule: sim_written [where pf = pf and suggested = suggested and status = 0]) auto
      moreover have "(i, replying s i) \<in> set (answers s)" using ended(4) 1 by (auto simp: serial_def)
      ultimately show ?thesis by blast
    next
      case 2
      with ended(4) show ?thesis by (fastforce simp: was_sent_def serial_def same(2))
    qed
    with ended(1,5) ser same(1) show ?thesis by auto
  qed simp
qed

definition asked :: "event list" where
  "asked = [Connect 0 0 True, Connect 1 0 True, Arrive 0 (take 7 get_a), Arrive 1 set_a, Arrive 0 (drop 7 get_a), End 0 (- 4095)]"

lemma two_asked:
  "delivered 65536 two_plan asked" "completions 65536 two_plan asked Map.empty = [1, 0]"
  by (simp_all add: delivered_def deliver_def asked_def two_words get_a_def set_a_def)

theorem complete_request_answered_witness:
  "\<exists>n. run_steps (handle platform1 65536) asked (listening ctx1 world1) = Inr n \<and>
     ((0, [121, 13]) \<in> set (sent n) \<or>
      (\<exists>n'. handle platform1 65536 (Written 0 0) n = Inr n' \<and> sent n' = sent n @ [(0, [121, 13])]))"
proof -
  have go: "\<not> stopped platform1 65536 two_plan asked (listening ctx1 world1) f" for f
    by (rule not_stopped) (auto simp: platform1_def asked_def)
  have all: "Closed 0 \<notin> set asked" "bytes_from 0 asked = encode (words (two_plan 0))"
    by (simp_all add: asked_def two_words)
  from go complete_request_answered [OF ctx_ok_01(2) quiet_01(2) two_setting short_x two_asked(1) all] obtain n as msg where
    n: "run_steps (handle platform1 65536) asked (listening ctx1 world1) = Inr n"
    "serial_run two_plan [[97] \<mapsto> data_x] as (view (memory n) (server n))" "map fst as = [1, 0]" "(0, msg) \<in> set as"
    and sent: "(0, msg @ [13]) \<in> set (sent n) \<or>
      (\<exists>n'. handle platform1 65536 (Written 0 0) n = Inr n' \<and> sent n' = sent n @ [(0, msg @ [13])])"
    by (auto simp: view_01(2) two_asked(2) split: sum.split_asm)
  have "msg @ [13] = [121, 13]" using n(4) two_serial(1) [OF n(2,3)] by simp
  with n(1) sent show ?thesis by (intro exI [of _ n] conjI) (simp_all only:)
qed

section \<open>The registry stays\<close>










section \<open>The program from start to end\<close>





text \<open>C19. \<open>main\<close> gives up: with a wrong number of arguments at once, with a size of 0 or none after the registry
  was allocated, which it keeps, and when the socket cannot be bound or listened on with 1, keeping the registry and the table.\<close>

theorem main_gives_up:
  assumes "world_ok w" and "sys_fails w = []" and "strtoul size_arg = Inr (n, e)" and "unat n \<le> 2 ^ 63"
    and "argc \<noteq> 2 \<or> n = 0 \<or> bind_err \<noteq> 0 \<or> fileno_err \<noteq> 0 \<or> listen_err \<noteq> 0"
  shows "\<exists>rc w'. server_main argc size_arg bind_err fileno_err listen_err uv_run w = Inr (rc, w') \<and>
    (if argc \<noteq> 2 then rc = - 1 \<and> w' = w
     else if n = 0 then rc = - 1 \<and> heap w' = (heap w)(fresh w \<mapsto> [])
     else if rc = 1 then \<exists>t. db w' t \<and> outside w' t = (heap w)(fresh w \<mapsto> [])
     else rc = - 1 \<and> heap w' = (heap w)(fresh w \<mapsto> []))"
proof (cases "argc \<noteq> 2")
  case True
  then show ?thesis by (simp add: server_main_def)
next
  case two: False
  show ?thesis
  proof (cases "n = 0")
    case True
    have "heap (snd (registry_create w)) = (heap w)(fresh w \<mapsto> [])"
      using assms(2) by (simp add: registry_create_def heap_simps sizeof_registry_def)
    with True two assms(3) show ?thesis by (simp add: server_main_def start_server_def case_prod_unfold)
  next
    case False
    from assms(1-3) False assms(4) show ?thesis
    proof (cases rule: start_server_cases)
      case (refused w1)
      with two False show ?thesis by (simp add: server_main_def)
    next
      case (started t w1 g)
      then have "server_main argc size_arg bind_err fileno_err listen_err uv_run w = Inr (1, w1)"
        using two False assms(5) by (auto simp: server_main_def)
      with two False started(5) serving_simps(2) [OF started(3)] show ?thesis by auto
    qed
  qed
qed

theorem main_gives_up_witness:
  "\<forall>uv_run. \<exists>w'. server_main 2 (literal ''0'') 0 0 0 uv_run empty_world = Inr (- 1, w') \<and> heap w' = [0 \<mapsto> []]"
proof
  fix uv_run
  have n: "strtoul (literal ''0'') = Inr (0, 1)"
    by (simp add: cstr_simps)
  from main_gives_up [OF world_ok_empty _ n, of 2 0 0 0 uv_run]
  show "\<exists>w'. server_main 2 (literal ''0'') 0 0 0 uv_run empty_world = Inr (- 1, w') \<and> heap w' = [0 \<mapsto> []]"
    by (auto simp: empty_world_def)
qed

end
