(* ===== verification/Tokenize.thy ===== *)
theory Tokenize
  imports CString
begin

text \<open>
  \<open>tokenize_string\<close> of src/src/string_functionality.c and the \<open>strtok\<close> of the C library it loops over. \<open>strtok\<close>
  keeps the place where it goes on and ends each token by writing a terminator into the string, so both are part of
  the state: a place is an offset into the object, and the object is returned changed. A token is the offset
  it starts at. The array \<open>out_tokens\<close> is a list of slots, \<open>None\<close> before it is written.
\<close>

section \<open>strtok\<close>

fun strspn :: "byte set \<Rightarrow> cbuf \<Rightarrow> fault + nat" where
  "strspn d [] = Inl BufferOverrun"
| "strspn d (b # s) = (if b \<in> d then bindE (strspn d s) (\<lambda>n. Inr (Suc n)) else Inr 0)"

fun strcspn :: "byte set \<Rightarrow> cbuf \<Rightarrow> fault + nat" where
  "strcspn d [] = Inl BufferOverrun"
| "strcspn d (b # s) = (if b = 0 \<or> b \<in> d then Inr 0 else bindE (strcspn d s) (\<lambda>n. Inr (Suc n)))"

definition strtok :: "byte set \<Rightarrow> nat \<Rightarrow> cbuf \<Rightarrow> fault + (nat option \<times> nat \<times> cbuf)" where
  "strtok d place str =
     bindE (strspn d (drop place str)) (\<lambda>i.
     let start = place + i in
     if str ! start = 0 then Inr (None, start, str)
     else
       bindE (strcspn d (drop start str)) (\<lambda>n.
       let stop = start + n in
       if str ! stop = 0 then Inr (Some start, stop, str)
       else Inr (Some start, Suc stop, str[stop := 0])))"

section \<open>tokenize_string\<close>

text \<open>The loop, with one round more than there are bytes; each token takes at least one of them.\<close>

fun tokens_loop ::
    "nat \<Rightarrow> byte set \<Rightarrow> int \<Rightarrow> nat \<Rightarrow> nat option list \<Rightarrow> nat option \<times> nat \<times> cbuf \<Rightarrow>
     fault + (nat \<times> nat option list \<times> nat \<times> cbuf)" where
  "tokens_loop 0 d max_tokens cnt out_tokens s = Inl Looping"
| "tokens_loop (Suc k) d max_tokens cnt out_tokens (token, place, str) =
     (case token of
        None \<Rightarrow> Inr (cnt, out_tokens, place, str)
      | Some t \<Rightarrow>
          if int cnt \<ge> max_tokens then Inr (cnt, out_tokens, place, str)
          else if length out_tokens \<le> cnt then Inl ArgvOverrun
          else bindE (strtok d place str) (tokens_loop k d max_tokens (Suc cnt) (out_tokens[cnt := Some t])))"

text \<open>
  \<open>strtok\<close> with a NULL string goes on where the last call of any caller has stopped: \<open>saved\<close> is that place and its
  string, and the place and the string are part of the result. Without an earlier call it reads through NULL.
\<close>

definition tokenize_string ::
    "cbuf option \<Rightarrow> cbuf option \<Rightarrow> (nat \<times> cbuf) option \<Rightarrow> int \<Rightarrow> nat option list \<Rightarrow>
     fault + (int \<times> nat option list \<times> (nat \<times> cbuf) option)" where
  "tokenize_string delimiter input_str saved max_tokens out_tokens =
     (case delimiter of
        None \<Rightarrow> Inr (- 1, out_tokens, saved)
      | Some delim \<Rightarrow>
          if 0 \<notin> set delim then Inl BufferOverrun
          else
            (case (case input_str of Some s \<Rightarrow> Some (0, s) | None \<Rightarrow> saved) of
               None \<Rightarrow> Inl NullDeref
             | Some (place, str) \<Rightarrow>
                 let d = set (cstr delim) in
                 bindE (bindE (strtok d place str) (tokens_loop (Suc (length str)) d max_tokens 0 out_tokens))
                   (\<lambda>(cnt, out, place', str'). Inr (int cnt, out, Some (place', str')))))"

section \<open>The fields of a string\<close>

text \<open>The specification: the longest runs of bytes that are no delimiters.\<close>

function fields :: "byte set \<Rightarrow> byte list \<Rightarrow> byte list list" where
  "fields d s =
     (case dropWhile (\<lambda>b. b \<in> d) s of
        [] \<Rightarrow> []
      | b # s' \<Rightarrow> takeWhile (\<lambda>b. b \<notin> d) (b # s') # fields d (dropWhile (\<lambda>b. b \<notin> d) s'))"
  by auto

termination
proof (relation "measure (length \<circ> snd)")
  fix d :: "byte set" and s b s'
  assume eq: "dropWhile (\<lambda>b. b \<in> d) s = b # s'"
  have "length (dropWhile (\<lambda>b. b \<notin> d) s') \<le> length s'" by (rule length_dropWhile_le)
  also have "\<dots> < length s" using length_dropWhile_le [of "\<lambda>b. b \<in> d" s] by (simp add: eq)
  finally show "((d, dropWhile (\<lambda>b. b \<notin> d) s'), (d, s)) \<in> measure (length \<circ> snd)" by simp
qed simp

declare fields.simps [simp del]

lemma fields_none: "set s \<subseteq> d \<Longrightarrow> fields d s = []"
proof -
  assume "set s \<subseteq> d"
  then have "dropWhile (\<lambda>b. b \<in> d) s = []" by (auto simp: dropWhile_eq_Nil_conv)
  then show ?thesis using fields.simps [of d s] by (simp only: list.case)
qed

lemma fields_skip: "b \<in> d \<Longrightarrow> fields d (b # s) = fields d s"
  by (simp add: fields.simps [of d "b # s"] fields.simps [of d s])

lemma fields_some:
  assumes "set sk \<subseteq> d" and "w \<noteq> []" and "set w \<inter> d = {}" and "r = [] \<or> hd r \<in> d"
  shows "fields d (sk @ w @ r) = w # fields d (tl r)"
proof -
  obtain b w' where w: "w = b # w'" using assms(2) by (cases w) auto
  have "dropWhile (\<lambda>b. b \<in> d) (sk @ w @ r) = w @ r" using assms(1,3) by (subst dropWhile_append2) (auto simp: w)
  moreover have "takeWhile (\<lambda>b. b \<notin> d) (w @ r) = w" "dropWhile (\<lambda>b. b \<notin> d) (w' @ r) = r"
    using assms(3,4) by (cases r; auto simp: w takeWhile_append dropWhile_append dropWhile_eq_Nil_conv)+
  ultimately have "fields d (sk @ w @ r) = w # fields d r" unfolding fields.simps [of d "sk @ w @ r"] by (simp add: w)
  moreover have "fields d r = fields d (tl r)" using assms(4) by (cases r) (simp_all add: fields_skip)
  ultimately show ?thesis by simp
qed

section \<open>One token\<close>

lemma strspn_in: "set sk \<subseteq> d \<Longrightarrow> b \<notin> d \<Longrightarrow> strspn d (sk @ b # s) = Inr (length sk)"
  by (induction sk) auto

lemma strcspn_in: "set w \<inter> d = {} \<Longrightarrow> 0 \<notin> set w \<Longrightarrow> b = 0 \<or> b \<in> d \<Longrightarrow> strcspn d (w @ b # s) = Inr (length w)"
  by (induction w) auto

text \<open>A string is delimiters only, or it has a first field.\<close>

lemma first_field:
  assumes "terminated rest" and d: "0 \<notin> d"
  obtains (none) sk r where "rest = sk @ 0 # r" "set sk \<subseteq> d"
  | (field) sk w b r where "rest = sk @ w @ b # r" "set sk \<subseteq> d" "w \<noteq> []" "set w \<inter> d = {}" "0 \<notin> set w" "b = 0 \<or> b \<in> d"
proof -
  define sk where "sk = takeWhile (\<lambda>b. b \<in> d) rest"
  define rest' where "rest' = dropWhile (\<lambda>b. b \<in> d) rest"
  have split: "rest = sk @ rest'" and sk: "set sk \<subseteq> d" by (auto simp: sk_def rest'_def dest: set_takeWhileD)
  have "0 \<notin> set sk" using sk d by auto
  then have t: "0 \<in> set rest'" using assms(1) split by (auto simp: terminated_def)
  then obtain c r where c: "rest' = c # r" by (cases rest') auto
  have cd: "c \<notin> d" using c by (simp add: rest'_def dropWhile_eq_Cons_conv)
  show thesis
  proof (cases "c = 0")
    case True
    with split sk c show thesis by (intro none) simp_all
  next
    case False
    let ?P = "\<lambda>b. b \<noteq> 0 \<and> b \<notin> d"
    have "dropWhile ?P rest' \<noteq> []" using t by (auto simp: dropWhile_eq_Nil_conv)
    then obtain b r' where b: "dropWhile ?P rest' = b # r'" by (cases "dropWhile ?P rest'") auto
    have "b = 0 \<or> b \<in> d" using b by (auto simp: dropWhile_eq_Cons_conv)
    moreover have "rest' = takeWhile ?P rest' @ b # r'" using takeWhile_dropWhile_id [of ?P rest'] b by simp
    moreover have "takeWhile ?P rest' \<noteq> []" using c False cd by simp
    moreover have "set (takeWhile ?P rest') \<inter> d = {}" "0 \<notin> set (takeWhile ?P rest')" by (auto dest: set_takeWhileD)
    ultimately show thesis using split sk by (intro field [of sk "takeWhile ?P rest'" b r']) simp_all
  qed
qed

lemma strtok_none:
  "set sk \<subseteq> d \<Longrightarrow> 0 \<notin> d \<Longrightarrow> strtok d (length pre) (pre @ sk @ 0 # r) = Inr (None, length pre + length sk, pre @ sk @ 0 # r)"
  by (simp add: strtok_def strspn_in nth_append)

lemma strtok_some:
  assumes "set sk \<subseteq> d" "w \<noteq> []" "set w \<inter> d = {}" "0 \<notin> set w" "b = 0 \<or> b \<in> d" "0 \<notin> d"
  shows "strtok d (length pre) (pre @ sk @ w @ b # r) =
    Inr (Some (length pre + length sk), length pre + length sk + length w + (if b = 0 then 0 else 1), pre @ sk @ w @ 0 # r)"
proof -
  obtain c w' where w: "w = c # w'" using assms(2) by (cases w) auto
  have c: "c \<noteq> 0" "c \<notin> d" using assms(3,4) by (auto simp: w)
  have "strspn d (sk @ w @ b # r) = Inr (length sk)" using strspn_in [OF assms(1) c(2), of "w' @ b # r"] by (simp add: w)
  moreover have "(pre @ sk @ w @ b # r) ! (length pre + length sk) = c" by (simp add: nth_append w)
  moreover have "drop (length pre + length sk) (pre @ sk @ w @ b # r) = w @ b # r" by simp
  moreover have "(pre @ sk @ w @ b # r) ! (length pre + length sk + length w) = b" by (simp add: nth_append)
  moreover have "(pre @ sk @ w @ b # r)[length pre + length sk + length w := 0] = pre @ sk @ w @ 0 # r"
    by (simp add: list_update_append)
  moreover have "drop (length pre) (pre @ sk @ w @ b # r) = sk @ w @ b # r" by simp
  ultimately show ?thesis using c(1) strcspn_in [OF assms(3,4,5), of r] unfolding strtok_def
    by (cases "b = 0") (simp_all only: bindE.simps sum.case Let_def if_False if_True refl add_0_right, simp_all)
qed

section \<open>The loop\<close>

text \<open>\<open>token_at str t w\<close>: the C string at offset \<open>t\<close> of the object is \<open>w\<close>.\<close>

definition token_at :: "cbuf \<Rightarrow> nat \<Rightarrow> byte list \<Rightarrow> bool" where
  "token_at str t w \<longleftrightarrow> terminated (drop t str) \<and> cstr (drop t str) = w"

lemma token_at_split [simp]: "0 \<notin> set w \<Longrightarrow> token_at (pre @ w @ 0 # r) (length pre) w"
  by (simp add: token_at_def)

text \<open>One call of \<open>strtok\<close> takes the first field off the string and leaves the rest of them to the next call.\<close>

lemma strtok_field:
  assumes "terminated rest" and d: "0 \<notin> d"
  obtains (none) start where "strtok d (length pre) (pre @ rest) = Inr (None, start, pre @ rest)" "fields d (cstr rest) = []"
  | (field) t pre' w rest' rest'' where
      "strtok d (length pre) (pre @ rest) = Inr (Some t, length pre', pre' @ rest')" "pre' @ rest' = pre @ rest''"
      "length rest'' = length rest" "hd rest \<noteq> 0" "pre' = pre @ take (length pre' - length pre) rest''"
      "terminated rest'" "length rest' < length rest" "fields d (cstr rest) = w # fields d (cstr rest')"
      "\<And>r. (hd rest' = 0 \<longrightarrow> r \<noteq> [] \<and> hd r = 0) \<Longrightarrow> token_at (pre' @ r) t w"
  using assms
proof (cases rest rule: first_field)
  case (none sk r)
  then have "0 \<notin> set sk" using d by auto
  with none show thesis using strtok_none [OF none(2) d, of pre r] fields_none [OF none(2)]
    by (intro that(1) [of "length pre + length sk"]) simp_all
next
  case (field sk w b r)
  have sk: "0 \<notin> set sk" using field(2) d by auto
  note tok = strtok_some [OF field(2-6) d, of pre r, folded field(1)]
  have hd: "hd rest \<noteq> 0" using field sk by (cases sk; cases w) auto
  have at: "token_at (pre @ sk @ w @ 0 # x) (length pre + length sk) w" for x
    using token_at_split [OF field(5), of "pre @ sk" x] by simp
  show thesis
  proof (cases "b = 0")
    case True
    have "fields d (cstr rest) = w # fields d []"
      using fields_some [OF field(2-4), of "[]"] cstr_append_zero [of "sk @ w" r] sk field(5) by (simp add: field(1) True)
    moreover have "token_at ((pre @ sk @ w) @ r') (length pre + length sk) w" if "r' \<noteq> [] \<and> hd r' = 0" for r'
      using that at [of "tl r'"] by (cases r') auto
    ultimately show thesis using tok hd field(1,3) True
      by (intro that(2) [of "length pre + length sk" "pre @ sk @ w" "0 # r" "sk @ w @ 0 # r" w]) simp_all
  next
    case False
    then have b: "b \<in> d" using field(6) by simp
    have "cstr rest = sk @ w @ b # cstr r" using sk field(5) False unfolding field(1)
      by (simp add: cstr_def takeWhile_append)
    then have "fields d (cstr rest) = w # fields d (cstr r)" using fields_some [OF field(2-4), of "b # cstr r"] b by simp
    moreover have "terminated r" using assms(1) sk field(5) False by (simp add: field(1) terminated_def)
    moreover have "token_at ((pre @ sk @ w @ [0]) @ r') (length pre + length sk) w" for r'
      using at [of r'] by simp
    ultimately show thesis using tok hd field(1) False
      by (intro that(2) [of "length pre + length sk" "pre @ sk @ w @ [0]" r "sk @ w @ 0 # r" w]) simp_all
  qed
qed

lemma tokens_fields:
  assumes "terminated rest" and "0 \<notin> d" and "length rest < k" and "max_tokens \<le> int (length out)"
  shows "\<exists>fs out' place rest'. fs = take (nat (max_tokens - int cnt)) (fields d (cstr rest)) \<and>
    bindE (strtok d (length pre) (pre @ rest)) (tokens_loop k d max_tokens cnt out) =
      Inr (cnt + length fs, out', place, pre @ rest') \<and> length rest' = length rest \<and> (hd rest = 0 \<longrightarrow> hd rest' = 0) \<and>
    length out' = length out \<and> (\<forall>i. i < cnt \<or> cnt + length fs \<le> i \<longrightarrow> out' ! i = out ! i) \<and>
    (\<forall>j < length fs. \<exists>t. out' ! (cnt + j) = Some t \<and> token_at (pre @ rest') t (fs ! j))"
  using assms(1,3,4)
proof (induction k arbitrary: rest pre cnt out)
  case (Suc k)
  show ?case using Suc.prems(1) assms(2)
  proof (cases rule: strtok_field [where pre = pre])
    case (none start)
    then show ?thesis by auto
  next
    case (field t pre' w rest' rest'')
    show ?thesis
    proof (cases "int cnt \<ge> max_tokens")
      case True
      with field show ?thesis by auto
    next
      case False
      then have cnt: "cnt < length out" using Suc.prems(3) by simp
      let ?fs = "take (nat (max_tokens - int (Suc cnt))) (fields d (cstr rest'))"
      have fs: "take (nat (max_tokens - int cnt)) (fields d (cstr rest)) = w # ?fs"
      proof -
        have "nat (max_tokens - int cnt) = Suc (nat (max_tokens - int (Suc cnt)))" using False by simp
        then show ?thesis by (simp only: field(8) take_Suc_Cons)
      qed
      have "length rest' < k" "max_tokens \<le> int (length (out[cnt := Some t]))" using field(7) Suc.prems(2,3) by simp_all
      from Suc.IH [OF field(6) this, where pre = pre' and cnt = "Suc cnt"] obtain gs out' place r where gs: "gs = ?fs" and r:
        "bindE (strtok d (length pre') (pre' @ rest')) (tokens_loop k d max_tokens (Suc cnt) (out[cnt := Some t])) =
          Inr (Suc cnt + length gs, out', place, pre' @ r)"
        "length r = length rest'" "hd rest' = 0 \<longrightarrow> hd r = 0" "length out' = length (out[cnt := Some t])"
        "\<forall>i. i < Suc cnt \<or> Suc cnt + length gs \<le> i \<longrightarrow> out' ! i = out[cnt := Some t] ! i"
        "\<forall>j < length gs. \<exists>t. out' ! (Suc cnt + j) = Some t \<and> token_at (pre' @ r) t (gs ! j)"
        by blast
      have "rest' \<noteq> []" using field(6) by auto
      then have at: "token_at (pre' @ r) t w" using r(2,3) by (intro field(9)) auto
      have "pre' @ r = pre @ (take (length pre' - length pre) rest'' @ r)" using field(5) by (metis append.assoc)
      moreover have "length pre' + length rest' = length pre + length rest" using field(2,3) by (metis length_append)
      ultimately obtain x where x: "pre' @ r = pre @ x" "length x = length rest"
        using r(2) by (metis add_left_cancel length_append)
      have "bindE (strtok d (length pre) (pre @ rest)) (tokens_loop (Suc k) d max_tokens cnt out) =
          Inr (cnt + length (w # gs), out', place, pre @ x)"
        using field(1) r(1) False cnt x(1) by simp
      moreover have "\<exists>t. out' ! (cnt + j) = Some t \<and> token_at (pre @ x) t ((w # gs) ! j)" if "j < length (w # gs)" for j
        using that at r(5) r(6) cnt by (cases j) (simp_all add: x(1) [symmetric])
      moreover have "out' ! i = out ! i" if "i < cnt \<or> cnt + length (w # gs) \<le> i" for i using that r(5) by auto
      ultimately show ?thesis using fs [folded gs] field(4) x(2) r(4) by (intro exI [of _ "w # gs"] exI [of _ out'] exI [of _ place] exI [of _ x]) simp
    qed
  qed
qed simp

text \<open>C31. \<open>tokenize_string\<close> splits the string into the longest runs of bytes that are no delimiters: it returns how many
  there are, at most \<open>max_tokens\<close>, the slots of \<open>out_tokens\<close> point to them in order, each of them now a C string of
  its own inside the input, the other slots are as they were, and nothing is written outside the input.
\<close>
theorem tokenize_splits:
  assumes "terminated delim" and "terminated input_str" and "max_tokens \<le> int (length out)"
  defines "fs \<equiv> take (nat max_tokens) (fields (set (cstr delim)) (cstr input_str))"
  shows "\<exists>out' place str. tokenize_string (Some delim) (Some input_str) saved max_tokens out =
      Inr (int (length fs), out', Some (place, str)) \<and>
    length str = length input_str \<and> length out' = length out \<and> (\<forall>i \<ge> length fs. out' ! i = out ! i) \<and>
    (\<forall>j < length fs. \<exists>t. out' ! j = Some t \<and> token_at str t (fs ! j))"
proof -
  have "length input_str < Suc (length input_str)" by simp
  from tokens_fields [OF assms(2) cstr_nonzero [of delim] this assms(3), where pre = "[]" and cnt = 0] show ?thesis
    using assms(1) by (auto simp: tokenize_string_def fs_def terminated_def Let_def)
qed

theorem tokenize_splits_witness:
  "\<exists>out' place str. tokenize_string (Some [32, 0]) (Some [97, 32, 32, 98, 0]) None 2 [None, None] =
      Inr (2, out', Some (place, str)) \<and>
    length str = 5 \<and> (\<exists>t. out' ! 1 = Some t \<and> token_at str t [98])"
proof -
  have f: "fields {32} [97, 32, 32, 98] = [[97], [98]]" by (simp add: fields.simps)
  show ?thesis
    using tokenize_splits [of "[32, 0]" "[97, 32, 32, 98, 0]" 2 "[None, None]" None]
    by (fastforce simp: f)
qed

end
